(* ===== verification/Prelude.thy ===== *)
theory Prelude
  imports Main "HOL-Library.Word" "HOL-Library.Monad_Syntax"
begin

text \<open>
  What every component of the development shares: the machine integer types of the C code
  (an LP64 Linux target), the pointer type, the error numbers, and generic facts on lists,
  options and words.

  A computation that may touch memory it does not own has a result of type \<open>option\<close>:
  \<open>None\<close> is a call that does not return normally (undefined behaviour such as an
  out-of-bounds or use-after-free access, or a wait that nothing ends). The \<open>do\<close> notation is
  that of the option monad.
\<close>

section \<open>Collections of rewrite rules\<close>

named_theorems heap_simps \<open>evaluation of the operations of the kernel heap\<close>

section \<open>Types of the C code\<close>

type_synonym u8 = "8 word"
type_synonym u32 = "32 word"
type_synonym size_t = "64 word"
type_synonym ssize_t = "64 word"
type_synonym loff_t = "64 word"

text \<open>
  Signed 64-bit results (\<open>ssize_t\<close>, \<open>loff_t\<close>, \<open>long\<close>) are words read with \<^const>\<open>sint\<close>.
\<close>

abbreviation newline :: char where
  "newline \<equiv> CHR 0x0A"

abbreviation nul :: char where
  "nul \<equiv> CHR 0x00"

text \<open>
  Pointers to dynamically allocated memory. An object is named by a number that is never used
  again, so that a stale pointer can always be told from a live one. \<open>ZERO_SIZE_PTR\<close> is what
  the kernel allocator returns for a request of no bytes: not \<open>NULL\<close>, and not to be accessed.
\<close>

datatype ptr = NULL | ZERO_SIZE_PTR | Obj nat

fun addrs :: "ptr \<Rightarrow> nat list" where
  "addrs (Obj a) = [a]"
| "addrs _ = []"

definition ENOMEM :: "64 word" where "ENOMEM = 12"
definition EFAULT :: "64 word" where "EFAULT = 14"
definition EINVAL :: "64 word" where "EINVAL = 22"

definition INT_MAX :: nat where "INT_MAX = 2147483647"

section \<open>Commands\<close>

text \<open>A command is a byte string that ends with its only newline.\<close>

definition is_command :: "char list \<Rightarrow> bool" where
  "is_command x \<longleftrightarrow> x \<noteq> [] \<and> last x = newline \<and> newline \<notin> set (butlast x)"

section \<open>Numbers as text\<close>

definition digits :: "char list" where "digits = ''0123456789''"

function decimal :: "nat \<Rightarrow> char list" where
  "decimal n = (if n < 10 then [digits ! n] else decimal (n div 10) @ [digits ! (n mod 10)])"
  by pat_completeness auto
termination by (relation "measure id") auto

declare decimal.simps [simp del]

section \<open>Lists\<close>

lemma set_addrs_iff [simp]: "a \<in> set (addrs p) \<longleftrightarrow> p = Obj a"
  by (cases p) auto

lemma sum_list_take_le: "sum_list (take k xs) \<le> sum_list (xs :: nat list)"
  by (metis append_take_drop_id le_add1 sum_list_append)

lemma sum_list_bounded:
  "(\<And>x. x \<in> set xs \<Longrightarrow> x \<le> b) \<Longrightarrow> sum_list xs \<le> length xs * (b :: nat)"
  using sum_list_mono [of xs "\<lambda>x. x" "\<lambda>_. b"] by (simp add: sum_list_triv)

lemma those_map_Some [simp]: "those (map Some xs) = Some xs"
  by (induction xs) auto

lemma nth_concat_split:
  "k < length xss \<Longrightarrow> d < length (xss ! k) \<Longrightarrow>
   concat xss ! (sum_list (map length (take k xss)) + d) = xss ! k ! d"
proof (induction xss arbitrary: k)
  case Nil
  then show ?case by simp
next
  case (Cons xs xss)
  then show ?case by (cases k) (auto simp: nth_append)
qed

section \<open>Words\<close>

lemma unat_of_nat_small: "n < 2 ^ LENGTH('a) \<Longrightarrow> unat (word_of_nat n :: 'a::len word) = n"
  by (simp add: unat_of_nat take_bit_nat_eq_self)

lemma unat_minus_le: "(b :: 'a::len word) \<le> a \<Longrightarrow> unat (a - b) = unat a - unat b"
  by (rule unat_sub)

lemma unat_ucast_up:
  fixes w :: "'a::len word"
  assumes "LENGTH('a) \<le> LENGTH('b::len)"
  shows "unat (ucast w :: 'b word) = unat w"
proof -
  have "unat w < 2 ^ LENGTH('a)" by (rule unsigned_less)
  also have "\<dots> \<le> 2 ^ LENGTH('b)" using assms by simp
  finally show ?thesis by (simp add: unsigned_ucast_eq take_bit_nat_eq_self)
qed

end
