(* ===== verification/RecentLog.thy ===== *)
theory RecentLog
  imports Prelude
begin

text \<open>
  The contract the driver relies on when it hands a command to the circular buffer: a log that
  keeps the \<open>cap\<close> most recent elements and gives back the element it drops, so that the
  caller can release it. \<open>RecentLog\<close> states the contract and proves what follows for a whole
  sequence of additions; \<open>CircularBuffer\<close> discharges it for the C code.
\<close>

definition lastn :: "nat \<Rightarrow> 'a list \<Rightarrow> 'a list" where
  "lastn n xs = drop (length xs - n) xs"

definition keep_recent :: "nat \<Rightarrow> 'a list \<Rightarrow> 'a \<Rightarrow> 'a list" where
  "keep_recent cap xs x = (if length xs = cap then tl xs else xs) @ [x]"

definition dropped :: "nat \<Rightarrow> 'a list \<Rightarrow> 'a option" where
  "dropped cap xs = (if length xs = cap then Some (hd xs) else None)"

fun run_pushes :: "('q \<Rightarrow> 'e \<Rightarrow> ('q \<times> 'r) option) \<Rightarrow> 'q \<Rightarrow> 'e list \<Rightarrow> ('q \<times> 'r list) option" where
  "run_pushes push q [] = Some (q, [])"
| "run_pushes push q (e # es) = do {
     (q1, r) \<leftarrow> push q e;
     (q2, rs) \<leftarrow> run_pushes push q1 es;
     Some (q2, r # rs)
   }"

lemma lastn_lastn_append: "lastn n (lastn n xs @ ys) = lastn n (xs @ ys)"
proof (cases "length xs \<le> n")
  case True
  then show ?thesis by (simp add: lastn_def)
next
  case False
  then have "length xs + length ys - n = length ys + (length xs - n)"
    "length xs - (length xs - n) = n" by arith+
  with False show ?thesis by (simp add: lastn_def)
qed

lemma lastn_short: "length xs \<le> n \<Longrightarrow> lastn n xs = xs"
  by (simp add: lastn_def)

lemma keep_recent_lastn:
  "length xs \<le> cap \<Longrightarrow> 0 < cap \<Longrightarrow> keep_recent cap xs x = lastn cap (xs @ [x])"
  by (auto simp: keep_recent_def lastn_def tl_append2 drop_Suc Suc_diff_le split: list.splits)

lemma length_keep_recent:
  "length xs \<le> cap \<Longrightarrow> 0 < cap \<Longrightarrow> length (keep_recent cap xs x) \<le> cap"
  by (auto simp: keep_recent_def)

lemma keep_recent_conserves:
  "0 < cap \<Longrightarrow>
   (case dropped cap xs of None \<Rightarrow> [] | Some y \<Rightarrow> [y]) @ keep_recent cap xs x = xs @ [x]"
  by (cases xs) (auto simp: keep_recent_def dropped_def)

locale recent_log =
  fixes push :: "'q \<Rightarrow> 'e \<Rightarrow> ('q \<times> 'r) option"
    and contents :: "'q \<Rightarrow> 'e list"
    and inv :: "'q \<Rightarrow> bool"
    and cap :: nat
    and handback :: "'e option \<Rightarrow> 'r"
  assumes cap_pos: "0 < cap"
    and bounded: "inv q \<Longrightarrow> length (contents q) \<le> cap"
    and push_ok: "inv q \<Longrightarrow> \<exists>q'. push q e = Some (q', handback (dropped cap (contents q)))
                    \<and> inv q' \<and> contents q' = keep_recent cap (contents q) e"
begin

lemma push_contents:
  assumes "inv q" and "push q e = Some (q', r)"
  shows "inv q'" and "contents q' = keep_recent cap (contents q) e"
    and "r = handback (dropped cap (contents q))"
  using push_ok [OF assms(1), of e] assms(2) by auto

lemma run_pushes_ok:
  assumes "inv q"
  shows "\<exists>q' rs. run_pushes push q es = Some (q', rs) \<and> inv q'
           \<and> contents q' = lastn cap (contents q @ es) \<and> length rs = length es"
  using assms
proof (induction es arbitrary: q)
  case Nil
  then show ?case by (simp add: lastn_short bounded)
next
  case (Cons e es)
  obtain q1 where q1: "push q e = Some (q1, handback (dropped cap (contents q)))" "inv q1"
    "contents q1 = keep_recent cap (contents q) e"
    using push_ok [OF Cons.prems] by blast
  obtain q2 rs where q2: "run_pushes push q1 es = Some (q2, rs)" "inv q2"
    "contents q2 = lastn cap (contents q1 @ es)" "length rs = length es"
    using Cons.IH [OF q1(2)] by blast
  have "contents q2 = lastn cap (contents q @ e # es)"
    using q2(3) q1(3) keep_recent_lastn [OF bounded [OF Cons.prems] cap_pos, of e]
      lastn_lastn_append [of cap "contents q @ [e]" es] by simp
  with q1 q2 show ?case by simp
qed

text \<open>Nothing is lost: what was handed back, then what is stored, is all that ever went in.\<close>

lemma run_pushes_conserves:
  assumes "inv q"
  shows "\<exists>q' out. run_pushes push q es = Some (q', map handback out)
           \<and> concat (map (\<lambda>d. case d of None \<Rightarrow> [] | Some y \<Rightarrow> [y]) out) @ contents q'
             = contents q @ es"
  using assms
proof (induction es arbitrary: q)
  case Nil
  then show ?case by (intro exI [of _ q] exI [of _ "[]"]) simp
next
  case (Cons e es)
  obtain q1 where q1: "push q e = Some (q1, handback (dropped cap (contents q)))" "inv q1"
    "contents q1 = keep_recent cap (contents q) e"
    using push_ok [OF Cons.prems] by blast
  obtain q2 out where q2: "run_pushes push q1 es = Some (q2, map handback out)"
    "concat (map (\<lambda>d. case d of None \<Rightarrow> [] | Some y \<Rightarrow> [y]) out) @ contents q2 = contents q1 @ es"
    using Cons.IH [OF q1(2)] by blast
  show ?case
    using q1 q2 keep_recent_conserves [OF cap_pos, of "contents q" e]
    by (intro exI [of _ q2] exI [of _ "dropped cap (contents q) # out"]) simp
qed

end

end
