(* ===== verification/CircularBuffer.thy ===== *)
theory CircularBuffer
  imports RecentLog
begin

text \<open>
  The circular buffer of write commands: \<open>aesd-char-driver/aesd-circular-buffer.h\<close> and
  \<open>aesd-circular-buffer.c\<close>. A pointer to an entry of the buffer is the index of the entry,
  \<open>None\<close> being \<open>NULL\<close>; an out-parameter is a value passed in and returned.
\<close>

section \<open>Data\<close>

definition AESDCHAR_MAX_WRITE_OPERATIONS_SUPPORTED :: nat where
  "AESDCHAR_MAX_WRITE_OPERATIONS_SUPPORTED = 10"

abbreviation MAXW :: nat where
  "MAXW \<equiv> AESDCHAR_MAX_WRITE_OPERATIONS_SUPPORTED"

lemma MAXW_eq [simp]: "MAXW = 10"
  by (simp add: AESDCHAR_MAX_WRITE_OPERATIONS_SUPPORTED_def)

record aesd_buffer_entry =
  buffptr :: ptr
  entry_size :: size_t

record aesd_circular_buffer =
  entry :: "aesd_buffer_entry list"
  in_offs :: u8
  out_offs :: u8
  full :: bool

definition zero_entry :: aesd_buffer_entry where
  "zero_entry = \<lparr>buffptr = NULL, entry_size = 0\<rparr>"

section \<open>Operations\<close>

text \<open>
  \<open>aesd_circular_buffer_init\<close> clears the whole structure: all-zero bytes are null pointers,
  zero sizes, zero offsets and a false flag.
\<close>

definition aesd_circular_buffer_init :: "aesd_circular_buffer \<Rightarrow> aesd_circular_buffer" where
  "aesd_circular_buffer_init buffer =
     \<lparr>entry = replicate MAXW zero_entry, in_offs = 0, out_offs = 0, full = False\<rparr>"

text \<open>
  The search loop of \<open>aesd_circular_buffer_find_entry_offset_for_fpos\<close>: \<open>i\<close> counts the
  entries visited, \<open>char_difference\<close> is what is left of the offset, \<open>rtn\<close> the value behind
  \<open>entry_offset_byte_rtn\<close>.
\<close>

function find_entry_loop ::
  "aesd_circular_buffer \<Rightarrow> nat \<Rightarrow> size_t \<Rightarrow> size_t \<Rightarrow> nat option \<times> size_t" where
  "find_entry_loop buffer i char_difference rtn =
     (if i < MAXW then
        (let buffer_index = (unat (out_offs buffer) + i) mod MAXW in
         if buffer_index = unat (in_offs buffer) \<and> \<not> full buffer then (None, rtn)
         else if char_difference \<ge> entry_size (entry buffer ! buffer_index)
         then find_entry_loop buffer (Suc i)
                (char_difference - entry_size (entry buffer ! buffer_index)) rtn
         else (Some buffer_index, char_difference))
      else (None, rtn))"
  by pat_completeness auto
termination
  by (relation "measure (\<lambda>(b, i, d, r). MAXW - i)") auto

declare find_entry_loop.simps [simp del]

definition aesd_circular_buffer_find_entry_offset_for_fpos ::
  "aesd_circular_buffer \<Rightarrow> size_t \<Rightarrow> size_t \<Rightarrow> nat option \<times> size_t" where
  "aesd_circular_buffer_find_entry_offset_for_fpos buffer char_offset entry_offset_byte_rtn =
     find_entry_loop buffer 0 char_offset entry_offset_byte_rtn"

text \<open>
  \<open>aesd_circular_buffer_add_entry\<close>. The entry array is accessed at \<open>in_offs\<close> with no check,
  so an offset past the array is undefined behaviour (\<open>None\<close>). The offsets are bytes that are
  promoted to \<open>int\<close>, incremented, reduced and stored back as bytes.
\<close>

definition next_offs :: "u8 \<Rightarrow> u8" where
  "next_offs offs = word_of_nat ((unat offs + 1) mod MAXW)"

definition aesd_circular_buffer_add_entry ::
  "aesd_circular_buffer \<Rightarrow> aesd_buffer_entry \<Rightarrow> (aesd_circular_buffer \<times> ptr) option" where
  "aesd_circular_buffer_add_entry buffer add_entry =
     (if unat (in_offs buffer) < length (entry buffer) then
        (let returnValue = (if full buffer then buffptr (entry buffer ! unat (in_offs buffer))
                            else NULL);
             b1 = buffer\<lparr>entry := (entry buffer)[unat (in_offs buffer) := add_entry]\<rparr>;
             b2 = b1\<lparr>in_offs := next_offs (in_offs b1)\<rparr>;
             b3 = (if full b2 then b2\<lparr>out_offs := next_offs (out_offs b2)\<rparr> else b2);
             b4 = (if out_offs b3 = in_offs b3 then b3\<lparr>full := True\<rparr> else b3)
         in Some (b4, returnValue))
      else None)"

text \<open>
  \<open>AESD_CIRCULAR_BUFFER_FOREACH\<close>: the body is run on the entries at indices 0 to 9 in order,
  whatever the offsets are; a body that can fail stops the loop.
\<close>

fun foreach_entries :: "(aesd_buffer_entry \<Rightarrow> 's \<Rightarrow> 's option) \<Rightarrow> aesd_buffer_entry list \<Rightarrow> 's \<Rightarrow> 's option"
where
  "foreach_entries body [] s = Some s"
| "foreach_entries body (e # es) s = do { s1 \<leftarrow> body e s; foreach_entries body es s1 }"

definition AESD_CIRCULAR_BUFFER_FOREACH ::
  "(aesd_buffer_entry \<Rightarrow> 's \<Rightarrow> 's option) \<Rightarrow> aesd_circular_buffer \<Rightarrow> 's \<Rightarrow> 's option" where
  "AESD_CIRCULAR_BUFFER_FOREACH body buffer s =
     (if length (entry buffer) < MAXW then None
      else foreach_entries body (take MAXW (entry buffer)) s)"

section \<open>Invariants and the list of stored entries\<close>

text \<open>
  \<open>cb_wf\<close> is what the search needs; \<open>cb_hist\<close> adds what is true of a buffer that was filled by
  \<open>aesd_circular_buffer_add_entry\<close> only: entries are never removed, so until the buffer is full
  it starts at index 0 and the entries not yet written are zero.
\<close>

definition cb_wf :: "aesd_circular_buffer \<Rightarrow> bool" where
  "cb_wf b \<longleftrightarrow> length (entry b) = MAXW \<and> unat (in_offs b) < MAXW \<and> unat (out_offs b) < MAXW
     \<and> (full b \<longrightarrow> in_offs b = out_offs b)"

definition cb_hist :: "aesd_circular_buffer \<Rightarrow> bool" where
  "cb_hist b \<longleftrightarrow> cb_wf b \<and> (\<not> full b \<longrightarrow> out_offs b = 0
     \<and> list_all (\<lambda>e. e = zero_entry) (drop (unat (in_offs b)) (entry b)))"

definition ring_idx :: "aesd_circular_buffer \<Rightarrow> nat \<Rightarrow> nat" where
  "ring_idx b i = (unat (out_offs b) + i) mod MAXW"

definition ring_count :: "aesd_circular_buffer \<Rightarrow> nat" where
  "ring_count b = (if full b then MAXW
                   else (unat (in_offs b) + MAXW - unat (out_offs b)) mod MAXW)"

definition ring_entries :: "aesd_circular_buffer \<Rightarrow> aesd_buffer_entry list" where
  "ring_entries b = map (\<lambda>i. entry b ! ring_idx b i) [0..<ring_count b]"

abbreviation entry_len :: "aesd_buffer_entry \<Rightarrow> nat" where
  "entry_len e \<equiv> unat (entry_size e)"

text \<open>
  What a position in the concatenated commands means: \<open>locate sizes n\<close> is the number of the
  command that holds byte \<open>n\<close> and the byte's offset inside it.
\<close>

fun locate :: "nat list \<Rightarrow> nat \<Rightarrow> (nat \<times> nat) option" where
  "locate [] n = None"
| "locate (s # ss) n =
     (if n < s then Some (0, n) else map_option (\<lambda>(k, d). (Suc k, d)) (locate ss (n - s)))"

lemma locate_None_iff: "locate ss n = None \<longleftrightarrow> sum_list ss \<le> n"
  by (induction ss n rule: locate.induct) auto

lemma locate_Some_iff:
  "locate ss n = Some (k, d) \<longleftrightarrow>
     k < length ss \<and> d < ss ! k \<and> n = sum_list (take k ss) + d"
proof (induction ss arbitrary: n k)
  case Nil
  then show ?case by simp
next
  case (Cons s ss)
  show ?case
  proof (cases k)
    case 0
    then show ?thesis by auto
  next
    case (Suc j)
    then show ?thesis using Cons.IH [of "n - s" j] by auto
  qed
qed

lemma cb_wf_init: "cb_wf (aesd_circular_buffer_init b)"
  by (simp add: cb_wf_def aesd_circular_buffer_init_def)

lemma cb_hist_wf: "cb_hist b \<Longrightarrow> cb_wf b"
  by (simp add: cb_hist_def)

lemma cb_hist_init: "cb_hist (aesd_circular_buffer_init b)"
  by (simp add: cb_hist_def cb_wf_init) (simp add: aesd_circular_buffer_init_def list_all_iff)

lemma ring_entries_init [simp]: "ring_entries (aesd_circular_buffer_init b) = []"
  by (simp add: ring_entries_def ring_count_def aesd_circular_buffer_init_def)

lemma ring_count_le: "ring_count b \<le> MAXW"
  by (simp add: ring_count_def less_imp_le)

lemma length_ring_entries [simp]: "length (ring_entries b) = ring_count b"
  by (simp add: ring_entries_def)

lemma nth_ring_entries: "i < ring_count b \<Longrightarrow> ring_entries b ! i = entry b ! ring_idx b i"
  by (simp add: ring_entries_def)

lemma ring_idx_less: "ring_idx b i < MAXW"
  by (simp add: ring_idx_def)

lemma mod_window_iff:
  fixes i p q n :: nat
  assumes "p < n" "q < n" "i < n"
  shows "(q + i) mod n = p \<longleftrightarrow> i = (p + n - q) mod n"
proof (cases "q \<le> p")
  case True
  then have "(p + n - q) mod n = p - q" using assms by (simp add: mod_if)
  then show ?thesis using assms True by (auto simp: mod_if)
next
  case False
  then have "(p + n - q) mod n = p + n - q" using assms by (simp add: mod_if)
  then show ?thesis using assms False by (auto simp: mod_if)
qed

lemma mod_add_inj:
  fixes a b c n :: nat
  assumes "a < n" "b < n"
  shows "(c + a) mod n = (c + b) mod n \<longleftrightarrow> a = b"
proof
  assume eq: "(c + a) mod n = (c + b) mod n"
  have lt: "c mod n < n" "(c + b) mod n < n" using assms by simp_all
  have "a = ((c + b) mod n + n - c mod n) mod n"
    using mod_window_iff [OF lt(2,1) assms(1)] eq by (simp add: mod_add_left_eq)
  moreover have "b = ((c + b) mod n + n - c mod n) mod n"
    using mod_window_iff [OF lt(2,1) assms(2)] by (simp add: mod_add_left_eq)
  ultimately show "a = b" by simp
qed simp

lemma ring_idx_in_iff:
  assumes "cb_wf b" and "\<not> full b" and "i < MAXW"
  shows "ring_idx b i = unat (in_offs b) \<longleftrightarrow> i = ring_count b"
proof -
  have "unat (in_offs b) < 10" "unat (out_offs b) < 10"
    using assms by (auto simp: cb_wf_def)
  then show ?thesis
    using assms(2,3) mod_window_iff [of "unat (in_offs b)" 10 "unat (out_offs b)" i]
    by (simp add: ring_idx_def ring_count_def)
qed

section \<open>The search\<close>

lemma find_entry_loop_locate:
  assumes "cb_wf b" and "i \<le> ring_count b"
  shows "find_entry_loop b i diff rtn =
    (case locate (map entry_len (drop i (ring_entries b))) (unat diff) of
       None \<Rightarrow> (None, rtn)
     | Some (k, d) \<Rightarrow> (Some (ring_idx b (i + k)), word_of_nat d))"
  using assms(2)
proof (induction "MAXW - i" arbitrary: i diff)
  case 0
  then have "i = ring_count b" "\<not> i < MAXW" using ring_count_le [of b] by auto
  then show ?case by (subst find_entry_loop.simps) simp
next
  case (Suc n)
  then have i: "i < MAXW" by simp
  have unfold: "find_entry_loop b i diff rtn =
    (if ring_idx b i = unat (in_offs b) \<and> \<not> full b then (None, rtn)
     else if diff \<ge> entry_size (entry b ! ring_idx b i)
     then find_entry_loop b (Suc i) (diff - entry_size (entry b ! ring_idx b i)) rtn
     else (Some (ring_idx b i), diff))"
    using i by (subst find_entry_loop.simps) (simp add: ring_idx_def Let_def)
  show ?case
  proof (cases "i = ring_count b")
    case True
    then have "\<not> full b" using i by (auto simp: ring_count_def)
    then have "ring_idx b i = unat (in_offs b)"
      using ring_idx_in_iff [OF assms(1) _ i] True by blast
    then show ?thesis using True \<open>\<not> full b\<close> unfold by simp
  next
    case False
    then have lt: "i < ring_count b" using Suc.prems by simp
    have stop: "\<not> (ring_idx b i = unat (in_offs b) \<and> \<not> full b)"
      using ring_idx_in_iff [OF assms(1) _ i] False by blast
    have d: "drop i (ring_entries b) = entry b ! ring_idx b i # drop (Suc i) (ring_entries b)"
      using lt by (simp add: Cons_nth_drop_Suc [symmetric] nth_ring_entries)
    show ?thesis
    proof (cases "diff \<ge> entry_size (entry b ! ring_idx b i)")
      case True
      then have sub: "unat (diff - entry_size (entry b ! ring_idx b i))
          = unat diff - entry_len (entry b ! ring_idx b i)"
        by (rule unat_minus_le)
      have le: "entry_len (entry b ! ring_idx b i) \<le> unat diff"
        using True by (simp add: word_le_nat_alt)
      have "n = MAXW - Suc i" using Suc.hyps(2) by simp
      from Suc.hyps(1) [OF this] show ?thesis
        using lt le True by (simp add: unfold stop d sub split: option.split)
    next
      case False
      then have "unat diff < entry_len (entry b ! ring_idx b i)"
        by (simp add: word_less_nat_alt not_le)
      then show ?thesis using False by (simp add: unfold stop d)
    qed
  qed
qed

lemma find_entry_locate:
  assumes "cb_wf b"
  shows "aesd_circular_buffer_find_entry_offset_for_fpos b off rtn =
    (case locate (map entry_len (ring_entries b)) (unat off) of
       None \<Rightarrow> (None, rtn)
     | Some (k, d) \<Rightarrow> (Some (ring_idx b k), word_of_nat d))"
  using find_entry_loop_locate [OF assms, of 0 off rtn]
  by (simp add: aesd_circular_buffer_find_entry_offset_for_fpos_def split: option.split)

section \<open>Adding an entry\<close>

lemma unat_next_offs [simp]: "unat (next_offs x) = (unat x + 1) mod MAXW"
  unfolding next_offs_def by (rule unat_of_nat_small) (simp add: order.strict_trans [of _ 10])

definition added :: "aesd_circular_buffer \<Rightarrow> aesd_buffer_entry \<Rightarrow> aesd_circular_buffer" where
  "added b e = \<lparr>entry = (entry b)[unat (in_offs b) := e], in_offs = next_offs (in_offs b),
     out_offs = (if full b then next_offs (out_offs b) else out_offs b),
     full = (full b \<or> next_offs (in_offs b) = out_offs b)\<rparr>"

lemma add_entry_eq:
  assumes "cb_wf b"
  shows "aesd_circular_buffer_add_entry b e =
    Some (added b e, if full b then buffptr (entry b ! unat (in_offs b)) else NULL)"
  using assms
  by (cases "full b") (auto simp: aesd_circular_buffer_add_entry_def added_def cb_wf_def Let_def)

lemma cb_wf_added: "cb_wf b \<Longrightarrow> cb_wf (added b e)"
  by (auto simp: cb_wf_def added_def)

lemma ring_count_added:
  assumes "cb_wf b"
  shows "ring_count (added b e) = (if full b then MAXW else Suc (ring_count b))"
proof (cases "full b")
  case True
  then show ?thesis by (simp add: ring_count_def added_def)
next
  case False
  have b: "unat (in_offs b) < 10" "unat (out_offs b) < 10"
    using assms by (auto simp: cb_wf_def)
  have eq: "next_offs (in_offs b) = out_offs b \<longleftrightarrow> (unat (in_offs b) + 1) mod 10 = unat (out_offs b)"
    by (metis MAXW_eq unat_next_offs word_unat_eq_iff)
  show ?thesis using b False
    by (simp add: ring_count_def added_def eq mod_if split: if_splits) linarith
qed

lemma ring_idx_0_full: "cb_wf b \<Longrightarrow> full b \<Longrightarrow> ring_idx b 0 = unat (in_offs b)"
  by (simp add: ring_idx_def cb_wf_def)

lemma ring_entries_added_not_full:
  assumes wf: "cb_wf b" and nf: "\<not> full b"
  shows "ring_entries (added b e) = ring_entries b @ [e]"
proof (rule nth_equalityI)
  have c: "ring_count b < MAXW" using nf by (simp add: ring_count_def)
  show "length (ring_entries (added b e)) = length (ring_entries b @ [e])"
    using nf by (simp add: ring_count_added [OF wf])
  fix i
  assume "i < length (ring_entries (added b e))"
  then have lt: "i < ring_count (added b e)" by simp
  then have i: "i < Suc (ring_count b)" using nf by (simp add: ring_count_added [OF wf])
  have idx: "ring_idx (added b e) i = ring_idx b i"
    using nf by (simp add: ring_idx_def added_def)
  have len: "unat (in_offs b) < length (entry b)" using wf by (simp add: cb_wf_def)
  have "i < MAXW" using i c by simp
  then have "ring_idx b i = unat (in_offs b) \<longleftrightarrow> i = ring_count b"
    by (rule ring_idx_in_iff [OF wf nf])
  then show "ring_entries (added b e) ! i = (ring_entries b @ [e]) ! i"
    using i nf len
    unfolding nth_ring_entries [OF lt] idx
    by (cases "i = ring_count b") (auto simp: nth_ring_entries nth_append added_def)
qed

lemma ring_entries_added_full:
  assumes wf: "cb_wf b" and fl: "full b"
  shows "ring_entries (added b e) = tl (ring_entries b) @ [e]"
proof (rule nth_equalityI)
  have cnt: "ring_count b = 10" using fl by (simp add: ring_count_def)
  show "length (ring_entries (added b e)) = length (tl (ring_entries b) @ [e])"
    using fl by (simp add: ring_count_added [OF wf] cnt)
  fix i
  assume "i < length (ring_entries (added b e))"
  then have lt: "i < ring_count (added b e)" by simp
  then have i: "i < 10" using fl by (simp add: ring_count_added [OF wf])
  have o: "unat (out_offs b) < 10" "unat (in_offs b) = unat (out_offs b)" "length (entry b) = 10"
    using wf fl by (auto simp: cb_wf_def)
  have idx: "ring_idx (added b e) i = ring_idx b (Suc i)"
    using fl by (simp add: ring_idx_def added_def mod_simps)
  have "ring_idx b (Suc i) = unat (in_offs b) \<longleftrightarrow> i = 9"
    using o i by (auto simp: ring_idx_def mod_if)
  then show "ring_entries (added b e) ! i = (tl (ring_entries b) @ [e]) ! i"
    using i fl o
    unfolding nth_ring_entries [OF lt] idx
    by (cases "i = 9") (auto simp: nth_ring_entries nth_append nth_tl cnt added_def)
qed

lemma ring_entries_added:
  assumes "cb_wf b"
  shows "ring_entries (added b e) = keep_recent MAXW (ring_entries b) e"
proof (cases "full b")
  case True
  then have "ring_count b = MAXW" by (simp add: ring_count_def)
  with True show ?thesis using ring_entries_added_full [OF assms] by (simp add: keep_recent_def)
next
  case False
  then have "ring_count b \<noteq> MAXW" by (simp add: ring_count_def)
  with False show ?thesis using ring_entries_added_not_full [OF assms] by (simp add: keep_recent_def)
qed

definition handback_ptr :: "aesd_buffer_entry option \<Rightarrow> ptr" where
  "handback_ptr d = (case d of None \<Rightarrow> NULL | Some e \<Rightarrow> buffptr e)"

lemma full_iff_count: "full b \<longleftrightarrow> ring_count b = MAXW"
proof (cases "full b")
  case False
  have "(unat (in_offs b) + 10 - unat (out_offs b)) mod 10 < 10" by (rule mod_less_divisor) simp
  with False show ?thesis by (simp add: ring_count_def)
qed (simp add: ring_count_def)

lemma handback_evicted:
  assumes "cb_wf b"
  shows "(if full b then buffptr (entry b ! unat (in_offs b)) else NULL)
         = handback_ptr (dropped MAXW (ring_entries b))"
proof (cases "full b")
  case True
  then have "ring_count b = 10" by (simp add: ring_count_def)
  moreover from this have "ring_entries b \<noteq> []" by (metis length_ring_entries list.size(3) zero_neq_numeral)
  ultimately have "hd (ring_entries b) = entry b ! unat (in_offs b)"
    using nth_ring_entries [of 0 b] ring_idx_0_full [OF assms True] by (simp add: hd_conv_nth)
  then show ?thesis using True by (simp add: handback_ptr_def dropped_def full_iff_count)
next
  case False
  then show ?thesis by (simp add: handback_ptr_def dropped_def full_iff_count)
qed

lemma add_entry_ring:
  assumes "cb_wf b"
  shows "aesd_circular_buffer_add_entry b e =
    Some (added b e, handback_ptr (dropped MAXW (ring_entries b)))"
  using add_entry_eq [OF assms] handback_evicted [OF assms] by simp

lemma cb_hist_added:
  assumes "cb_hist b"
  shows "cb_hist (added b e)"
proof -
  have wf: "cb_wf b" using assms by (rule cb_hist_wf)
  have "\<not> full (added b e) \<Longrightarrow> list_all (\<lambda>x. x = zero_entry)
      (drop (unat (in_offs (added b e))) (entry (added b e)))" (is "_ \<Longrightarrow> ?z")
  proof -
    assume nf: "\<not> full (added b e)"
    then have b: "\<not> full b" "out_offs b = 0" "next_offs (in_offs b) \<noteq> 0"
      "list_all (\<lambda>e. e = zero_entry) (drop (unat (in_offs b)) (entry b))"
      using assms by (auto simp: cb_hist_def added_def)
    have "(unat (in_offs b) + 1) mod 10 \<noteq> 0"
      using b(3) by (metis MAXW_eq unat_0 unat_next_offs word_unat_eq_iff)
    then have "Suc (unat (in_offs b)) mod 10 = Suc (unat (in_offs b))"
      using wf by (auto simp: cb_wf_def mod_if split: if_splits)
    then have "drop (unat (in_offs (added b e))) (entry (added b e))
        = drop 1 (drop (unat (in_offs b)) (entry b))"
      by (simp add: added_def)
    with b(4) show ?z
      using set_drop_subset_set_drop [of "unat (in_offs b)" "Suc (unat (in_offs b))" "entry b"]
      by (auto simp: list_all_iff)
  qed
  with assms cb_wf_added [OF wf] show ?thesis by (auto simp: cb_hist_def added_def)
qed

section \<open>Sizes\<close>

text \<open>
  Summing the sizes of all ten entries gives the size of the stored ones, because the entries
  that are not in use are zero.
\<close>

lemma ring_entries_full:
  assumes "cb_wf b" and "full b"
  shows "ring_entries b = rotate (unat (out_offs b)) (entry b)"
  using assms
  by (intro nth_equalityI)
     (simp_all add: cb_wf_def nth_ring_entries full_iff_count nth_rotate ring_idx_def add.commute)

lemma ring_entries_not_full:
  assumes "cb_hist b" and "\<not> full b"
  shows "ring_entries b = take (unat (in_offs b)) (entry b)"
  using assms
  by (intro nth_equalityI)
     (simp_all add: cb_hist_def cb_wf_def nth_ring_entries ring_idx_def, simp_all add: ring_count_def)

lemma entries_stored:
  assumes "cb_hist b" and "e \<in> set (entry b)"
  shows "e \<in> set (ring_entries b) \<or> e = zero_entry"
proof (cases "full b")
  case True
  then show ?thesis using ring_entries_full [OF cb_hist_wf [OF assms(1)]] assms(2) by simp
next
  case False
  have "e \<in> set (take (unat (in_offs b)) (entry b)) \<union> set (drop (unat (in_offs b)) (entry b))"
    using assms(2) by (metis append_take_drop_id set_append)
  then show ?thesis
    using ring_entries_not_full [OF assms(1) False] assms(1) False by (auto simp: cb_hist_def list_all_iff)
qed

lemma sum_list_rotate: "sum_list (rotate n xs) = (sum_list xs :: nat)"
  by (metis add.commute append_take_drop_id rotate_drop_take sum_list_append)

lemma sum_list_all_zero: "list_all (\<lambda>e. e = zero_entry) es \<Longrightarrow> sum_list (map entry_len es) = 0"
  by (induction es) (simp_all add: zero_entry_def)

lemma sum_sizes_ring:
  assumes "cb_hist b"
  shows "sum_list (map entry_len (entry b)) = sum_list (map entry_len (ring_entries b))"
proof (cases "full b")
  case True
  then show ?thesis
    using ring_entries_full [OF cb_hist_wf [OF assms]] by (simp add: rotate_map [symmetric] sum_list_rotate)
next
  case False
  let ?k = "unat (in_offs b)"
  have "sum_list (map entry_len (entry b)) =
      sum_list (map entry_len (take ?k (entry b))) + sum_list (map entry_len (drop ?k (entry b)))"
    by (metis append_take_drop_id map_append sum_list_append)
  also have "sum_list (map entry_len (drop ?k (entry b))) = 0"
    using assms False by (intro sum_list_all_zero) (simp add: cb_hist_def)
  finally show ?thesis using ring_entries_not_full [OF assms False] by simp
qed

lemma foldl_plus_word:
  "foldl (\<lambda>acc i. acc + f i) a xs = (a :: 'a :: len word) + word_of_nat (sum_list (map (\<lambda>i. unat (f i)) xs))"
  by (induction xs arbitrary: a) (simp_all add: add.assoc)

text \<open>
  Entry \<open>i\<close> counted from the read offset, for any \<open>i\<close> below ten: the stored entry, or a zero one.
\<close>

lemma entry_from_out:
  assumes "cb_hist b" and "i < MAXW"
  shows "entry b ! ring_idx b i = (if i < ring_count b then ring_entries b ! i else zero_entry)"
proof (cases "i < ring_count b")
  case True
  then show ?thesis by (simp add: nth_ring_entries)
next
  case False
  then have nf: "\<not> full b" using assms(2) by (auto simp: ring_count_def)
  then have z: "out_offs b = 0" "length (entry b) = 10" "unat (in_offs b) < 10"
    "\<forall>e \<in> set (drop (unat (in_offs b)) (entry b)). e = zero_entry"
    using assms(1) by (auto simp: cb_hist_def cb_wf_def list_all_iff)
  then have "ring_idx b i = i" "unat (in_offs b) \<le> i"
    using False nf assms(2) by (auto simp: ring_idx_def ring_count_def)
  moreover from this have "entry b ! i \<in> set (drop (unat (in_offs b)) (entry b))"
    using z assms(2) by (auto simp: in_set_conv_nth intro!: exI [of _ "i - unat (in_offs b)"])
  ultimately show ?thesis using z(4) False by simp
qed

interpretation wf_ring: recent_log aesd_circular_buffer_add_entry ring_entries cb_wf MAXW handback_ptr
  by unfold_locales
     (auto simp: add_entry_ring cb_wf_added ring_entries_added ring_count_le [simplified])

interpretation hist_ring: recent_log aesd_circular_buffer_add_entry ring_entries cb_hist MAXW handback_ptr
  by unfold_locales
     (auto simp: add_entry_ring [OF cb_hist_wf] cb_hist_added ring_entries_added [OF cb_hist_wf]
        ring_count_le [simplified])

end
