(* ===== verification/KernelHeap.thy ===== *)
theory KernelHeap
  imports CircularBuffer
begin

text \<open>
  The memory the driver works on and the kernel services it calls for it: \<open>kmalloc\<close>,
  \<open>krealloc\<close>, \<open>kfree\<close>, \<open>memset\<close>, \<open>memcpy\<close>, \<open>copy_from_user\<close>, \<open>copy_to_user\<close>, \<open>down\<close>,
  \<open>up\<close>. They are the C run-time library of kernel code, and they are modelled by their
  documented behaviour. Whether a request succeeds is not decided here: each answer that depends
  on the rest of the system (an allocation that fails, a block that moves, a number of bytes that
  could not be copied) is an argument.

  An access outside an object, to a freed object, or to bytes that were never written is \<open>None\<close>.
\<close>

section \<open>Objects\<close>

text \<open>
  A byte of a raw block is \<open>None\<close> until something is stored in it. The three structures the
  driver allocates are objects of their own once they have been initialised.
\<close>

datatype kobj =
    KBytes "char option list"
  | KRing aesd_circular_buffer
  | KEntry aesd_buffer_entry
  | KSem nat

record kheap =
  objs :: "nat \<Rightarrow> kobj option"
  next_obj :: nat
  kmalloc_max :: nat

text \<open>
  How \<open>krealloc\<close> may serve a request: not at all, in a new block, or in the old block.
\<close>

datatype realloc_answer = Realloc_fails | Realloc_moves | Realloc_in_place

definition resize :: "nat \<Rightarrow> 'a option list \<Rightarrow> 'a option list" where
  "resize n bs = take n bs @ replicate (n - length bs) None"

definition obj_update :: "nat \<Rightarrow> kobj option \<Rightarrow> 'z kheap_scheme \<Rightarrow> 'z kheap_scheme" where
  "obj_update a v s = s\<lparr>objs := (objs s)(a := v)\<rparr>"

section \<open>Allocation\<close>

text \<open>
  A request of no bytes gives \<open>ZERO_SIZE_PTR\<close>; a request above the allocator's limit fails.
\<close>

definition kmalloc :: "bool \<Rightarrow> nat \<Rightarrow> 'z kheap_scheme \<Rightarrow> ptr \<times> 'z kheap_scheme" where
  "kmalloc ok n s =
     (if n = 0 then (ZERO_SIZE_PTR, s)
      else if ok \<and> n \<le> kmalloc_max s
      then (Obj (next_obj s),
            (obj_update (next_obj s) (Some (KBytes (replicate n None))) s)
              \<lparr>next_obj := Suc (next_obj s)\<rparr>)
      else (NULL, s))"

fun kfree :: "ptr \<Rightarrow> 'z kheap_scheme \<Rightarrow> 'z kheap_scheme option" where
  "kfree (Obj a) s = (if objs s a = None then None else Some (obj_update a None s))"
| "kfree _ s = Some s"

fun krealloc :: "realloc_answer \<Rightarrow> ptr \<Rightarrow> nat \<Rightarrow> 'z kheap_scheme \<Rightarrow> (ptr \<times> 'z kheap_scheme) option"
where
  "krealloc ans (Obj a) n s =
     (case objs s a of
        Some (KBytes bs) \<Rightarrow>
          (if n = 0 then Some (ZERO_SIZE_PTR, obj_update a None s)
           else if kmalloc_max s < n then Some (NULL, s)
           else (case ans of
                   Realloc_fails \<Rightarrow> Some (NULL, s)
                 | Realloc_in_place \<Rightarrow>
                     Some (Obj a, obj_update a (Some (KBytes (resize n bs))) s)
                 | Realloc_moves \<Rightarrow>
                     Some (Obj (next_obj s),
                       (obj_update (next_obj s) (Some (KBytes (resize n bs))) (obj_update a None s))
                         \<lparr>next_obj := Suc (next_obj s)\<rparr>)))
      | _ \<Rightarrow> None)"
| "krealloc ans _ n s = Some (kmalloc (ans \<noteq> Realloc_fails) n s)"

section \<open>Access\<close>

fun load_bytes :: "ptr \<Rightarrow> nat \<Rightarrow> nat \<Rightarrow> 'z kheap_scheme \<Rightarrow> char option list option" where
  "load_bytes (Obj a) off n s =
     (case objs s a of
        Some (KBytes bs) \<Rightarrow> if off + n \<le> length bs then Some (take n (drop off bs)) else None
      | _ \<Rightarrow> None)"
| "load_bytes _ off n s = (if n = 0 then Some [] else None)"

text \<open>Bytes that are looked at must have been written.\<close>

definition load_init :: "ptr \<Rightarrow> nat \<Rightarrow> nat \<Rightarrow> 'z kheap_scheme \<Rightarrow> char list option" where
  "load_init p off n s = do { bs \<leftarrow> load_bytes p off n s; those bs }"

fun store_bytes :: "ptr \<Rightarrow> nat \<Rightarrow> char option list \<Rightarrow> 'z kheap_scheme \<Rightarrow> 'z kheap_scheme option" where
  "store_bytes (Obj a) off d s =
     (case objs s a of
        Some (KBytes bs) \<Rightarrow>
          if off + length d \<le> length bs
          then Some (obj_update a (Some (KBytes (take off bs @ d @ drop (off + length d) bs))) s)
          else None
      | _ \<Rightarrow> None)"
| "store_bytes _ off d s = (if d = [] then Some s else None)"

definition memcpy :: "ptr \<Rightarrow> nat \<Rightarrow> ptr \<Rightarrow> nat \<Rightarrow> 'z kheap_scheme \<Rightarrow> 'z kheap_scheme option" where
  "memcpy dst off src n s = do { d \<leftarrow> load_bytes src 0 n s; store_bytes dst off d s }"

text \<open>
  \<open>memset (p, 0, n)\<close> on a fresh block that is large enough and is used as a structure from then
  on: the structure whose bytes are all zero.
\<close>

fun memset_struct :: "ptr \<Rightarrow> nat \<Rightarrow> kobj \<Rightarrow> 'z kheap_scheme \<Rightarrow> 'z kheap_scheme option" where
  "memset_struct (Obj a) n zero s =
     (case objs s a of
        Some (KBytes bs) \<Rightarrow> if n \<le> length bs then Some (obj_update a (Some zero) s) else None
      | _ \<Rightarrow> None)"
| "memset_struct _ n zero s = None"

definition memset_bytes :: "ptr \<Rightarrow> nat \<Rightarrow> 'z kheap_scheme \<Rightarrow> 'z kheap_scheme option" where
  "memset_bytes p n s = store_bytes p 0 (replicate n (Some nul)) s"

fun load_ring :: "ptr \<Rightarrow> 'z kheap_scheme \<Rightarrow> aesd_circular_buffer option" where
  "load_ring (Obj a) s = (case objs s a of Some (KRing r) \<Rightarrow> Some r | _ \<Rightarrow> None)"
| "load_ring _ s = None"

fun store_ring :: "ptr \<Rightarrow> aesd_circular_buffer \<Rightarrow> 'z kheap_scheme \<Rightarrow> 'z kheap_scheme option" where
  "store_ring (Obj a) r s =
     (case objs s a of Some (KRing _) \<Rightarrow> Some (obj_update a (Some (KRing r)) s) | _ \<Rightarrow> None)"
| "store_ring _ r s = None"

fun load_entry :: "ptr \<Rightarrow> 'z kheap_scheme \<Rightarrow> aesd_buffer_entry option" where
  "load_entry (Obj a) s = (case objs s a of Some (KEntry e) \<Rightarrow> Some e | _ \<Rightarrow> None)"
| "load_entry _ s = None"

fun store_entry :: "ptr \<Rightarrow> aesd_buffer_entry \<Rightarrow> 'z kheap_scheme \<Rightarrow> 'z kheap_scheme option" where
  "store_entry (Obj a) e s =
     (case objs s a of Some (KEntry _) \<Rightarrow> Some (obj_update a (Some (KEntry e)) s) | _ \<Rightarrow> None)"
| "store_entry _ e s = None"

section \<open>Semaphores\<close>

text \<open>
  \<open>sema_init\<close> turns a raw block into a semaphore. \<open>down\<close> on a semaphore at 0 waits for another
  thread; in a model of one call that is \<open>None\<close>.
\<close>

fun sema_init :: "ptr \<Rightarrow> nat \<Rightarrow> 'z kheap_scheme \<Rightarrow> 'z kheap_scheme option" where
  "sema_init (Obj a) n s =
     (case objs s a of Some (KBytes _) \<Rightarrow> Some (obj_update a (Some (KSem n)) s) | _ \<Rightarrow> None)"
| "sema_init _ n s = None"

fun down :: "ptr \<Rightarrow> 'z kheap_scheme \<Rightarrow> 'z kheap_scheme option" where
  "down (Obj a) s =
     (case objs s a of
        Some (KSem (Suc c)) \<Rightarrow> Some (obj_update a (Some (KSem c)) s)
      | _ \<Rightarrow> None)"
| "down _ s = None"

fun up :: "ptr \<Rightarrow> 'z kheap_scheme \<Rightarrow> 'z kheap_scheme option" where
  "up (Obj a) s =
     (case objs s a of Some (KSem c) \<Rightarrow> Some (obj_update a (Some (KSem (Suc c))) s) | _ \<Rightarrow> None)"
| "up _ s = None"

section \<open>User memory\<close>

text \<open>
  \<open>copy_from_user\<close> gives the number of bytes not copied and the \<open>n\<close> bytes it leaves in kernel
  memory, padded with zeros. \<open>copy_to_user\<close> gives the number of bytes not copied and the bytes
  it wrote at the user's address. \<open>left\<close> is how many bytes the user's mapping refuses.
\<close>

definition copy_from_user :: "nat \<Rightarrow> char list \<Rightarrow> nat \<Rightarrow> nat \<times> char list" where
  "copy_from_user left ubuf n =
     (let k = min (n - left) (length ubuf) in (n - k, take k ubuf @ replicate (n - k) nul))"

definition copy_to_user ::
  "nat \<Rightarrow> ptr \<Rightarrow> nat \<Rightarrow> nat \<Rightarrow> 'z kheap_scheme \<Rightarrow> (nat \<times> char list) option" where
  "copy_to_user left p off n s = do {
     bs \<leftarrow> load_init p off n s;
     Some (min left n, take (n - left) bs)
   }"

section \<open>Evaluation\<close>

lemma objs_obj_update [simp, heap_simps]: "objs (obj_update a v s) = (objs s)(a := v)"
  by (simp add: obj_update_def)

lemma next_obj_obj_update [simp, heap_simps]: "next_obj (obj_update a v s) = next_obj s"
  by (simp add: obj_update_def)

lemma kmalloc_max_obj_update [simp, heap_simps]: "kmalloc_max (obj_update a v s) = kmalloc_max s"
  by (simp add: obj_update_def)

lemma more_obj_update [simp, heap_simps]: "kheap.more (obj_update a v s) = kheap.more s"
  by (simp add: obj_update_def)

lemma length_resize [simp]: "length (resize n bs) = n"
  by (simp add: resize_def)

lemma resize_grow: "length bs \<le> n \<Longrightarrow> resize n bs = bs @ replicate (n - length bs) None"
  by (simp add: resize_def)

lemma length_copy_from_user: "copy_from_user left ubuf n = (l, d) \<Longrightarrow> length d = n"
  by (auto simp: copy_from_user_def Let_def)

lemma copy_from_user_complete:
  "copy_from_user left ubuf n = (0, d) \<Longrightarrow> d = take n ubuf \<and> n \<le> length ubuf"
proof -
  assume h: "copy_from_user left ubuf n = (0, d)"
  then have "n \<le> min (n - left) (length ubuf)" by (simp add: copy_from_user_def Let_def)
  then have "n - left = n" "n \<le> length ubuf" by auto
  with h show ?thesis by (simp add: copy_from_user_def)
qed

lemma load_bytes_whole:
  "objs s a = Some (KBytes bs) \<Longrightarrow> load_bytes (Obj a) 0 (length bs) s = Some bs"
  by simp

lemma load_init_slice:
  "objs s a = Some (KBytes (map Some bs)) \<Longrightarrow> off + n \<le> length bs \<Longrightarrow>
   load_init (Obj a) off n s = Some (take n (drop off bs))"
  by (simp add: load_init_def take_map drop_map)

lemma kmalloc_cases:
  obtains (zero) "n = 0" "kmalloc ok n s = (ZERO_SIZE_PTR, s)"
  | (fails) "n \<noteq> 0" "\<not> (ok \<and> n \<le> kmalloc_max s)" "kmalloc ok n s = (NULL, s)"
  | (succeeds) "n \<noteq> 0" "ok" "n \<le> kmalloc_max s" "kmalloc ok n s = (Obj (next_obj s),
        (obj_update (next_obj s) (Some (KBytes (replicate n None))) s)\<lparr>next_obj := Suc (next_obj s)\<rparr>)"
  by (cases "n = 0"; cases "ok \<and> n \<le> kmalloc_max s") (auto simp: kmalloc_def)

end
