(* ===== verification/Driver.thy ===== *)
theory Driver
  imports KernelHeap
begin

unbundle bit_operations_syntax

text \<open>
  The character driver, \<open>aesd-char-driver/main.c\<close> with \<open>aesdchar.h\<close> and \<open>aesd_ioctl.h\<close>: the
  device structure, the file operations \<open>open\<close>, \<open>release\<close>, \<open>read\<close>, \<open>write\<close>, \<open>llseek\<close> and
  \<open>unlocked_ioctl\<close>, and loading and unloading the module. Debug output is left out.

  Each operation maps the kernel state to its result and the new state; \<open>None\<close> is a call that
  does not return normally (a bad access, or waiting for a semaphore nobody releases). The
  answers of the kernel that the driver cannot foresee are arguments.
\<close>

section \<open>State\<close>

record cdev =
  cdev_owner :: bool
  cdev_ops :: bool
  cdev_live :: bool

record aesd_dev =
  tempEntry :: ptr
  circularBuffer :: ptr
  aesd_dev_lock :: ptr
  cdev_of :: cdev

record kstate = kheap +
  aesd_device :: aesd_dev
  aesd_major :: nat
  chrdev_regions :: "nat list"

text \<open>There is one device; \<open>private_data\<close> is a pointer to it, or null before \<open>open\<close>.\<close>

datatype devref = Aesd_device

datatype cdevref = Cdev_in devref

record inode =
  i_cdev :: cdevref

record "file" =
  f_pos :: loff_t
  private_data :: "devref option"

record aesd_seekto =
  write_cmd :: u32
  write_cmd_offset :: u32

fun container_of :: "cdevref \<Rightarrow> devref" where
  "container_of (Cdev_in d) = d"

definition get_device :: "file \<Rightarrow> kstate \<Rightarrow> aesd_dev option" where
  "get_device filp s = map_option (\<lambda>d. aesd_device s) (private_data filp)"

section \<open>open, release\<close>

definition aesd_open :: "inode \<Rightarrow> file \<Rightarrow> int \<times> file" where
  "aesd_open inode filp = (0, filp\<lparr>private_data := Some (container_of (i_cdev inode))\<rparr>)"

definition aesd_release :: "inode \<Rightarrow> file \<Rightarrow> int" where
  "aesd_release inode filp = 0"

section \<open>read\<close>

text \<open>
  The result, the bytes written at \<open>buf\<close>, the new \<open>*f_pos\<close> and the state. \<open>left\<close> is the number of
  bytes \<open>copy_to_user\<close> cannot copy. Note that \<open>count\<close> is not used, as in the code.
\<close>

definition aesd_read ::
  "nat \<Rightarrow> file \<Rightarrow> size_t \<Rightarrow> loff_t \<Rightarrow> kstate \<Rightarrow> (ssize_t \<times> char list \<times> loff_t \<times> kstate) option"
where
  "aesd_read left filp count pos s = do {
     device \<leftarrow> get_device filp s;
     s1 \<leftarrow> down (aesd_dev_lock device) s;
     cb \<leftarrow> load_ring (circularBuffer device) s1;
     let (selectedEntry, returnedByteOffset) =
       aesd_circular_buffer_find_entry_offset_for_fpos cb pos (- 1);
     (retval, ubuf, pos') \<leftarrow>
       (if returnedByteOffset = - 1 then Some (0, [], pos)
        else do {
          i \<leftarrow> selectedEntry;
          let e = entry cb ! i;
          let bytesLeftInEntry = entry_size e - returnedByteOffset;
          (failed, ubuf) \<leftarrow>
            copy_to_user left (buffptr e) (unat returnedByteOffset) (unat bytesLeftInEntry) s1;
          if failed \<noteq> 0 then Some (- EFAULT, ubuf, pos)
          else Some (bytesLeftInEntry, ubuf, pos + bytesLeftInEntry)
        });
     s2 \<leftarrow> up (aesd_dev_lock device) s1;
     Some (retval, ubuf, pos', s2)
   }"

section \<open>write\<close>

text \<open>The answers of the kernel to one \<open>write\<close>.\<close>

record write_env =
  kmalloc_ok :: bool
  user_left :: nat
  krealloc_ans :: realloc_answer
  kmalloc0_ok :: bool

text \<open>
  The scan for the terminator. The index is an \<open>int\<close>, so the increment past \<open>INT_MAX\<close> is
  undefined.
\<close>

fun scan_terminator :: "char list \<Rightarrow> nat \<Rightarrow> nat option" where
  "scan_terminator [] i = Some i"
| "scan_terminator (c # cs) i =
     (if c = newline then Some i
      else if i \<ge> INT_MAX then None
      else scan_terminator cs (Suc i))"

text \<open>Growing the partial command and appending the new bytes; null if memory ran out.\<close>

definition append_temp ::
  "realloc_answer \<Rightarrow> aesd_dev \<Rightarrow> ptr \<Rightarrow> size_t \<Rightarrow> kstate \<Rightarrow> (bool \<times> kstate) option" where
  "append_temp ans device temp_buffer bytesToAdd s = do {
     te \<leftarrow> load_entry (tempEntry device) s;
     (newTempBuffer, s1) \<leftarrow> krealloc ans (buffptr te) (unat (entry_size te + bytesToAdd)) s;
     if newTempBuffer = NULL then Some (False, s1)
     else do {
       s2 \<leftarrow> store_entry (tempEntry device) (te\<lparr>buffptr := newTempBuffer\<rparr>) s1;
       s3 \<leftarrow> memcpy newTempBuffer (unat (entry_size te)) temp_buffer (unat bytesToAdd) s2;
       s4 \<leftarrow> store_entry (tempEntry device)
               (te\<lparr>buffptr := newTempBuffer, entry_size := entry_size te + bytesToAdd\<rparr>) s3;
       Some (True, s4)
     }
   }"

text \<open>
  Handing the complete command to the circular buffer, releasing the command it replaces, and
  starting a new partial command.
\<close>

definition commit_temp :: "bool \<Rightarrow> aesd_dev \<Rightarrow> kstate \<Rightarrow> (bool \<times> kstate) option" where
  "commit_temp ok0 device s = do {
     te \<leftarrow> load_entry (tempEntry device) s;
     cb \<leftarrow> load_ring (circularBuffer device) s;
     (cb', overwrittenEntry) \<leftarrow> aesd_circular_buffer_add_entry cb te;
     s1 \<leftarrow> store_ring (circularBuffer device) cb' s;
     s2 \<leftarrow> (if overwrittenEntry \<noteq> NULL then kfree overwrittenEntry s1 else Some s1);
     s3 \<leftarrow> store_entry (tempEntry device) (te\<lparr>entry_size := 0\<rparr>) s2;
     let (p, s4) = kmalloc ok0 0 s3;
     s5 \<leftarrow> store_entry (tempEntry device) (te\<lparr>entry_size := 0, buffptr := p\<rparr>) s4;
     Some (p \<noteq> NULL, s5)
   }"

text \<open>The part of \<open>write\<close> that holds the semaphore, up to the label \<open>endfunc\<close>.\<close>

definition write_locked ::
  "write_env \<Rightarrow> aesd_dev \<Rightarrow> ptr \<Rightarrow> size_t \<Rightarrow> bool \<Rightarrow> kstate \<Rightarrow> (ssize_t \<times> kstate) option" where
  "write_locked env device temp_buffer bytesToAdd foundTerminator s = do {
     s1 \<leftarrow> down (aesd_dev_lock device) s;
     (appended, s2) \<leftarrow> append_temp (krealloc_ans env) device temp_buffer bytesToAdd s1;
     (finished, s3) \<leftarrow>
       (if \<not> appended then Some (False, s2)
        else if foundTerminator then commit_temp (kmalloc0_ok env) device s2
        else Some (True, s2));
     s4 \<leftarrow> up (aesd_dev_lock device) s3;
     Some (if finished then bytesToAdd else - ENOMEM, s4)
   }"

text \<open>
  \<open>ubuf\<close> holds the readable bytes at the user's address. \<open>temp_buffer\<close> is not released on any
  path, as in the code.
\<close>

definition aesd_write ::
  "write_env \<Rightarrow> file \<Rightarrow> char list \<Rightarrow> size_t \<Rightarrow> loff_t \<Rightarrow> kstate \<Rightarrow> (ssize_t \<times> loff_t \<times> kstate) option"
where
  "aesd_write env filp ubuf count pos s = do {
     device \<leftarrow> get_device filp s;
     let (temp_buffer, s1) = kmalloc (kmalloc_ok env) (unat count) s;
     if temp_buffer = NULL then Some (- ENOMEM, pos, s1)
     else do {
       let (failed, copied) = copy_from_user (user_left env) ubuf (unat count);
       s2 \<leftarrow> store_bytes temp_buffer 0 (map Some copied) s1;
       if failed \<noteq> 0 then Some (- EFAULT, pos, s2)
       else do {
         temp \<leftarrow> load_init temp_buffer 0 (unat count) s2;
         cti \<leftarrow> scan_terminator temp 0;
         let foundTerminator = (cti \<noteq> unat count);
         let bytesToAdd = (if foundTerminator then word_of_nat (cti + 1) else count);
         (retval, s3) \<leftarrow> write_locked env device temp_buffer bytesToAdd foundTerminator s2;
         Some (retval, pos, s3)
       }
     }
   }"

section \<open>llseek\<close>

text \<open>
  \<open>fixed_size_llseek\<close> belongs to the kernel: it is a parameter, applied to the file position, the
  offset, the origin and the size, and giving its result and the new file position.
\<close>

type_synonym llseek_fn = "loff_t \<Rightarrow> loff_t \<Rightarrow> u32 \<Rightarrow> loff_t \<Rightarrow> loff_t \<times> loff_t"

definition SEEK_SET :: u32 where "SEEK_SET = 0"
definition SEEK_CUR :: u32 where "SEEK_CUR = 1"
definition SEEK_END :: u32 where "SEEK_END = 2"

definition buffer_length :: "aesd_circular_buffer \<Rightarrow> loff_t" where
  "buffer_length cb = foldl (\<lambda>acc i. acc + entry_size (entry cb ! i)) 0 [0..<MAXW]"

definition aesd_llseek ::
  "llseek_fn \<Rightarrow> file \<Rightarrow> loff_t \<Rightarrow> u32 \<Rightarrow> kstate \<Rightarrow> (loff_t \<times> file \<times> kstate) option" where
  "aesd_llseek fixed_size_llseek filp offset whence s = do {
     device \<leftarrow> get_device filp s;
     s1 \<leftarrow> down (aesd_dev_lock device) s;
     cb \<leftarrow> load_ring (circularBuffer device) s1;
     let bufferLength = buffer_length cb;
     s2 \<leftarrow> up (aesd_dev_lock device) s1;
     let (returnedOffset, pos') = fixed_size_llseek (f_pos filp) offset whence bufferLength;
     Some (returnedOffset, filp\<lparr>f_pos := pos'\<rparr>, s2)
   }"

section \<open>ioctl\<close>

text \<open>The encoding of ioctl numbers (\<open>asm-generic/ioctl.h\<close>) and \<open>aesd_ioctl.h\<close>.\<close>

definition IOWR :: "u32 \<Rightarrow> u32 \<Rightarrow> u32 \<Rightarrow> u32" where
  "IOWR ty nr sz = push_bit 30 3 OR push_bit 8 ty OR nr OR push_bit 16 sz"

definition AESD_IOC_MAGIC :: u32 where "AESD_IOC_MAGIC = 0x16"

definition sizeof_aesd_seekto :: nat where "sizeof_aesd_seekto = 8"

definition AESDCHAR_IOCSEEKTO :: u32 where
  "AESDCHAR_IOCSEEKTO = IOWR AESD_IOC_MAGIC 1 (word_of_nat sizeof_aesd_seekto)"

text \<open>
  The loop that turns a command number and an offset into a position; \<open>stop\<close> is the index after
  \<open>endIndex\<close>. The index is reduced after each increment, so \<open>stop\<close> is always reached.
\<close>

definition succ_idx :: "nat \<Rightarrow> nat" where
  "succ_idx i = (i + 1) mod MAXW"

lemma succ_idx_distance:
  assumes "i \<noteq> succ_idx e"
  shows "(if succ_idx i < 10 then (succ_idx e + 10 - succ_idx i) mod 10 else 10)
    < (if i < 10 then (succ_idx e + 10 - i) mod 10 else 10)"
proof -
  have t: "succ_idx e < 10" and n: "succ_idx i < 10" by (simp_all add: succ_idx_def)
  show ?thesis
  proof (cases "i < 10")
    case True
    have s: "succ_idx i = (if i = 9 then 0 else i + 1)" using True by (auto simp: succ_idx_def)
    show ?thesis using assms t True by (simp add: s mod_if) linarith
  next
    case False
    then show ?thesis using n by simp
  qed
qed

function seek_loop :: "aesd_circular_buffer \<Rightarrow> nat \<Rightarrow> u32 \<Rightarrow> nat \<Rightarrow> loff_t \<Rightarrow> loff_t" where
  "seek_loop cb endIndex offset i byteCount =
     (if i \<noteq> succ_idx endIndex then
        seek_loop cb endIndex offset (succ_idx i)
          (if i = endIndex then byteCount + ucast offset
           else byteCount + entry_size (entry cb ! i))
      else byteCount)"
  by pat_completeness auto
termination
proof (relation "measure (\<lambda>(cb, e, off, i, c). if i < 10 then (succ_idx e + 10 - i) mod 10 else 10)",
    goal_cases)
  case (2 cb e off i c)
  then show ?case unfolding in_measure prod.case by (rule succ_idx_distance)
qed simp

declare seek_loop.simps [simp del]

text \<open>
  The command is handled in two parts: the indices are computed from the read offset before the
  semaphore is taken, and the bytes are counted while it is held. Then the position is set, which
  takes the semaphore again.
\<close>

definition ioctl_indices :: "aesd_dev \<Rightarrow> u32 \<Rightarrow> kstate \<Rightarrow> (nat \<times> nat) option" where
  "ioctl_indices device cmd_no s = do {
     cb \<leftarrow> load_ring (circularBuffer device) s;
     Some (unat (out_offs cb), unat (ucast (out_offs cb) + cmd_no) mod MAXW)
   }"

definition ioctl_count :: "aesd_dev \<Rightarrow> u32 \<Rightarrow> nat \<times> nat \<Rightarrow> kstate \<Rightarrow> (loff_t \<times> kstate) option" where
  "ioctl_count device offset idx s = do {
     let (startIndex, endIndex) = idx;
     s1 \<leftarrow> down (aesd_dev_lock device) s;
     cb \<leftarrow> load_ring (circularBuffer device) s1;
     let byteCount = seek_loop cb endIndex offset startIndex 0;
     s2 \<leftarrow> up (aesd_dev_lock device) s1;
     Some (byteCount, s2)
   }"

text \<open>
  \<open>arg\<close> is what \<open>copy_from_user\<close> finds at the user's address: the number of bytes it could not
  copy and the structure.
\<close>

definition aesd_ioctl ::
  "llseek_fn \<Rightarrow> file \<Rightarrow> u32 \<Rightarrow> nat \<times> aesd_seekto \<Rightarrow> kstate \<Rightarrow> (loff_t \<times> file \<times> kstate) option" where
  "aesd_ioctl fixed_size_llseek filp cmd arg s =
     (if cmd = AESDCHAR_IOCSEEKTO then do {
        let (failed, seekto) = arg;
        if failed \<noteq> 0 then Some (- EFAULT, filp, s)
        else if unat (write_cmd seekto) \<ge> MAXW then Some (- EINVAL, filp, s)
        else do {
          device \<leftarrow> get_device filp s;
          idx \<leftarrow> ioctl_indices device (write_cmd seekto) s;
          (byteCount, s1) \<leftarrow> ioctl_count device (write_cmd_offset seekto) idx s;
          aesd_llseek fixed_size_llseek filp byteCount SEEK_SET s1
        }
      }
      else Some (- EINVAL, filp, s))"

text \<open>
  The same handler cut where other threads may run: before the semaphore is taken for the counting,
  and between that and the seek. A call either ends or waits at one of two points.
\<close>

datatype ioctl_point = Indexed "nat \<times> nat" u32 | Counted loff_t

definition ioctl_begin :: "file \<Rightarrow> u32 \<Rightarrow> nat \<times> aesd_seekto \<Rightarrow> kstate \<Rightarrow> (loff_t + ioctl_point) option" where
  "ioctl_begin filp cmd arg s =
     (if cmd = AESDCHAR_IOCSEEKTO then do {
        let (failed, seekto) = arg;
        if failed \<noteq> 0 then Some (Inl (- EFAULT))
        else if unat (write_cmd seekto) \<ge> MAXW then Some (Inl (- EINVAL))
        else do {
          device \<leftarrow> get_device filp s;
          idx \<leftarrow> ioctl_indices device (write_cmd seekto) s;
          Some (Inr (Indexed idx (write_cmd_offset seekto)))
        }
      }
      else Some (Inl (- EINVAL)))"

fun ioctl_resume ::
  "llseek_fn \<Rightarrow> file \<Rightarrow> ioctl_point \<Rightarrow> kstate \<Rightarrow> ((loff_t + ioctl_point) \<times> file \<times> kstate) option" where
  "ioctl_resume fixed_size_llseek filp (Indexed idx offset) s = do {
     device \<leftarrow> get_device filp s;
     (byteCount, s1) \<leftarrow> ioctl_count device offset idx s;
     Some (Inr (Counted byteCount), filp, s1)
   }"
| "ioctl_resume fixed_size_llseek filp (Counted byteCount) s = do {
     (retval, filp', s1) \<leftarrow> aesd_llseek fixed_size_llseek filp byteCount SEEK_SET s;
     Some (Inl retval, filp', s1)
   }"

text \<open>Uninterrupted, the parts are the whole handler.\<close>

fun ioctl_finish ::
  "llseek_fn \<Rightarrow> nat \<Rightarrow> (loff_t + ioctl_point) \<times> file \<times> kstate \<Rightarrow> (loff_t \<times> file \<times> kstate) option" where
  "ioctl_finish fsl n (Inl ret, filp, s) = Some (ret, filp, s)"
| "ioctl_finish fsl 0 (Inr pt, filp, s) = None"
| "ioctl_finish fsl (Suc n) (Inr pt, filp, s) = Option.bind (ioctl_resume fsl filp pt s) (ioctl_finish fsl n)"

lemma aesd_ioctl_parts:
  "aesd_ioctl fsl filp cmd arg s =
     Option.bind (ioctl_begin filp cmd arg s) (\<lambda>r. ioctl_finish fsl 2 (r, filp, s))"
  by (cases arg)
     (auto simp: aesd_ioctl_def ioctl_begin_def numeral_2_eq_2 Let_def split: Option.bind_split)

end
