(* ===== verification/DriverMemory.thy ===== *)
theory DriverMemory
  imports Driver
begin

text \<open>
  How the driver's memory represents its data: \<open>driver_core\<close> says which object holds what, and
  that every object of the heap is either part of the device or one of the leaked blocks \<open>L\<close>.
  The lemmas say how each access of the driver changes the representation.
\<close>

section \<open>Representation\<close>

text \<open>The entry points to a block of exactly the bytes \<open>bs\<close>.\<close>

definition holds :: "(nat \<Rightarrow> kobj option) \<Rightarrow> aesd_buffer_entry \<Rightarrow> char list \<Rightarrow> bool" where
  "holds H e bs \<longleftrightarrow> entry_len e = length bs \<and> bs \<noteq> []
     \<and> (\<exists>a. buffptr e = Obj a \<and> H a = Some (KBytes (map Some bs)))"

definition holds_temp :: "(nat \<Rightarrow> kobj option) \<Rightarrow> aesd_buffer_entry \<Rightarrow> char list \<Rightarrow> bool" where
  "holds_temp H e bs \<longleftrightarrow>
     (if bs = [] then entry_size e = 0 \<and> buffptr e = ZERO_SIZE_PTR else holds H e bs)"

definition entry_addrs :: "aesd_buffer_entry list \<Rightarrow> nat list" where
  "entry_addrs es = concat (map (\<lambda>e. addrs (buffptr e)) es)"

definition owned :: "aesd_circular_buffer \<Rightarrow> aesd_buffer_entry \<Rightarrow> nat list" where
  "owned cb t = entry_addrs (ring_entries cb) @ addrs (buffptr t)"

definition driver_core ::
  "kstate \<Rightarrow> nat \<Rightarrow> nat \<Rightarrow> nat \<Rightarrow> aesd_circular_buffer \<Rightarrow> aesd_buffer_entry \<Rightarrow> nat
   \<Rightarrow> char list list \<Rightarrow> char list \<Rightarrow> nat set \<Rightarrow> bool"
where
  "driver_core s rc te lk cb t c cmds pend L \<longleftrightarrow>
     circularBuffer (aesd_device s) = Obj rc \<and> tempEntry (aesd_device s) = Obj te
     \<and> aesd_dev_lock (aesd_device s) = Obj lk
     \<and> objs s rc = Some (KRing cb) \<and> objs s te = Some (KEntry t) \<and> objs s lk = Some (KSem c)
     \<and> cb_hist cb
     \<and> list_all2 (holds (objs s)) (ring_entries cb) cmds \<and> holds_temp (objs s) t pend
     \<and> distinct (owned cb t) \<and> L \<inter> ({rc, te, lk} \<union> set (owned cb t)) = {}
     \<and> dom (objs s) = {rc, te, lk} \<union> set (owned cb t) \<union> L
     \<and> (\<forall>a \<in> dom (objs s). a < next_obj s)
     \<and> kmalloc_max s < 2 ^ 31
     \<and> (\<forall>x \<in> set cmds. length x \<le> kmalloc_max s) \<and> length pend \<le> kmalloc_max s"

definition log_ok :: "char list list \<Rightarrow> char list \<Rightarrow> bool" where
  "log_ok cmds pend \<longleftrightarrow> list_all is_command cmds \<and> newline \<notin> set pend"

definition driver_rel ::
  "nat \<Rightarrow> kstate \<Rightarrow> char list list \<Rightarrow> char list \<Rightarrow> nat set \<Rightarrow> bool" where
  "driver_rel c s cmds pend L \<longleftrightarrow>
     (\<exists>rc te lk cb t. driver_core s rc te lk cb t c cmds pend L) \<and> log_ok cmds pend"

lemma driver_relE:
  assumes "driver_rel c s cmds pend L"
  obtains rc te lk cb t where "driver_core s rc te lk cb t c cmds pend L" "log_ok cmds pend"
  using assms by (auto simp: driver_rel_def)

text \<open>The ring of the device, and what a call does to it: nothing, or one entry is added.\<close>

definition ring_of :: "kstate \<Rightarrow> aesd_circular_buffer option" where
  "ring_of s = load_ring (circularBuffer (aesd_device s)) s"

definition ring_step :: "bool \<Rightarrow> kstate \<Rightarrow> kstate \<Rightarrow> bool" where
  "ring_step grows s s' \<longleftrightarrow> (if grows then \<exists>t. ring_of s' = map_option (\<lambda>cb. added cb t) (ring_of s)
     else ring_of s' = ring_of s)"

lemma core_ring: "driver_core s rc te lk cb t c cmds pend L \<Longrightarrow> ring_of s = Some cb"
  by (simp add: driver_core_def ring_of_def)

section \<open>Frame\<close>

lemma entry_addrs_Nil [simp]: "entry_addrs [] = []"
  and entry_addrs_Cons [simp]: "entry_addrs (e # es) = addrs (buffptr e) @ entry_addrs es"
  and entry_addrs_append [simp]: "entry_addrs (es @ fs) = entry_addrs es @ entry_addrs fs"
  by (simp_all add: entry_addrs_def)

lemma holds_cong:
  "(\<And>a. buffptr e = Obj a \<Longrightarrow> H' a = H a) \<Longrightarrow> holds H' e bs = holds H e bs"
  by (auto simp: holds_def)

lemma holds_temp_cong:
  "(\<And>a. buffptr e = Obj a \<Longrightarrow> H' a = H a) \<Longrightarrow> holds_temp H' e bs = holds_temp H e bs"
  by (simp add: holds_temp_def holds_cong [of e H' H])

lemma list_all2_holds_cong:
  "(\<And>a. a \<in> set (entry_addrs es) \<Longrightarrow> H' a = H a) \<Longrightarrow>
   list_all2 (holds H') es xs = list_all2 (holds H) es xs"
proof (induction es arbitrary: xs)
  case Nil
  then show ?case by simp
next
  case (Cons e es)
  have "holds H' e x = holds H e x" for x
    by (rule holds_cong) (simp add: Cons.prems)
  moreover have "list_all2 (holds H') es ys = list_all2 (holds H) es ys" for ys
    by (rule Cons.IH) (simp add: Cons.prems)
  ultimately show ?case by (cases xs) simp_all
qed

lemma holds_is_bytes: "holds H e bs \<Longrightarrow> buffptr e = Obj a \<Longrightarrow> \<exists>d. H a = Some (KBytes d)"
  by (auto simp: holds_def)

lemma list_all2_holds_is_bytes:
  "list_all2 (holds H) es xs \<Longrightarrow> a \<in> set (entry_addrs es) \<Longrightarrow> \<exists>d. H a = Some (KBytes d)"
  by (induction es xs rule: list_all2_induct) (auto dest: holds_is_bytes)

lemma holds_temp_is_bytes: "holds_temp H e bs \<Longrightarrow> buffptr e = Obj a \<Longrightarrow> \<exists>d. H a = Some (KBytes d)"
  by (auto simp: holds_temp_def split: if_splits dest: holds_is_bytes)

lemma core_owned_is_bytes:
  "driver_core s rc te lk cb t c cmds pend L \<Longrightarrow> a \<in> set (owned cb t) \<Longrightarrow>
   \<exists>d. objs s a = Some (KBytes d)"
  unfolding driver_core_def owned_def
  by (auto dest: list_all2_holds_is_bytes holds_temp_is_bytes)

lemma core_distinct_places:
  assumes "driver_core s rc te lk cb t c cmds pend L"
  shows "rc \<noteq> te" "rc \<noteq> lk" "te \<noteq> lk" "rc \<notin> set (owned cb t)" "te \<notin> set (owned cb t)"
    "lk \<notin> set (owned cb t)" "rc \<notin> L" "te \<notin> L" "lk \<notin> L"
proof -
  have o: "a \<notin> set (owned cb t)" if "objs s a \<in> {Some (KRing cb), Some (KEntry t), Some (KSem c)}" for a
    using core_owned_is_bytes [OF assms, of a] that by auto
  show "rc \<notin> set (owned cb t)" "te \<notin> set (owned cb t)" "lk \<notin> set (owned cb t)"
    using assms by (auto simp: driver_core_def intro!: o)
qed (use assms in \<open>auto simp: driver_core_def\<close>)

lemma core_fresh:
  "driver_core s rc te lk cb t c cmds pend L \<Longrightarrow> objs s (next_obj s) = None"
  unfolding driver_core_def by (metis domIff less_irrefl)

text \<open>
  The general step: some objects are changed, the device's own blocks outside the partial command
  are not.
\<close>

lemma core_update:
  assumes core: "driver_core s rc te lk cb t c cmds pend L"
    and ring: "\<And>a. a \<in> set (entry_addrs (ring_entries cb)) \<Longrightarrow> objs s' a = objs s a"
    and places: "objs s' rc = Some (KRing cb)" "objs s' te = Some (KEntry t')"
      "objs s' lk = Some (KSem c')"
    and temp: "holds_temp (objs s') t' pend'"
    and dist: "distinct (addrs (buffptr t'))"
      "set (addrs (buffptr t')) \<inter> set (entry_addrs (ring_entries cb)) = {}"
    and leak: "L' \<inter> ({rc, te, lk} \<union> set (owned cb t')) = {}"
    and doms: "dom (objs s') = {rc, te, lk} \<union> set (owned cb t') \<union> L'"
    and nxt: "\<And>a. a \<in> dom (objs s') \<Longrightarrow> a < next_obj s'"
    and same: "aesd_device s' = aesd_device s" "kmalloc_max s' = kmalloc_max s"
    and len: "length pend' \<le> kmalloc_max s"
  shows "driver_core s' rc te lk cb t' c' cmds pend' L'"
proof -
  have "list_all2 (holds (objs s')) (ring_entries cb) cmds"
    using core list_all2_holds_cong [of "ring_entries cb" "objs s'" "objs s", OF ring]
    by (simp add: driver_core_def)
  moreover have "distinct (owned cb t')"
    using core dist by (auto simp: driver_core_def owned_def)
  ultimately show ?thesis
    using core places temp leak doms nxt same len by (simp add: driver_core_def)
qed

text \<open>A step that leaves the commands and the partial command alone.\<close>

lemma core_frame:
  assumes core: "driver_core s rc te lk cb t c cmds pend L"
    and own: "\<And>a. a \<in> set (owned cb t) \<Longrightarrow> objs s' a = objs s a"
    and places: "objs s' rc = Some (KRing cb)" "objs s' te = Some (KEntry t)"
      "objs s' lk = Some (KSem c')"
    and leak: "L' \<inter> ({rc, te, lk} \<union> set (owned cb t)) = {}"
    and doms: "dom (objs s') = {rc, te, lk} \<union> set (owned cb t) \<union> L'"
    and nxt: "\<And>a. a \<in> dom (objs s') \<Longrightarrow> a < next_obj s'"
    and same: "aesd_device s' = aesd_device s" "kmalloc_max s' = kmalloc_max s"
  shows "driver_core s' rc te lk cb t c' cmds pend L'"
proof (rule core_update [OF core])
  have "holds_temp (objs s') t pend = holds_temp (objs s) t pend"
    by (rule holds_temp_cong) (simp add: own owned_def)
  then show "holds_temp (objs s') t pend" using core by (simp add: driver_core_def)
  show "objs s' a = objs s a" if "a \<in> set (entry_addrs (ring_entries cb))" for a
    using own that by (simp add: owned_def)
  show "distinct (addrs (buffptr t))"
    "set (addrs (buffptr t)) \<inter> set (entry_addrs (ring_entries cb)) = {}"
    using core by (auto simp: driver_core_def owned_def)
  show "length pend \<le> kmalloc_max s" using core by (simp add: driver_core_def)
qed (fact places leak doms nxt same)+

lemma core_next: "driver_core s rc te lk cb t c cmds pend L \<Longrightarrow> a \<in> dom (objs s) \<Longrightarrow> a < next_obj s"
  by (simp add: driver_core_def)

lemma core_nexts: "driver_core s rc te lk cb t c cmds pend L \<Longrightarrow> \<forall>a \<in> dom (objs s). a < next_obj s"
  by (simp add: driver_core_def)

lemma core_places:
  assumes "driver_core s rc te lk cb t c cmds pend L"
  shows "circularBuffer (aesd_device s) = Obj rc" "tempEntry (aesd_device s) = Obj te"
    "aesd_dev_lock (aesd_device s) = Obj lk"
    "objs s rc = Some (KRing cb)" "objs s te = Some (KEntry t)" "objs s lk = Some (KSem c)"
    "cb_hist cb" "kmalloc_max s < 2 ^ 31"
  using assms by (simp_all add: driver_core_def)

lemma core_dom:
  assumes "driver_core s rc te lk cb t c cmds pend L"
  shows "dom (objs s) = {rc, te, lk} \<union> set (owned cb t) \<union> L"
    "L \<inter> ({rc, te, lk} \<union> set (owned cb t)) = {}"
  using assms by (simp_all add: driver_core_def)

lemma aesd_device_obj_update [simp]: "aesd_device (obj_update a v s) = aesd_device s"
  by (simp add: obj_update_def)

lemma core_leak_update:
  assumes core: "driver_core s rc te lk cb t c cmds pend L" and a: "a \<in> L"
  shows "driver_core (obj_update a (Some v) s) rc te lk cb t c cmds pend L"
proof (rule core_frame [OF core])
  note p = core_distinct_places [OF core] and d = core_dom [OF core]
  show "dom (objs (obj_update a (Some v) s)) = {rc, te, lk} \<union> set (owned cb t) \<union> L"
    using d a by (simp add: insert_absorb)
  show "x < next_obj (obj_update a (Some v) s)" if "x \<in> dom (objs (obj_update a (Some v) s))" for x
    using that d a core_next [OF core, of x] by auto
  show "objs (obj_update a (Some v) s) x = objs s x" if "x \<in> set (owned cb t)" for x
    using that a d by auto
qed (use core_places [OF core] core_distinct_places [OF core] core_dom [OF core] a in auto)

lemma core_sem:
  assumes core: "driver_core s rc te lk cb t c cmds pend L"
  shows "driver_core (obj_update lk (Some (KSem c')) s) rc te lk cb t c' cmds pend L"
proof (rule core_frame [OF core])
  note p = core_distinct_places [OF core] and d = core_dom [OF core]
  show "dom (objs (obj_update lk (Some (KSem c')) s)) = {rc, te, lk} \<union> set (owned cb t) \<union> L"
    using d by auto
  show "x < next_obj (obj_update lk (Some (KSem c')) s)"
    if "x \<in> dom (objs (obj_update lk (Some (KSem c')) s))" for x
    using that d core_next [OF core, of x] by auto
  show "objs (obj_update lk (Some (KSem c')) s) x = objs s x" if "x \<in> set (owned cb t)" for x
    using that p by auto
qed (use core_places [OF core] core_distinct_places [OF core] core_dom [OF core] in auto)

lemma core_alloc_leak:
  assumes core: "driver_core s rc te lk cb t c cmds pend L"
    and s': "s' = (obj_update (next_obj s) (Some v) s)\<lparr>next_obj := Suc (next_obj s)\<rparr>"
  shows "driver_core s' rc te lk cb t c cmds pend (insert (next_obj s) L)"
proof (rule core_frame [OF core])
  note p = core_distinct_places [OF core] and d = core_dom [OF core] and f = core_fresh [OF core]
  have new: "next_obj s \<notin> dom (objs s)" using f by auto
  show "dom (objs s') = {rc, te, lk} \<union> set (owned cb t) \<union> insert (next_obj s) L"
    using d by (simp add: s')
  show "x < next_obj s'" if "x \<in> dom (objs s')" for x
    using that core_next [OF core, of x] by (auto simp: s' less_Suc_eq)
  show "objs s' x = objs s x" if "x \<in> set (owned cb t)" for x
    using that new d by (auto simp: s')
  show "insert (next_obj s) L \<inter> ({rc, te, lk} \<union> set (owned cb t)) = {}"
    using new d by auto
  show "objs s' rc = Some (KRing cb)" "objs s' te = Some (KEntry t)" "objs s' lk = Some (KSem c)"
    using new core_places [OF core] d by (auto simp: s')
qed (simp_all add: s' obj_update_def)

section \<open>Growing the partial command\<close>

text \<open>Whether the allocator grants the partial command a total of \<open>n\<close> bytes.\<close>

definition grow_ok :: "realloc_answer \<Rightarrow> nat \<Rightarrow> nat \<Rightarrow> bool" where
  "grow_ok ans limit n \<longleftrightarrow> n = 0 \<or> (ans \<noteq> Realloc_fails \<and> n \<le> limit)"

text \<open>
  Reallocating the block of the partial command: either nothing changes, or the bytes are in a
  larger block, which may be the old one.
\<close>

lemma krealloc_block:
  assumes "objs s a = Some (KBytes bs)" and "0 < n" and "\<forall>x \<in> dom (objs s). x < next_obj s"
  obtains (fails) "krealloc ans (Obj a) n s = Some (NULL, s)" "\<not> grow_ok ans (kmalloc_max s) n"
  | (ok) new s' where "krealloc ans (Obj a) n s = Some (Obj new, s')"
      "objs s' = (objs s)(a := None, new := Some (KBytes (resize n bs)))"
      "new = a \<or> new \<notin> dom (objs s)" "new < next_obj s'" "next_obj s \<le> next_obj s'"
      "aesd_device s' = aesd_device (s :: kstate)" "kmalloc_max s' = kmalloc_max s"
      "grow_ok ans (kmalloc_max s) n"
proof (cases "kmalloc_max s < n \<or> ans = Realloc_fails")
  case True
  then show ?thesis using assms(1,2) by (intro fails) (auto simp: grow_ok_def)
next
  case False
  have a: "a < next_obj s" using assms(1,3) by auto
  show ?thesis
  proof (cases ans)
    case Realloc_in_place
    then show ?thesis using assms(1,2) False a
      by (intro ok [of a "obj_update a (Some (KBytes (resize n bs))) s"]) (auto simp: grow_ok_def)
  next
    case Realloc_moves
    have "next_obj s \<notin> dom (objs s)" using assms(3) by blast
    with Realloc_moves show ?thesis using assms(1,2) False a
      by (intro ok [of "next_obj s" "(obj_update (next_obj s) (Some (KBytes (resize n bs)))
            (obj_update a None s))\<lparr>next_obj := Suc (next_obj s)\<rparr>"])
         (auto simp: obj_update_def grow_ok_def)
  qed (use False in simp)
qed

lemma krealloc_empty:
  assumes "\<forall>x \<in> dom (objs s). x < next_obj s"
  obtains (zero) "n = 0" "krealloc ans ZERO_SIZE_PTR n s = Some (ZERO_SIZE_PTR, s)"
  | (fails) "\<not> grow_ok ans (kmalloc_max s) n" "krealloc ans ZERO_SIZE_PTR n s = Some (NULL, s)"
  | (ok) new s' where "0 < n" "krealloc ans ZERO_SIZE_PTR n s = Some (Obj new, s')"
      "objs s' = (objs s)(new := Some (KBytes (replicate n None)))"
      "new \<notin> dom (objs s)" "new < next_obj s'" "next_obj s \<le> next_obj s'"
      "aesd_device s' = aesd_device (s :: kstate)" "kmalloc_max s' = kmalloc_max s"
      "grow_ok ans (kmalloc_max s) n"
proof (cases rule: kmalloc_cases [of n "ans \<noteq> Realloc_fails" s])
  case zero
  then show ?thesis by (intro that(1)) simp_all
next
  case fails
  then show ?thesis by (intro that(2)) (auto simp: grow_ok_def)
next
  case succeeds
  have "next_obj s \<notin> dom (objs s)" using assms by blast
  with succeeds show ?thesis
    by (intro that(3) [of "next_obj s" "(obj_update (next_obj s) (Some (KBytes (replicate n None))) s)
          \<lparr>next_obj := Suc (next_obj s)\<rparr>"]) (auto simp: obj_update_def grow_ok_def)
qed

text \<open>Both cases together, from the representation of the partial command.\<close>

lemma krealloc_temp:
  assumes core: "driver_core s rc te lk cb t c cmds pend L"
  obtains (fails) "krealloc ans (buffptr t) (length pend + n) s = Some (NULL, s)"
      "\<not> grow_ok ans (kmalloc_max s) (length pend + n)"
  | (zero) "pend = []" "n = 0" "krealloc ans (buffptr t) (length pend + n) s = Some (ZERO_SIZE_PTR, s)"
  | (ok) new s' where "0 < length pend + n"
      "krealloc ans (buffptr t) (length pend + n) s = Some (Obj new, s')"
      "objs s' new = Some (KBytes (map Some pend @ replicate n None))"
      "\<And>x. x \<noteq> new \<Longrightarrow> objs s' x = (if buffptr t = Obj x then None else objs s x)"
      "buffptr t = Obj new \<or> new \<notin> dom (objs s)" "new < next_obj s'" "next_obj s \<le> next_obj s'"
      "aesd_device s' = aesd_device s" "kmalloc_max s' = kmalloc_max s"
      "grow_ok ans (kmalloc_max s) (length pend + n)"
proof (cases "pend = []")
  case True
  then have t: "buffptr t = ZERO_SIZE_PTR" using core by (simp add: driver_core_def holds_temp_def)
  show ?thesis
  proof (rule krealloc_empty [of s n ans, OF core_nexts [OF core]], goal_cases)
    case 1
    then show ?thesis using True t by (intro that(2)) simp_all
  next
    case 2
    then show ?thesis using True t by (intro that(1)) simp_all
  next
    case (3 new s')
    then show ?thesis using True t by (intro that(3) [of new s']) auto
  qed
next
  case False
  then obtain a where a: "buffptr t = Obj a" "objs s a = Some (KBytes (map Some pend))"
    using core by (auto simp: driver_core_def holds_temp_def holds_def)
  have pos: "0 < length pend + n" using False by simp
  show ?thesis
  proof (rule krealloc_block [of s a "map Some pend" "length pend + n" ans, OF a(2) pos
        core_nexts [OF core]], goal_cases)
    case 1
    then show ?thesis using a by (intro that(1)) simp_all
  next
    case (2 new s')
    then show ?thesis using a pos
      by (intro that(3) [of new s']) (auto simp: resize_grow)
  qed
qed

text \<open>The bytes to append: a leaked block that holds them, or nothing.\<close>

definition source :: "kstate \<Rightarrow> nat set \<Rightarrow> ptr \<Rightarrow> nat \<Rightarrow> char list \<Rightarrow> bool" where
  "source s L p n d \<longleftrightarrow> length d = n \<and>
     (case p of
        Obj b \<Rightarrow> b \<in> L \<and> (\<exists>rest. objs s b = Some (KBytes (map Some d @ rest)))
      | ZERO_SIZE_PTR \<Rightarrow> n = 0
      | NULL \<Rightarrow> False)"

lemma source_load:
  assumes "source s L p n d" and "\<And>b. b \<in> L \<Longrightarrow> objs s' b = objs s b"
  shows "load_bytes p 0 n s' = Some (map Some d)"
  using assms by (cases p) (auto simp: source_def)

lemma temp_size: "driver_core s rc te lk cb t c cmds pend L \<Longrightarrow> entry_len t = length pend"
  by (auto simp: driver_core_def holds_temp_def holds_def split: if_splits)

lemma temp_size_plus:
  assumes "driver_core s rc te lk cb t c cmds pend L" and "unat k < 2 ^ 31"
  shows "unat (entry_size t + k) = length pend + unat k"
proof -
  have "entry_len t + unat k < 2 ^ 64"
    using assms temp_size [OF assms(1)] by (simp add: driver_core_def)
  then show ?thesis using temp_size [OF assms(1)] unat_add_lem [of "entry_size t" k] by simp
qed

lemma core_grow_temp:
  assumes core: "driver_core s rc te lk cb t c cmds pend L"
    and new: "buffptr t = Obj new \<or> new \<notin> dom (objs s)"
    and s1: "\<And>x. x \<noteq> new \<Longrightarrow> objs s1 x = (if buffptr t = Obj x then None else objs s x)"
    and s1n: "objs s1 new \<noteq> None"
    and nxt: "new < next_obj s1" "next_obj s \<le> next_obj s1"
    and same: "aesd_device s1 = aesd_device s" "kmalloc_max s1 = kmalloc_max s"
    and bs: "bs \<noteq> []" "length bs \<le> kmalloc_max s" "entry_len t' = length bs" "buffptr t' = Obj new"
    and s': "objs s' = (objs s1)(te \<mapsto> KEntry t', new \<mapsto> KBytes (map Some bs))"
      "next_obj s' = next_obj s1" "aesd_device s' = aesd_device s" "kmalloc_max s' = kmalloc_max s"
  shows "driver_core s' rc te lk cb t' c cmds bs L"
proof (rule core_update [OF core])
  note p = core_distinct_places [OF core] and d = core_dom [OF core] and q = core_places [OF core]
  have n: "new \<noteq> rc" "new \<noteq> te" "new \<noteq> lk" "new \<notin> set (entry_addrs (ring_entries cb))" "new \<notin> L"
    using new d p core by (auto simp: owned_def driver_core_def)
  have own: "buffptr t \<noteq> Obj a" if "a \<in> set (entry_addrs (ring_entries cb))" for a
    using that core by (auto simp: driver_core_def owned_def)
  show "objs s' a = objs s a" if "a \<in> set (entry_addrs (ring_entries cb))" for a
    using that n own [OF that] p by (auto simp: s' s1 owned_def)
  show "objs s' rc = Some (KRing cb)" "objs s' te = Some (KEntry t')" "objs s' lk = Some (KSem c)"
    using n p q by (auto simp: s' s1 owned_def)
  show "holds_temp (objs s') t' bs" using bs by (simp add: holds_temp_def holds_def s')
  show "distinct (addrs (buffptr t'))"
    "set (addrs (buffptr t')) \<inter> set (entry_addrs (ring_entries cb)) = {}"
    using bs n by simp_all
  show "L \<inter> ({rc, te, lk} \<union> set (owned cb t')) = {}" using bs n d by (auto simp: owned_def)
  have "dom (objs s1) = dom (objs s) - set (addrs (buffptr t)) \<union> {new}"
    using s1n by (intro set_eqI, case_tac "x = new") (auto simp: s1 dom_def)
  then show "dom (objs s') = {rc, te, lk} \<union> set (owned cb t') \<union> L"
    using d n p own bs by (auto simp: s' owned_def)
  then show "a < next_obj s'" if "a \<in> dom (objs s')" for a
    using that core_next [OF core, of a] nxt d bs
    by (auto simp: s' owned_def)
qed (use bs s' in simp_all)

lemma append_temp_cases:
  assumes core: "driver_core s rc te lk cb t c cmds pend L"
    and src: "source s L p (unat k) d" and k: "unat k < 2 ^ 31"
  obtains (fails) "append_temp ans (aesd_device s) p k s = Some (False, s)"
      "\<not> grow_ok ans (kmalloc_max s) (length pend + unat k)"
  | (ok) s' t' where "append_temp ans (aesd_device s) p k s = Some (True, s')"
      "driver_core s' rc te lk cb t' c cmds (pend @ d) L" "aesd_device s' = aesd_device s"
      "kmalloc_max s' = kmalloc_max s" "grow_ok ans (kmalloc_max s) (length pend + unat k)"
proof (rule krealloc_temp [OF core, of ans "unat k"], goal_cases)
  case 1
  then show ?thesis
    using core_places [OF core]
    by (intro that(1)) (simp_all add: append_temp_def temp_size_plus [OF core k])
next
  case zero: 2
  have "d = []" using zero src by (simp add: source_def)
  moreover have "t\<lparr>buffptr := ZERO_SIZE_PTR, entry_size := entry_size t + k\<rparr> = t"
    using zero core by (simp add: driver_core_def holds_temp_def unat_eq_0 [symmetric])
  moreover have "t\<lparr>buffptr := ZERO_SIZE_PTR\<rparr> = t"
    using zero core by (simp add: driver_core_def holds_temp_def)
  moreover have "obj_update te (Some (KEntry t)) s = s"
    using core_places [OF core] by (simp add: obj_update_def fun_upd_idem)
  ultimately show ?thesis
    using zero core_places [OF core] core source_load [OF src, of s]
    by (intro that(2) [of s t])
       (simp_all add: append_temp_def temp_size_plus [OF core k] memcpy_def grow_ok_def)
next
  case ok: (3 new s1)
  note q = core_places [OF core] and pl = core_distinct_places [OF core] and d = core_dom [OF core]
  let ?t1 = "t\<lparr>buffptr := Obj new\<rparr>" and ?t2 = "t\<lparr>buffptr := Obj new, entry_size := entry_size t + k\<rparr>"
  let ?s2 = "obj_update te (Some (KEntry ?t1)) s1"
  let ?s3 = "obj_update new (Some (KBytes (map Some (pend @ d)))) ?s2"
  let ?s4 = "obj_update te (Some (KEntry ?t2)) ?s3"
  have len: "length d = unat k" using src by (simp add: source_def)
  have n: "new \<noteq> te" "new \<notin> L" using ok(7) d pl core by (auto simp: owned_def driver_core_def)
  have tt: "buffptr t \<noteq> Obj te" and tL: "b \<in> L \<Longrightarrow> buffptr t \<noteq> Obj b" for b
    using pl d core by (auto simp: owned_def driver_core_def)
  have st1: "store_entry (Obj te) ?t1 s1 = Some ?s2" using ok(6) n tt q by simp
  have "load_bytes p 0 (unat k) ?s2 = Some (map Some d)"
  proof (rule source_load [OF src])
    fix b
    assume b: "b \<in> L"
    then have "b \<noteq> new" "b \<noteq> te" using n pl by auto
    then show "objs ?s2 b = objs s b" using ok(6) tL [OF b] by simp
  qed
  then have st2: "memcpy (Obj new) (entry_len t) p (unat k) ?s2 = Some ?s3"
    using ok(5) n len temp_size [OF core] by (simp add: memcpy_def)
  have st3: "store_entry (Obj te) ?t2 ?s3 = Some ?s4" using n by simp
  have run: "append_temp ans (aesd_device s) p k s = Some (True, ?s4)"
    using q ok(4) st1 st2 st3 by (simp add: append_temp_def temp_size_plus [OF core k])
  show ?thesis
  proof (rule that(2) [OF run])
    show "driver_core ?s4 rc te lk cb ?t2 c cmds (pend @ d) L"
    proof (rule core_grow_temp [OF core ok(7) ok(6)])
      show "entry_len ?t2 = length (pend @ d)" using temp_size_plus [OF core k] len by simp
      show "pend @ d \<noteq> []" using ok(3) len by auto
      show "length (pend @ d) \<le> kmalloc_max s" using ok(3) ok(12) len by (auto simp: grow_ok_def)
    qed (use ok n len in \<open>auto simp: fun_upd_twist\<close>)
    show "aesd_device ?s4 = aesd_device s" "kmalloc_max ?s4 = kmalloc_max s" using ok by simp_all
    show "grow_ok ans (kmalloc_max s) (length pend + unat k)" by (rule ok(12))
  qed
qed

section \<open>Handing over the complete command\<close>

lemma core_commit:
  assumes core: "driver_core s rc te lk cb t c cmds line L" and line: "line \<noteq> []"
    and ring: "ring_entries cb' = kept @ [t]" "cb_hist cb'"
      "entry_addrs (ring_entries cb) = gone @ entry_addrs kept"
    and cmds: "list_all2 (holds (objs s)) kept kcmds" "set kcmds \<subseteq> set cmds"
    and s': "objs s' = (\<lambda>x. if x = rc then Some (KRing cb') else if x = te then Some (KEntry t')
        else if x \<in> set gone then None else objs s x)"
      "next_obj s' = next_obj s" "aesd_device s' = aesd_device s" "kmalloc_max s' = kmalloc_max s"
    and t': "entry_size t' = 0" "buffptr t' = ZERO_SIZE_PTR"
  shows "driver_core s' rc te lk cb' t' c (kcmds @ [line]) [] L"
proof -
  note p = core_distinct_places [OF core] and d = core_dom [OF core] and q = core_places [OF core]
  have dist: "distinct (gone @ entry_addrs kept @ addrs (buffptr t))"
    using core ring by (simp add: driver_core_def owned_def)
  have own: "owned cb' t' = entry_addrs kept @ addrs (buffptr t)"
    using ring t' by (simp add: owned_def)
  have old: "set (owned cb t) = set gone \<union> set (owned cb' t')"
    using ring own by (auto simp: owned_def)
  have keep: "objs s' x = objs s x" if "x \<in> set (owned cb' t')" for x
  proof -
    have "x \<noteq> rc" "x \<noteq> te" using that p old by auto
    moreover have "x \<notin> set gone" using that dist own by auto
    ultimately show ?thesis by (simp add: s')
  qed
  have "list_all2 (holds (objs s')) kept kcmds"
    using cmds(1) list_all2_holds_cong [of kept "objs s'" "objs s"] keep own by auto
  moreover have "holds (objs s') t line"
    using core line holds_cong [of t "objs s'" "objs s" line] keep own
    by (simp add: driver_core_def holds_temp_def)
  moreover have doms: "dom (objs s') = {rc, te, lk} \<union> set (owned cb' t') \<union> L"
  proof -
    have "set gone \<inter> set (owned cb' t') = {}" "set gone \<inter> ({rc, te, lk} \<union> L) = {}"
      using dist own p d old by auto
    moreover have "dom (objs s') = insert rc (insert te (dom (objs s) - set gone))"
      by (auto simp: s' dom_def split: if_splits)
    ultimately show ?thesis using d old by auto
  qed
  moreover have "\<forall>a \<in> dom (objs s'). a < next_obj s'"
    using doms d old core_next [OF core] s' by auto
  moreover have "distinct (owned cb' t')" using dist own by simp
  moreover have "L \<inter> ({rc, te, lk} \<union> set (owned cb' t')) = {}" using d old by auto
  moreover have "objs s' rc = Some (KRing cb')" "objs s' te = Some (KEntry t')"
    "objs s' lk = Some (KSem c)"
    using p q old by (auto simp: s')
  moreover have "\<forall>x \<in> set (kcmds @ [line]). length x \<le> kmalloc_max s'"
    using core cmds(2) s' by (auto simp: driver_core_def)
  ultimately show ?thesis
    using q ring t' s' by (simp add: driver_core_def holds_temp_def list_all2_appendI)
qed

lemma commit_temp_ok:
  assumes core: "driver_core s rc te lk cb t c cmds line L" and line: "line \<noteq> []"
  shows "\<exists>s' t'. commit_temp ok0 (aesd_device s) s = Some (True, s')
    \<and> driver_core s' rc te lk (added cb t) t' c (keep_recent MAXW cmds line) [] L
    \<and> aesd_device s' = aesd_device s \<and> kmalloc_max s' = kmalloc_max s"
proof -
  note p = core_distinct_places [OF core] and q = core_places [OF core]
  let ?cb' = "added cb t" and ?t' = "t\<lparr>entry_size := 0, buffptr := ZERO_SIZE_PTR\<rparr>"
  have add: "aesd_circular_buffer_add_entry cb t =
      Some (?cb', handback_ptr (dropped MAXW (ring_entries cb)))"
    by (rule add_entry_ring [OF cb_hist_wf [OF q(7)]])
  have rel: "list_all2 (holds (objs s)) (ring_entries cb) cmds" using core by (simp add: driver_core_def)
  have len: "length cmds = length (ring_entries cb)" using list_all2_lengthD [OF rel] by simp
  have ring': "ring_entries ?cb' = keep_recent MAXW (ring_entries cb) t"
    by (rule ring_entries_added [OF cb_hist_wf [OF q(7)]])
  define s2 where "s2 = obj_update te (Some (KEntry ?t'))
    (obj_update te (Some (KEntry (t\<lparr>entry_size := 0\<rparr>))) (obj_update rc (Some (KRing ?cb')) s))"
  show ?thesis
  proof (cases "length (ring_entries cb) = MAXW")
    case False
    have "commit_temp ok0 (aesd_device s) s = Some (True, s2)"
      using q add False p
      by (simp add: commit_temp_def handback_ptr_def dropped_def kmalloc_def s2_def del: MAXW_eq)
    moreover have "driver_core s2 rc te lk ?cb' ?t' c (cmds @ [line]) [] L"
      by (rule core_commit [OF core line, of ?cb' "ring_entries cb" "[]"])
         (use rel ring' False cb_hist_added [OF q(7)] p in
           \<open>auto simp: keep_recent_def s2_def obj_update_def fun_eq_iff\<close>)
    moreover have "aesd_device s2 = aesd_device s" "kmalloc_max s2 = kmalloc_max s"
      by (simp_all add: s2_def)
    ultimately show ?thesis using False len by (auto simp: keep_recent_def)
  next
    case True
    then obtain e es where es: "ring_entries cb = e # es" by (cases "ring_entries cb") auto
    then obtain x xs where xs: "cmds = x # xs" "holds (objs s) e x" "list_all2 (holds (objs s)) es xs"
      using rel by (auto simp: list_all2_Cons1)
    then obtain b where b: "buffptr e = Obj b" "objs s b = Some (KBytes (map Some x))"
      by (auto simp: holds_def)
    have nb: "b \<noteq> rc" "b \<noteq> te" using p b es by (auto simp: owned_def)
    define s3 where "s3 = obj_update te (Some (KEntry ?t')) (obj_update te (Some (KEntry (t\<lparr>entry_size := 0\<rparr>)))
      (obj_update b None (obj_update rc (Some (KRing ?cb')) s)))"
    have "commit_temp ok0 (aesd_device s) s = Some (True, s3)"
      using q add True p b nb es
      by (simp add: commit_temp_def handback_ptr_def dropped_def kmalloc_def s3_def del: MAXW_eq)
    moreover have "driver_core s3 rc te lk ?cb' ?t' c (xs @ [line]) [] L"
      by (rule core_commit [OF core line, of ?cb' es "[b]"])
         (use xs ring' True es b nb cb_hist_added [OF q(7)] p in
           \<open>auto simp: keep_recent_def s3_def obj_update_def fun_eq_iff\<close>)
    moreover have "aesd_device s3 = aesd_device s" "kmalloc_max s3 = kmalloc_max s"
      by (simp_all add: s3_def)
    ultimately show ?thesis using True len xs by (auto simp: keep_recent_def)
  qed
qed

end
