(* ===== verification/DriverOps.thy ===== *)
theory DriverOps
  imports DriverMemory
begin

text \<open>
  What the file operations of the driver promise, on the log as its users see it: the list of
  stored commands (oldest first) and the partial command. Each \<open>spec_\<close> function gives the result
  of an operation on that log; each refinement lemma says that the operation on the kernel heap
  computes it, without a bad access, with the semaphore released, and with nothing else changed.
\<close>

section \<open>The log\<close>

type_synonym log = "char list list \<times> char list"

text \<open>The bytes of a request that one \<open>write\<close> takes: up to the first newline.\<close>

definition accepted :: "char list \<Rightarrow> char list" where
  "accepted d = (if newline \<in> set d then takeWhile (\<lambda>c. c \<noteq> newline) d @ [newline] else d)"

fun log_append :: "log \<Rightarrow> char list \<Rightarrow> log" where
  "log_append (cmds, pend) d =
     (if newline \<in> set d then (keep_recent MAXW cmds (pend @ d), []) else (cmds, pend @ d))"

fun spec_write :: "nat \<Rightarrow> write_env \<Rightarrow> char list \<Rightarrow> nat \<Rightarrow> log \<Rightarrow> ssize_t \<times> log" where
  "spec_write limit env ubuf n (cmds, pend) =
     (let d = accepted (take n ubuf) in
      if n \<noteq> 0 \<and> \<not> (kmalloc_ok env \<and> n \<le> limit) then (- ENOMEM, (cmds, pend))
      else if fst (copy_from_user (user_left env) ubuf n) \<noteq> 0 then (- EFAULT, (cmds, pend))
      else if \<not> grow_ok (krealloc_ans env) limit (length pend + length d)
      then (- ENOMEM, (cmds, pend))
      else (word_of_nat (length d), log_append (cmds, pend) d))"

definition spec_read :: "nat \<Rightarrow> char list list \<Rightarrow> loff_t \<Rightarrow> ssize_t \<times> char list \<times> loff_t" where
  "spec_read left cmds pos =
     (case locate (map length cmds) (unat pos) of
        None \<Rightarrow> (0, [], pos)
      | Some (k, d) \<Rightarrow>
          (let rest = drop d (cmds ! k) in
           if min left (length rest) \<noteq> 0 then (- EFAULT, take (length rest - left) rest, pos)
           else (word_of_nat (length rest), rest, pos + word_of_nat (length rest))))"

section \<open>write\<close>

lemma scan_terminator_eq:
  "i + length cs \<le> INT_MAX \<Longrightarrow>
   scan_terminator cs i = Some (i + length (takeWhile (\<lambda>c. c \<noteq> newline) cs))"
  by (induction cs i rule: scan_terminator.induct) auto

lemma length_takeWhile_eq_iff:
  "length (takeWhile P xs) = length xs \<longleftrightarrow> (\<forall>x \<in> set xs. P x)"
  by (induction xs) auto

lemma scan_found:
  "(length (takeWhile (\<lambda>c. c \<noteq> newline) d) \<noteq> length d) = (newline \<in> set d)"
  by (simp only: length_takeWhile_eq_iff) blast

lemma takeWhile_eq_take_Suc:
  "x \<in> set d \<Longrightarrow> takeWhile (\<lambda>c. c \<noteq> x) d @ [x] = take (Suc (length (takeWhile (\<lambda>c. c \<noteq> x) d))) d"
  by (induction d) auto

lemma accepted_take:
  "accepted d = take (if newline \<in> set d then Suc (length (takeWhile (\<lambda>c. c \<noteq> newline) d))
                      else length d) d"
  by (simp add: accepted_def takeWhile_eq_take_Suc)

lemma length_accepted_le: "length (accepted d) \<le> length d"
  by (simp add: accepted_take)

lemma newline_accepted: "newline \<in> set (accepted d) \<longleftrightarrow> newline \<in> set d"
  by (simp add: accepted_def)

lemma accepted_is_command:
  "newline \<in> set d \<Longrightarrow> newline \<notin> set pend \<Longrightarrow> is_command (pend @ accepted d)"
  by (auto simp: is_command_def accepted_def butlast_append dest: set_takeWhileD)

lemma log_ok_append:
  assumes "log_ok cmds pend" and "(cmds', pend') = log_append (cmds, pend) (accepted d)"
  shows "log_ok cmds' pend'"
  using assms accepted_is_command [of d pend]
  by (auto simp: log_ok_def newline_accepted keep_recent_def split: if_splits dest: list.set_sel(2)
      simp: list_all_iff) (metis list.sel(2) list.set_sel(2))+

lemma accepted_word:
  assumes "length d < 2 ^ 31" and "k = (if newline \<in> set d
      then word_of_nat (length (takeWhile (\<lambda>c. c \<noteq> newline) d) + 1) else word_of_nat (length d))"
  shows "unat (k :: size_t) = length (accepted d)" and "k = word_of_nat (length (accepted d))"
proof -
  show "k = word_of_nat (length (accepted d))" using assms(2) by (simp add: accepted_def)
  moreover have "length (accepted d) < 2 ^ 64" using assms(1) length_accepted_le [of d] by simp
  ultimately show "unat k = length (accepted d)" by (simp add: unat_of_nat_small)
qed

lemma core_relI:
  "driver_core s rc te lk cb t c cmds pend L \<Longrightarrow> log_ok cmds pend \<Longrightarrow> driver_rel c s cmds pend L"
  unfolding driver_rel_def by blast

lemma core_down:
  "driver_core s rc te lk cb t (Suc c) cmds pend L \<Longrightarrow>
   down (aesd_dev_lock (aesd_device s)) s = Some (obj_update lk (Some (KSem c)) s)"
  by (simp add: driver_core_def)

lemma core_up:
  "driver_core s rc te lk cb t c cmds pend L \<Longrightarrow>
   up (aesd_dev_lock (aesd_device s)) s = Some (obj_update lk (Some (KSem (Suc c))) s)"
  by (simp add: driver_core_def)

lemma write_locked_refines:
  assumes rel: "driver_rel 1 s cmds pend L" and src: "source s L p (unat k) d"
    and k: "unat k < 2 ^ 31" and found: "found \<longleftrightarrow> newline \<in> set d"
    and d: "d = accepted data" and upd: "(cmds', pend') = log_append (cmds, pend) d"
  shows "\<exists>s'. write_locked env (aesd_device s) p k found s =
      Some (if grow_ok (krealloc_ans env) (kmalloc_max s) (length pend + length d) then k else - ENOMEM, s')
    \<and> (if grow_ok (krealloc_ans env) (kmalloc_max s) (length pend + length d)
       then driver_rel 1 s' cmds' pend' L else driver_rel 1 s' cmds pend L)
    \<and> aesd_device s' = aesd_device s \<and> kmalloc_max s' = kmalloc_max s
    \<and> ring_step (grow_ok (krealloc_ans env) (kmalloc_max s) (length pend + length d) \<and> found) s s'"
proof -
  obtain rc te lk cb t where core: "driver_core s rc te lk cb t 1 cmds pend L" and ok: "log_ok cmds pend"
    using rel by (rule driver_relE)
  have len: "length d = unat k" using src by (simp add: source_def)
  have ok': "log_ok cmds' pend'" using log_ok_append [OF ok] upd d by blast
  define s1 where "s1 = obj_update lk (Some (KSem 0)) s"
  have core1: "driver_core s1 rc te lk cb t 0 cmds pend L" unfolding s1_def by (rule core_sem [OF core])
  have down: "down (aesd_dev_lock (aesd_device s)) s = Some s1"
    using core_down [of s rc te lk cb t 0] core by (simp add: s1_def)
  have dev1: "aesd_device s1 = aesd_device s" "kmalloc_max s1 = kmalloc_max s" by (simp_all add: s1_def)
  have "lk \<notin> L" using core_distinct_places [OF core] by simp
  then have src1: "source s1 L p (unat k) d" using src by (auto simp: source_def s1_def split: ptr.splits)
  show ?thesis
  proof (rule append_temp_cases [OF core1 src1 k, of "krealloc_ans env"])
    assume f: "append_temp (krealloc_ans env) (aesd_device s1) p k s1 = Some (False, s1)"
      "\<not> grow_ok (krealloc_ans env) (kmalloc_max s1) (length pend + unat k)"
    have "driver_rel 1 (obj_update lk (Some (KSem 1)) s1) cmds pend L"
      by (rule core_relI [OF core_sem [OF core1] ok])
    with f down dev1 core_up [OF core1] len core_ring [OF core] core_ring [OF core_sem [OF core1]]
    show ?thesis by (simp add: write_locked_def ring_step_def)
  next
    fix s2 t2
    assume a: "append_temp (krealloc_ans env) (aesd_device s1) p k s1 = Some (True, s2)"
      "driver_core s2 rc te lk cb t2 0 cmds (pend @ d) L" "aesd_device s2 = aesd_device s1"
      "kmalloc_max s2 = kmalloc_max s1"
      "grow_ok (krealloc_ans env) (kmalloc_max s1) (length pend + unat k)"
    show ?thesis
    proof (cases found)
      case False
      then have "cmds' = cmds" "pend' = pend @ d" using found upd by auto
      then have "driver_rel 1 (obj_update lk (Some (KSem 1)) s2) cmds' pend' L"
        using core_relI [OF core_sem [OF a(2)]] ok' by simp
      with a down dev1 core_up [OF a(2)] len False core_ring [OF core] core_ring [OF core_sem [OF a(2)]]
      show ?thesis by (simp add: write_locked_def ring_step_def)
    next
      case True
      then have "pend @ d \<noteq> []" using found by auto
      from commit_temp_ok [OF a(2) this, of "kmalloc0_ok env"]
      obtain s3 t' where c: "commit_temp (kmalloc0_ok env) (aesd_device s2) s2 = Some (True, s3)"
        "driver_core s3 rc te lk (added cb t2) t' 0 (keep_recent MAXW cmds (pend @ d)) [] L"
        "aesd_device s3 = aesd_device s2" "kmalloc_max s3 = kmalloc_max s2" by blast
      have "cmds' = keep_recent MAXW cmds (pend @ d)" "pend' = []" using True found upd by auto
      then have "driver_rel 1 (obj_update lk (Some (KSem 1)) s3) cmds' pend' L"
        using core_relI [OF core_sem [OF c(2)]] ok' by simp
      with a c down dev1 core_up [OF c(2)] len True core_ring [OF core] core_ring [OF core_sem [OF c(2)]]
      show ?thesis by (simp add: write_locked_def ring_step_def) blast
    qed
  qed
qed

text \<open>Writing from a filled temporary block: the scan and the locked part.\<close>

lemma write_scan:
  assumes rel: "driver_rel 1 s cmds pend L" and len: "length data = n" "n < 2 ^ 31"
    and cti: "cti = length (takeWhile (\<lambda>c. c \<noteq> newline) data)" and n: "unat count = n"
    and src: "\<forall>d rest. data = d @ rest \<longrightarrow> source s L p (length d) d"
    and upd: "(cmds', pend') = log_append (cmds, pend) (accepted data)"
    and fnd: "found \<longleftrightarrow> cti \<noteq> n" and k: "k = (if found then word_of_nat (cti + 1) else count)"
  shows "\<exists>s'. write_locked env (aesd_device s) p k found s =
      Some (if grow_ok (krealloc_ans env) (kmalloc_max s) (length pend + length (accepted data))
            then word_of_nat (length (accepted data)) else - ENOMEM, s')
    \<and> (if grow_ok (krealloc_ans env) (kmalloc_max s) (length pend + length (accepted data))
       then driver_rel 1 s' cmds' pend' L else driver_rel 1 s' cmds pend L)
    \<and> aesd_device s' = aesd_device s \<and> kmalloc_max s' = kmalloc_max s
    \<and> ring_step (grow_ok (krealloc_ans env) (kmalloc_max s) (length pend + length (accepted data)) \<and> found) s s'"
proof -
  have f: "found \<longleftrightarrow> newline \<in> set data" using scan_found [of data] fnd cti len by simp
  have "count = word_of_nat (length data)" using n len by (metis of_nat_unat ucast_id)
  then have kk: "k = (if newline \<in> set data
      then word_of_nat (length (takeWhile (\<lambda>c. c \<noteq> newline) data) + 1) else word_of_nat (length data))"
    using k f cti by simp
  note w = accepted_word [OF _ kk]
  have kn: "unat k = length (accepted data)" "k = word_of_nat (length (accepted data))"
    using w len by simp_all
  have bound: "unat k < 2 ^ 31" using kn(1) length_accepted_le [of data] len by simp
  have "source s L p (unat k) (accepted data)"
    unfolding kn(1) using src accepted_take [of data] by (metis append_take_drop_id)
  from write_locked_refines [OF rel this bound _ refl upd, of found env] f newline_accepted [of data]
  have "\<exists>s'. write_locked env (aesd_device s) p k found s =
      Some (if grow_ok (krealloc_ans env) (kmalloc_max s) (length pend + length (accepted data)) then k
            else - ENOMEM, s')
    \<and> (if grow_ok (krealloc_ans env) (kmalloc_max s) (length pend + length (accepted data))
       then driver_rel 1 s' cmds' pend' L else driver_rel 1 s' cmds pend L)
    \<and> aesd_device s' = aesd_device s \<and> kmalloc_max s' = kmalloc_max s
    \<and> ring_step (grow_ok (krealloc_ans env) (kmalloc_max s) (length pend + length (accepted data)) \<and> found) s s'"
    by blast
  then show ?thesis unfolding kn(2) [symmetric] .
qed

lemma count_not_error:
  assumes "n < 2 ^ 31"
  shows "(word_of_nat n :: 64 word) \<noteq> - ENOMEM" and "(word_of_nat n :: 64 word) \<noteq> - EFAULT"
proof -
  have "unat (word_of_nat n :: 64 word) < 2 ^ 31"
    using assms by (subst unat_of_nat_small) simp_all
  then show "(word_of_nat n :: 64 word) \<noteq> - ENOMEM" "(word_of_nat n :: 64 word) \<noteq> - EFAULT"
    by (auto simp: ENOMEM_def EFAULT_def)
qed

lemma aesd_write_effect:
  assumes rel: "driver_rel 1 s cmds pend L" and opened: "private_data filp = Some Aesd_device"
  shows "\<exists>ret s' cmds' pend'. aesd_write env filp ubuf count pos s = Some (ret, pos, s')
    \<and> spec_write (kmalloc_max s) env ubuf (unat count) (cmds, pend) = (ret, (cmds', pend'))
    \<and> driver_rel 1 s' cmds' pend'
        (if unat count \<noteq> 0 \<and> kmalloc_ok env \<and> unat count \<le> kmalloc_max s
         then insert (next_obj s) L else L)
    \<and> aesd_device s' = aesd_device s \<and> kmalloc_max s' = kmalloc_max s
    \<and> ring_step (ret \<noteq> - ENOMEM \<and> ret \<noteq> - EFAULT
        \<and> newline \<in> set (take (unat count) ubuf)) s s'"
proof -
  obtain rc te lk cb t where core: "driver_core s rc te lk cb t 1 cmds pend L" and ok: "log_ok cmds pend"
    using rel by (rule driver_relE)
  have dev: "get_device filp s = Some (aesd_device s)" by (simp add: get_device_def opened)
  obtain cmds' pend' where upd: "(cmds', pend') = log_append (cmds, pend) (accepted (take (unat count) ubuf))"
    by (cases "log_append (cmds, pend) (accepted (take (unat count) ubuf))") simp
  show ?thesis
  proof (cases rule: kmalloc_cases [of "unat count" "kmalloc_ok env" s])
    case zero
    have src: "\<forall>d rest. take (unat count) ubuf = d @ rest \<longrightarrow> source s L ZERO_SIZE_PTR (length d) d"
      using zero by (simp add: source_def)
    from write_scan [OF rel _ _ refl refl src upd refl refl, where count = count and env = env] zero
    obtain s' where s': "write_locked env (aesd_device s) ZERO_SIZE_PTR count False s =
        Some (if grow_ok (krealloc_ans env) (kmalloc_max s) (length pend) then 0 else - ENOMEM, s')"
      "(if grow_ok (krealloc_ans env) (kmalloc_max s) (length pend)
        then driver_rel 1 s' cmds' pend' L else driver_rel 1 s' cmds pend L)"
      "aesd_device s' = aesd_device s" "kmalloc_max s' = kmalloc_max s" "ring_step False s s'"
      by (auto simp: accepted_def)
    then show ?thesis using zero dev upd
      by (auto simp: aesd_write_def copy_from_user_def load_init_def accepted_def Let_def)
  next
    case fails
    then show ?thesis using dev rel by (auto simp: aesd_write_def ring_step_def Let_def)
  next
    case succeeds
    let ?n = "unat count" and ?a = "next_obj s" and ?L = "insert (next_obj s) L"
    obtain failed copied where cp: "copy_from_user (user_left env) ubuf ?n = (failed, copied)"
      by (cases "copy_from_user (user_left env) ubuf ?n")
    have clen: "length copied = ?n" using length_copy_from_user [OF cp] .
    define s1 where "s1 = (obj_update ?a (Some (KBytes (replicate ?n None))) s)\<lparr>next_obj := Suc ?a\<rparr>"
    define s2 where "s2 = obj_update ?a (Some (KBytes (map Some copied))) s1"
    have core2: "driver_core s2 rc te lk cb t 1 cmds pend ?L"
      unfolding s2_def by (rule core_leak_update [OF core_alloc_leak [OF core s1_def]]) simp
    have rel2: "driver_rel 1 s2 cmds pend ?L" by (rule core_relI [OF core2 ok])
    have dev2: "aesd_device s2 = aesd_device s" "kmalloc_max s2 = kmalloc_max s"
      by (simp_all add: s2_def s1_def obj_update_def)
    have st: "store_bytes (Obj ?a) 0 (map Some copied) s1 = Some s2"
      using clen by (simp add: s1_def s2_def)
    have ld: "load_init (Obj ?a) 0 ?n s2 = Some copied"
      using load_init_slice [of s2 ?a copied 0 ?n] clen by (simp add: s2_def)
    show ?thesis
    proof (cases "failed = 0")
      case False
      then show ?thesis using succeeds dev cp st rel2 dev2 core_ring [OF core] core_ring [OF core2]
        by (auto simp: aesd_write_def s1_def [symmetric] ring_step_def)
    next
      case True
      then have data: "copied = take ?n ubuf" using copy_from_user_complete cp by blast
      have small: "?n < 2 ^ 31" using succeeds(3) core by (simp add: driver_core_def)
      have src: "\<forall>d rest. copied = d @ rest \<longrightarrow> source s2 ?L (Obj ?a) (length d) d"
        by (auto simp: source_def s2_def)
      have scan: "scan_terminator copied 0 = Some (length (takeWhile (\<lambda>c. c \<noteq> newline) copied))"
        using scan_terminator_eq [of 0 copied] clen small by (simp add: INT_MAX_def)
      from write_scan [OF rel2 clen small refl refl src upd [folded data] refl refl, where env = env]
      obtain s3 where s3: "write_locked env (aesd_device s) (Obj ?a)
          (if length (takeWhile (\<lambda>c. c \<noteq> newline) copied) \<noteq> ?n
           then word_of_nat (length (takeWhile (\<lambda>c. c \<noteq> newline) copied) + 1) else count)
          (length (takeWhile (\<lambda>c. c \<noteq> newline) copied) \<noteq> ?n) s2 =
          Some (if grow_ok (krealloc_ans env) (kmalloc_max s) (length pend + length (accepted copied))
            then word_of_nat (length (accepted copied)) else - ENOMEM, s3)"
        "(if grow_ok (krealloc_ans env) (kmalloc_max s) (length pend + length (accepted copied))
          then driver_rel 1 s3 cmds' pend' ?L else driver_rel 1 s3 cmds pend ?L)"
        "aesd_device s3 = aesd_device s" "kmalloc_max s3 = kmalloc_max s"
        "ring_step (grow_ok (krealloc_ans env) (kmalloc_max s) (length pend + length (accepted copied))
          \<and> length (takeWhile (\<lambda>c. c \<noteq> newline) copied) \<noteq> ?n) s2 s3"
        unfolding dev2 by blast
      have same: "ring_of s2 = ring_of s" using core_ring [OF core] core_ring [OF core2] by simp
      have "length (accepted copied) < 2 ^ 31" using length_accepted_le [of copied] clen small by simp
      note ret = count_not_error [OF this]
      from s3(1) have "aesd_write env filp ubuf count pos s = Some
          (if grow_ok (krealloc_ans env) (kmalloc_max s) (length pend + length (accepted copied))
            then word_of_nat (length (accepted copied)) else - ENOMEM, pos, s3)"
        by (simp add: aesd_write_def dev succeeds(4) s1_def [symmetric] cp st ld scan True Let_def
            del: store_bytes.simps scan_terminator.simps)
      then show ?thesis using succeeds cp True data upd s3 same ret scan_found [of copied] clen
        by (auto simp: Let_def ring_step_def)
    qed
  qed
qed

lemma aesd_write_refines_leak:
  assumes "driver_rel 1 s cmds pend L" and "private_data filp = Some Aesd_device"
  shows "\<exists>ret s' cmds' pend'. aesd_write env filp ubuf count pos s = Some (ret, pos, s')
    \<and> spec_write (kmalloc_max s) env ubuf (unat count) (cmds, pend) = (ret, (cmds', pend'))
    \<and> driver_rel 1 s' cmds' pend'
        (if unat count \<noteq> 0 \<and> kmalloc_ok env \<and> unat count \<le> kmalloc_max s
         then insert (next_obj s) L else L)
    \<and> aesd_device s' = aesd_device s \<and> kmalloc_max s' = kmalloc_max s"
  using aesd_write_effect [OF assms, of env ubuf count pos] by blast

section \<open>read\<close>

lemma core_sizes:
  assumes "driver_core s rc te lk cb t c cmds pend L"
  shows "map entry_len (ring_entries cb) = map length cmds"
proof -
  have "list_all2 (holds (objs s)) (ring_entries cb) cmds" using assms by (simp add: driver_core_def)
  then show ?thesis by (induction rule: list_all2_induct) (auto simp: holds_def)
qed

lemma core_entry:
  assumes core: "driver_core s rc te lk cb t c cmds pend L" and k: "k < length cmds"
  shows "holds (objs s) (entry cb ! ring_idx cb k) (cmds ! k)" and "length (cmds ! k) < 2 ^ 31"
proof -
  have rel: "list_all2 (holds (objs s)) (ring_entries cb) cmds" using core by (simp add: driver_core_def)
  have "k < ring_count cb" using k list_all2_lengthD [OF rel] by simp
  then show "holds (objs s) (entry cb ! ring_idx cb k) (cmds ! k)"
    using list_all2_nthD2 [OF rel k] by (simp add: nth_ring_entries)
  have "cmds ! k \<in> set cmds" using k by simp
  then have "length (cmds ! k) \<le> kmalloc_max s" "kmalloc_max s < 2 ^ 31"
    using core by (auto simp: driver_core_def)
  then show "length (cmds ! k) < 2 ^ 31" by linarith
qed

lemma obj_update_restore: "objs s a = v \<Longrightarrow> obj_update a v (obj_update a w s) = s"
  by (auto simp: obj_update_def)

lemma sentinel_distinct: "d < 2 ^ 31 \<Longrightarrow> (word_of_nat d :: size_t) \<noteq> - 1"
proof
  assume d: "d < 2 ^ 31" and "(word_of_nat d :: size_t) = - 1"
  then have "unat (word_of_nat d :: size_t) = unat (- 1 :: size_t)" by simp
  moreover have "unat (word_of_nat d :: size_t) = d" by (rule unat_of_nat_small) (use d in simp)
  moreover have "unat (- 1 :: size_t) = 2 ^ 64 - 1" by (simp add: unsigned_minus_1_eq_mask mask_eq_exp_minus_1)
  ultimately show False using d by simp
qed

lemma aesd_read_spec:
  assumes rel: "driver_rel 1 s cmds pend L" and opened: "private_data filp = Some Aesd_device"
    and spec: "spec_read left cmds pos = (ret, ubuf, pos')"
  shows "aesd_read left filp count pos s = Some (ret, ubuf, pos', s)"
proof -
  obtain rc te lk cb t where core: "driver_core s rc te lk cb t 1 cmds pend L"
    using rel by (rule driver_relE)
  have dev: "get_device filp s = Some (aesd_device s)" by (simp add: get_device_def opened)
  define s1 where "s1 = obj_update lk (Some (KSem 0)) s"
  have core1: "driver_core s1 rc te lk cb t 0 cmds pend L" unfolding s1_def by (rule core_sem [OF core])
  have down: "down (aesd_dev_lock (aesd_device s)) s = Some s1"
    using core_down [of s rc te lk cb t 0] core by (simp add: s1_def)
  have dev1: "aesd_device s1 = aesd_device s" by (simp add: s1_def)
  have up: "up (aesd_dev_lock (aesd_device s)) s1 = Some s"
    using core_up [OF core1] core obj_update_restore [of s lk "Some (KSem 1)"] dev1
    by (simp add: s1_def driver_core_def)
  have ring: "load_ring (circularBuffer (aesd_device s)) s1 = Some cb"
    using core_places [OF core1] dev1 by simp
  have wf: "cb_wf cb" using core by (simp add: driver_core_def cb_hist_wf)
  have find: "aesd_circular_buffer_find_entry_offset_for_fpos cb pos (- 1) =
    (case locate (map length cmds) (unat pos) of
       None \<Rightarrow> (None, - 1) | Some (k, d) \<Rightarrow> (Some (ring_idx cb k), word_of_nat d))"
    by (simp add: find_entry_locate [OF wf] core_sizes [OF core])
  show ?thesis
  proof (cases "locate (map length cmds) (unat pos)")
    case None
    then show ?thesis using spec find by (auto simp: aesd_read_def dev down ring up spec_read_def)
  next
    case (Some kd)
    obtain k d where kd: "kd = (k, d)" by (cases kd)
    with Some have k: "k < length cmds" "d < length (cmds ! k)" by (auto simp: locate_Some_iff)
    note e = core_entry [OF core1 k(1)]
    obtain a where a: "buffptr (entry cb ! ring_idx cb k) = Obj a"
      "objs s1 a = Some (KBytes (map Some (cmds ! k)))"
      "entry_len (entry cb ! ring_idx cb k) = length (cmds ! k)"
      using e(1) by (auto simp: holds_def)
    have d: "unat (word_of_nat d :: size_t) = d" "(word_of_nat d :: size_t) \<noteq> - 1"
      using k(2) e(2) by (auto intro!: unat_of_nat_small sentinel_distinct)
    have left: "unat (entry_size (entry cb ! ring_idx cb k) - word_of_nat d) = length (cmds ! k) - d"
      using k(2) a(3) d(1) by (simp add: unat_minus_le word_le_nat_alt)
    then have leftw: "entry_size (entry cb ! ring_idx cb k) - word_of_nat d
        = word_of_nat (length (cmds ! k) - d)"
      by (metis of_nat_unat ucast_id)
    have leftn: "unat (word_of_nat (length (cmds ! k) - d) :: size_t) = length (cmds ! k) - d"
      using left leftw by simp
    have copy: "copy_to_user left (Obj a) d (length (cmds ! k) - d) s1
        = Some (min left (length (cmds ! k) - d), take (length (cmds ! k) - d - left) (drop d (cmds ! k)))"
      using load_init_slice [OF a(2), of d "length (cmds ! k) - d"] k(2) by (simp add: copy_to_user_def)
    have run: "aesd_read left filp count pos s =
      (if min left (length (cmds ! k) - d) \<noteq> 0
       then Some (- EFAULT, take (length (cmds ! k) - d - left) (drop d (cmds ! k)), pos, s)
       else Some (word_of_nat (length (drop d (cmds ! k))), drop d (cmds ! k),
              pos + word_of_nat (length (drop d (cmds ! k))), s))"
      using Some kd
      by (simp add: aesd_read_def dev down ring find up d a(1) leftw leftn copy Let_def)
    show ?thesis unfolding run using spec Some kd
      by (auto simp: spec_read_def Let_def)
  qed
qed

section \<open>llseek\<close>

lemma core_total:
  assumes "driver_core s rc te lk cb t c cmds pend L"
  shows "buffer_length cb = word_of_nat (length (concat cmds))"
    and "length (concat cmds) < 10 * 2 ^ 31"
proof -
  have h: "cb_hist cb" using assms by (simp add: driver_core_def)
  then have "map (\<lambda>i. entry cb ! i) [0..<MAXW] = entry cb"
    by (intro nth_equalityI) (simp_all add: cb_hist_def cb_wf_def)
  then have "map entry_len (map (\<lambda>i. entry cb ! i) [0..<MAXW]) = map entry_len (entry cb)" by simp
  then have "map (\<lambda>i. entry_len (entry cb ! i)) [0..<MAXW] = map entry_len (entry cb)"
    unfolding map_map comp_def .
  then show "buffer_length cb = word_of_nat (length (concat cmds))"
    unfolding buffer_length_def foldl_plus_word
    using sum_sizes_ring [OF h] core_sizes [OF assms] by (simp add: length_concat del: MAXW_eq)
  have "length cmds \<le> 10"
    using core_sizes [OF assms] ring_count_le [of cb] by (metis MAXW_eq length_map length_ring_entries)
  moreover have "\<forall>x \<in> set cmds. length x \<le> 2 ^ 31 - 1"
    using assms by (fastforce simp: driver_core_def)
  then have "length (concat cmds) \<le> length cmds * (2 ^ 31 - 1)"
    using sum_list_bounded [of "map length cmds" "2 ^ 31 - 1"] by (auto simp: length_concat)
  ultimately show "length (concat cmds) < 10 * 2 ^ 31" by simp
qed

lemma core_locked:
  assumes core: "driver_core s rc te lk cb t 1 cmds pend L"
  defines "s1 \<equiv> obj_update lk (Some (KSem 0)) s"
  shows "down (aesd_dev_lock (aesd_device s)) s = Some s1"
    and "up (aesd_dev_lock (aesd_device s)) s1 = Some s"
    and "load_ring (circularBuffer (aesd_device s)) s1 = Some cb"
    and "load_ring (circularBuffer (aesd_device s)) s = Some cb"
  using core core_distinct_places [OF core] obj_update_restore [of s lk "Some (KSem 1)"]
  by (simp_all add: driver_core_def s1_def)

lemma aesd_llseek_spec:
  assumes rel: "driver_rel 1 s cmds pend L" and opened: "private_data filp = Some Aesd_device"
    and seek: "fsl (f_pos filp) offset whence (word_of_nat (length (concat cmds))) = (ret, pos')"
  shows "aesd_llseek fsl filp offset whence s = Some (ret, filp\<lparr>f_pos := pos'\<rparr>, s)"
proof -
  obtain rc te lk cb t where core: "driver_core s rc te lk cb t 1 cmds pend L"
    using rel by (rule driver_relE)
  show ?thesis
    using core_locked [OF core] core_total [OF core] seek opened
    by (simp add: aesd_llseek_def get_device_def)
qed

section \<open>ioctl\<close>

text \<open>The position \<open>AESDCHAR_IOCSEEKTO\<close> computes for a command number below ten.\<close>

definition spec_seek_bytes :: "char list list \<Rightarrow> nat \<Rightarrow> nat \<Rightarrow> nat" where
  "spec_seek_bytes cmds cmd off =
     (if cmd + 1 = MAXW then 0 else length (concat (take cmd cmds)) + off)"

lemma seek_loop_last: "seek_loop cb e off (succ_idx e) acc = acc"
  by (subst seek_loop.simps) simp

lemma succ_idx_neq: "e < MAXW \<Longrightarrow> e \<noteq> succ_idx e"
  by (simp add: succ_idx_def mod_if)

lemma seek_loop_end: "e < MAXW \<Longrightarrow> seek_loop cb e off e acc = acc + ucast off"
  using succ_idx_neq [of e] by (subst seek_loop.simps) (simp add: seek_loop_last)

lemma seek_loop_from:
  assumes "k + 1 < MAXW" and "j \<le> k"
  shows "seek_loop cb ((out + k) mod MAXW) off ((out + j) mod MAXW) acc =
    acc + word_of_nat (\<Sum>i = j..<k. entry_len (entry cb ! ((out + i) mod MAXW))) + ucast off"
  using assms(2)
proof (induction "k - j" arbitrary: j acc)
  case 0
  then show ?case by (simp add: seek_loop_end)
next
  case (Suc n)
  then have j: "j < k" by simp
  have step: "succ_idx ((out + j) mod 10) = (out + Suc j) mod 10"
    by (simp add: succ_idx_def mod_simps)
  have ne: "(out + j) mod 10 \<noteq> (out + k) mod 10" "(out + j) mod 10 \<noteq> succ_idx ((out + k) mod 10)"
    using j assms(1) mod_add_inj [of j 10 k out] mod_add_inj [of j 10 "Suc k" out]
    by (simp_all add: succ_idx_def mod_simps)
  have "seek_loop cb ((out + k) mod 10) off ((out + j) mod 10) acc =
      seek_loop cb ((out + k) mod 10) off ((out + Suc j) mod 10)
        (acc + entry_size (entry cb ! ((out + j) mod 10)))"
    using ne step by (subst seek_loop.simps) simp
  also have "\<dots> = acc + entry_size (entry cb ! ((out + j) mod 10))
      + word_of_nat (\<Sum>i = Suc j..<k. entry_len (entry cb ! ((out + i) mod 10))) + ucast off"
    using Suc.hyps(1) [of "Suc j"] Suc.hyps(2) j by simp
  finally show ?case
    using j by (simp add: sum.atLeast_Suc_lessThan add.assoc)
qed

lemma seek_loop_sum:
  assumes "k + 1 < MAXW" and "j \<le> k" and "out = unat (out_offs cb)"
  shows "seek_loop cb ((out + k) mod MAXW) off ((out + j) mod MAXW) acc =
    acc + word_of_nat (\<Sum>i = j..<k. entry_len (entry cb ! ring_idx cb i)) + ucast off"
  using seek_loop_from [OF assms(1,2)] by (simp add: ring_idx_def assms(3))

text \<open>
  The count with indices that were computed before an entry was added to the full buffer: the start
  is now the newest entry.
\<close>

lemma seek_loop_stale:
  assumes wf: "cb_wf cb" and full: "full cb" and k: "0 < k" "k + 1 < MAXW"
  shows "seek_loop (added cb e) ((unat (out_offs cb) + k) mod MAXW) off (unat (out_offs cb)) 0 =
    entry_size e + word_of_nat (sum_list (map entry_len (take (k - 1) (ring_entries (added cb e))))) + ucast off"
proof -
  let ?out = "unat (out_offs cb)" and ?b = "added cb e"
  have o: "?out < 10" "unat (in_offs cb) = ?out" "length (entry cb) = 10"
    using wf full by (auto simp: cb_wf_def)
  have rc: "ring_count ?b = 10" using ring_count_added [OF wf] full by simp
  have first: "entry ?b ! (?out mod 10) = e" using o by (simp add: added_def)
  have rest: "entry ?b ! ((?out + Suc i) mod 10) = ring_entries ?b ! i" if "i < 9" for i
  proof -
    have "ring_idx ?b i = (?out + Suc i) mod 10"
      using full by (simp add: ring_idx_def added_def mod_simps)
    then show ?thesis using that rc nth_ring_entries [of i ?b] by simp
  qed
  have "(\<Sum>i = 0..<k. entry_len (entry ?b ! ((?out + i) mod 10)))
      = entry_len e + (\<Sum>i = 0..<k - 1. entry_len (entry ?b ! ((?out + Suc i) mod 10)))"
    using k(1) first by (cases k) (simp_all add: sum.atLeast0_lessThan_Suc_shift del: sum.op_ivl_Suc)
  also have "(\<Sum>i = 0..<k - 1. entry_len (entry ?b ! ((?out + Suc i) mod 10)))
      = (\<Sum>i = 0..<k - 1. entry_len (ring_entries ?b ! i))"
    using k(2) rest by (intro sum.cong) auto
  also have "\<dots> = sum_list (map entry_len (take (k - 1) (ring_entries ?b)))"
    using k(2) rc by (simp add: sum_list_sum_nth)
  finally show ?thesis using seek_loop_from [OF k(2), of 0 ?b ?out off 0] o by simp
qed

text \<open>The sum over the entries from the read offset is the length of the first commands.\<close>

lemma core_prefix:
  assumes core: "driver_core s rc te lk cb t c cmds pend L" and k: "k \<le> MAXW"
  shows "(\<Sum>i = 0..<k. entry_len (entry cb ! ring_idx cb i)) = length (concat (take k cmds))"
proof -
  have h: "cb_hist cb" using core by (simp add: driver_core_def)
  have len: "length cmds = ring_count cb" and sz: "\<And>i. i < ring_count cb \<Longrightarrow>
      entry_len (ring_entries cb ! i) = length (cmds ! i)"
    using core_sizes [OF core] by (metis length_map length_ring_entries, metis length_map
        length_ring_entries nth_map)
  have "entry_len (entry cb ! ring_idx cb i) = (if i < length cmds then length (cmds ! i) else 0)"
    if "i < k" for i
    using entry_from_out [OF h, of i] that k sz len by (simp add: zero_entry_def)
  then have "(\<Sum>i = 0..<k. entry_len (entry cb ! ring_idx cb i))
      = (\<Sum>i = 0..<k. if i < length cmds then length (cmds ! i) else 0)"
    by simp
  also have "\<dots> = length (concat (take k cmds))"
  proof (induction k)
    case (Suc k)
    then show ?case by (cases "k < length cmds") (simp_all add: take_Suc_conv_app_nth)
  qed simp
  finally show ?thesis .
qed

lemma aesd_ioctl_seek_spec:
  assumes rel: "driver_rel 1 s cmds pend L" and opened: "private_data filp = Some Aesd_device"
    and cmd: "unat (write_cmd seekto) < MAXW"
    and seek: "fsl (f_pos filp) (word_of_nat (spec_seek_bytes cmds (unat (write_cmd seekto))
        (unat (write_cmd_offset seekto)))) SEEK_SET (word_of_nat (length (concat cmds))) = (ret, pos')"
  shows "aesd_ioctl fsl filp AESDCHAR_IOCSEEKTO (0, seekto) s = Some (ret, filp\<lparr>f_pos := pos'\<rparr>, s)"
proof -
  obtain rc te lk cb t where core: "driver_core s rc te lk cb t 1 cmds pend L"
    using rel by (rule driver_relE)
  let ?out = "unat (out_offs cb)" and ?k = "unat (write_cmd seekto)"
  have out: "?out < 10" using core by (simp add: driver_core_def cb_hist_def cb_wf_def)
  have "?out + ?k < 2 ^ 32" using out cmd by simp
  then have e: "unat (ucast (out_offs cb) + write_cmd seekto) = ?out + ?k"
    by (simp add: unat_word_ariths unat_ucast_up)
  have bytes: "seek_loop cb ((?out + ?k) mod 10) (write_cmd_offset seekto) ?out 0
    = word_of_nat (spec_seek_bytes cmds ?k (unat (write_cmd_offset seekto)))"
  proof (cases "?k + 1 = MAXW")
    case True
    have "succ_idx ((?out + ?k) mod 10) = ?out" using True out by (simp add: succ_idx_def mod_simps)
    then show ?thesis using True seek_loop_last [of cb "(?out + ?k) mod 10"]
      by (simp add: spec_seek_bytes_def)
  next
    case False
    then have "?k + 1 < MAXW" using cmd by simp
    from seek_loop_sum [OF this, of 0 ?out cb "write_cmd_offset seekto" 0]
    have "seek_loop cb ((?out + ?k) mod MAXW) (write_cmd_offset seekto) ((?out + 0) mod MAXW) 0
      = 0 + word_of_nat (length (concat (take ?k cmds))) + ucast (write_cmd_offset seekto)"
      unfolding core_prefix [OF core less_imp_le [OF cmd]] by blast
    then show ?thesis using False out by (simp add: spec_seek_bytes_def)
  qed
  note l = core_locked [OF core]
  show ?thesis
    using cmd l opened bytes e aesd_llseek_spec [of s cmds pend L filp fsl, OF rel opened seek]
    by (simp add: aesd_ioctl_def ioctl_indices_def ioctl_count_def get_device_def)
qed

end
