(* ===== verification/DriverModule.thy ===== *)
theory DriverModule
  imports DriverOps
begin

text \<open>
  Loading and unloading the module: \<open>aesd_setup_cdev\<close>, \<open>aesd_init_module\<close> with its cleanup
  labels, and \<open>aesd_cleanup_module\<close> of \<open>aesd-char-driver/main.c\<close>.
\<close>

section \<open>Model\<close>

text \<open>
  The sizes of the two structures on a 64-bit target. The size of \<open>struct semaphore\<close> belongs to
  the kernel and is an argument, with the other answers of the kernel: the result of
  \<open>alloc_chrdev_region\<close> and the device number it reserved, whether each \<open>kmalloc\<close> succeeds, and
  the result of \<open>cdev_add\<close>.
\<close>

definition sizeof_circular_buffer :: nat where "sizeof_circular_buffer = 168"
definition sizeof_buffer_entry :: nat where "sizeof_buffer_entry = 16"

record init_env =
  chrdev_ans :: "int \<times> nat"
  ring_ok :: bool
  temp_ok :: bool
  buf_ok :: bool
  lock_ok :: bool
  sizeof_semaphore :: nat
  cdev_add_ans :: int

definition MAJOR :: "nat \<Rightarrow> nat" where "MAJOR dev = dev div 2 ^ 20"
definition MKDEV :: "nat \<Rightarrow> nat \<Rightarrow> nat" where "MKDEV ma mi = ma * 2 ^ 20 + mi"

definition aesd_minor :: nat where "aesd_minor = 0"

definition set_device :: "(aesd_dev \<Rightarrow> aesd_dev) \<Rightarrow> kstate \<Rightarrow> kstate" where
  "set_device f s = s\<lparr>aesd_device := f (aesd_device s)\<rparr>"

definition zero_cdev :: cdev where
  "zero_cdev = \<lparr>cdev_owner = False, cdev_ops = False, cdev_live = False\<rparr>"

definition zero_device :: aesd_dev where
  "zero_device = \<lparr>tempEntry = NULL, circularBuffer = NULL, aesd_dev_lock = NULL, cdev_of = zero_cdev\<rparr>"

definition zero_ring :: aesd_circular_buffer where
  "zero_ring = \<lparr>entry = replicate MAXW zero_entry, in_offs = 0, out_offs = 0, full = False\<rparr>"

definition register_region :: "nat \<Rightarrow> kstate \<Rightarrow> kstate" where
  "register_region dev s = s\<lparr>chrdev_regions := dev # chrdev_regions s\<rparr>"

definition unregister_region :: "nat \<Rightarrow> kstate \<Rightarrow> kstate" where
  "unregister_region dev s = s\<lparr>chrdev_regions := remove1 dev (chrdev_regions s)\<rparr>"

definition aesd_setup_cdev :: "int \<Rightarrow> kstate \<Rightarrow> int \<times> kstate" where
  "aesd_setup_cdev ans s =
     (let s1 = set_device (\<lambda>d. d\<lparr>cdev_of := \<lparr>cdev_owner = True, cdev_ops = True, cdev_live = False\<rparr>\<rparr>) s
      in (ans, if ans = 0
               then set_device (\<lambda>d. d\<lparr>cdev_of := (cdev_of d)\<lparr>cdev_live := True\<rparr>\<rparr>) s1 else s1))"

text \<open>The cleanup labels; each falls through to the next.\<close>

definition free_circularBuffer :: "int \<Rightarrow> kstate \<Rightarrow> (int \<times> kstate) option" where
  "free_circularBuffer result s = do {
     s1 \<leftarrow> kfree (circularBuffer (aesd_device s)) s;
     Some (result, s1)
   }"

definition free_tempEntry :: "int \<Rightarrow> kstate \<Rightarrow> (int \<times> kstate) option" where
  "free_tempEntry result s = do {
     s1 \<leftarrow> kfree (tempEntry (aesd_device s)) s;
     free_circularBuffer result s1
   }"

definition free_tempEntryString :: "int \<Rightarrow> kstate \<Rightarrow> (int \<times> kstate) option" where
  "free_tempEntryString result s = do {
     te \<leftarrow> load_entry (tempEntry (aesd_device s)) s;
     s1 \<leftarrow> kfree (buffptr te) s;
     free_tempEntry result s1
   }"

text \<open>The last part of the initialisation: the semaphore and the character device.\<close>

definition init_lock_and_cdev :: "init_env \<Rightarrow> nat \<Rightarrow> kstate \<Rightarrow> (int \<times> kstate) option" where
  "init_lock_and_cdev env dev s = do {
     let (lk, s1) = kmalloc (lock_ok env) (sizeof_semaphore env) s;
     let s2 = set_device (\<lambda>d. d\<lparr>aesd_dev_lock := lk\<rparr>) s1;
     if lk = NULL then free_tempEntryString (- 12) s2
     else do {
       s3 \<leftarrow> memset_bytes lk sizeof_buffer_entry s2;
       s4 \<leftarrow> sema_init lk 1 s3;
       let (result, s5) = aesd_setup_cdev (cdev_add_ans env) s4;
       if result = 0 then Some (result, s5)
       else do {
         let s6 = unregister_region dev s5;
         s7 \<leftarrow> kfree (aesd_dev_lock (aesd_device s6)) s6;
         free_tempEntryString result s7
       }
     }
   }"

definition init_temp :: "init_env \<Rightarrow> nat \<Rightarrow> kstate \<Rightarrow> (int \<times> kstate) option" where
  "init_temp env dev s = do {
     let (te, s1) = kmalloc (temp_ok env) sizeof_circular_buffer s;
     let s2 = set_device (\<lambda>d. d\<lparr>tempEntry := te\<rparr>) s1;
     if te = NULL then free_circularBuffer (- 12) s2
     else do {
       s3 \<leftarrow> memset_struct te sizeof_buffer_entry (KEntry zero_entry) s2;
       s4 \<leftarrow> store_entry te (zero_entry\<lparr>entry_size := 0\<rparr>) s3;
       let (p, s5) = kmalloc (buf_ok env) 0 s4;
       s6 \<leftarrow> store_entry te (zero_entry\<lparr>entry_size := 0, buffptr := p\<rparr>) s5;
       if p = NULL then free_tempEntry (- 12) s6
       else init_lock_and_cdev env dev s6
     }
   }"

definition aesd_init_module :: "init_env \<Rightarrow> kstate \<Rightarrow> (int \<times> kstate) option" where
  "aesd_init_module env s = do {
     let (result, dev) = chrdev_ans env;
     let s0 = (if result < 0 then s else register_region dev s);
     let s1 = s0\<lparr>aesd_major := MAJOR dev\<rparr>;
     if result < 0 then Some (result, s1)
     else do {
       let s2 = set_device (\<lambda>d. zero_device) s1;
       let (cb, s3) = kmalloc (ring_ok env) sizeof_circular_buffer s2;
       let s4 = set_device (\<lambda>d. d\<lparr>circularBuffer := cb\<rparr>) s3;
       if cb = NULL then Some (- 12, s4)
       else do {
         s5 \<leftarrow> memset_struct cb sizeof_circular_buffer (KRing zero_ring) s4;
         init_temp env dev s5
       }
     }
   }"

definition aesd_cleanup_module :: "kstate \<Rightarrow> kstate option" where
  "aesd_cleanup_module s = do {
     let devno = MKDEV (aesd_major s) aesd_minor;
     let s1 = set_device (\<lambda>d. d\<lparr>cdev_of := (cdev_of d)\<lparr>cdev_live := False\<rparr>\<rparr>) s;
     cb \<leftarrow> load_ring (circularBuffer (aesd_device s1)) s1;
     s2 \<leftarrow> AESD_CIRCULAR_BUFFER_FOREACH (\<lambda>e. kfree (buffptr e)) cb s1;
     s3 \<leftarrow> kfree (aesd_dev_lock (aesd_device s2)) s2;
     te \<leftarrow> load_entry (tempEntry (aesd_device s3)) s3;
     s4 \<leftarrow> kfree (buffptr te) s3;
     s5 \<leftarrow> kfree (tempEntry (aesd_device s4)) s4;
     s6 \<leftarrow> kfree (circularBuffer (aesd_device s5)) s5;
     Some (unregister_region devno s6)
   }"

section \<open>Unloading\<close>

definition drop_objs :: "nat set \<Rightarrow> kstate \<Rightarrow> kstate" where
  "drop_objs A s = s\<lparr>objs := (\<lambda>a. if a \<in> A then None else objs s a)\<rparr>"

lemma drop_objs_simps [simp]:
  "objs (drop_objs A s) a = (if a \<in> A then None else objs s a)"
  "aesd_device (drop_objs A s) = aesd_device s"
  "next_obj (drop_objs A s) = next_obj s"
  "chrdev_regions (drop_objs A s) = chrdev_regions s"
  "drop_objs {} s = s"
  "drop_objs A (drop_objs B s) = drop_objs (A \<union> B) s"
  by (simp_all add: drop_objs_def, cases s, simp add: fun_eq_iff)

lemma obj_update_None: "obj_update a None s = drop_objs {a} s"
  by (cases s) (simp add: drop_objs_def obj_update_def fun_eq_iff)

lemma kfree_drop:
  "set (addrs p) \<subseteq> dom (objs s) \<Longrightarrow> kfree p s = Some (drop_objs (set (addrs p)) s)"
  by (cases p) (auto simp: obj_update_None)

lemma foreach_kfree:
  "distinct (entry_addrs es) \<Longrightarrow> set (entry_addrs es) \<subseteq> dom (objs s) \<Longrightarrow>
   foreach_entries (\<lambda>e. kfree (buffptr e)) es s = Some (drop_objs (set (entry_addrs es)) s)"
proof (induction es arbitrary: s)
  case Nil
  then show ?case by simp
next
  case (Cons e es)
  let ?s1 = "drop_objs (set (addrs (buffptr e))) s"
  have "kfree (buffptr e) s = Some ?s1" using Cons.prems by (intro kfree_drop) simp
  moreover have "foreach_entries (\<lambda>e. kfree (buffptr e)) es ?s1
      = Some (drop_objs (set (entry_addrs es)) ?s1)"
    using Cons.prems by (intro Cons.IH) auto
  ultimately show ?case by (simp add: Un_commute)
qed

text \<open>The ten entries of the array own the same blocks as the stored commands.\<close>

lemma entry_addrs_array:
  assumes "cb_hist cb"
  shows "set (entry_addrs (entry cb)) = set (entry_addrs (ring_entries cb))"
    and "distinct (entry_addrs (entry cb)) = distinct (entry_addrs (ring_entries cb))"
proof -
  have z: "list_all (\<lambda>e. e = zero_entry) es \<Longrightarrow> entry_addrs es = []" for es
    by (induction es) (simp_all add: zero_entry_def)
  have "set (entry_addrs (entry cb)) = set (entry_addrs (ring_entries cb))
    \<and> distinct (entry_addrs (entry cb)) = distinct (entry_addrs (ring_entries cb))"
  proof (cases "full cb")
    case True
    let ?n = "unat (out_offs cb) mod length (entry cb)"
    have "ring_entries cb = drop ?n (entry cb) @ take ?n (entry cb)"
      using ring_entries_full [OF cb_hist_wf [OF assms] True] by (simp add: rotate_drop_take)
    then have r: "entry_addrs (ring_entries cb) =
        entry_addrs (drop ?n (entry cb)) @ entry_addrs (take ?n (entry cb))" by simp
    have e: "entry_addrs (entry cb) =
        entry_addrs (take ?n (entry cb)) @ entry_addrs (drop ?n (entry cb))"
      by (metis append_take_drop_id entry_addrs_append)
    show ?thesis unfolding r e by auto
  next
    case False
    then have "entry_addrs (drop (unat (in_offs cb)) (entry cb)) = []"
      using assms by (intro z) (simp add: cb_hist_def)
    moreover have "entry_addrs (entry cb) =
        entry_addrs (take (unat (in_offs cb)) (entry cb)) @ entry_addrs (drop (unat (in_offs cb)) (entry cb))"
      by (metis append_take_drop_id entry_addrs_append)
    ultimately show ?thesis using ring_entries_not_full [OF assms False] by simp
  qed
  then show "set (entry_addrs (entry cb)) = set (entry_addrs (ring_entries cb))"
    and "distinct (entry_addrs (entry cb)) = distinct (entry_addrs (ring_entries cb))" by blast+
qed

lemma cleanup_frees:
  assumes rel: "driver_rel c s cmds pend L"
  shows "\<exists>s'. aesd_cleanup_module s = Some s' \<and> dom (objs s') = L
    \<and> (\<forall>a \<in> L. objs s' a = objs s a)
    \<and> chrdev_regions s' = remove1 (MKDEV (aesd_major s) aesd_minor) (chrdev_regions s)"
proof -
  obtain rc te lk cb t where core: "driver_core s rc te lk cb t c cmds pend L"
    using rel by (rule driver_relE)
  note p = core_distinct_places [OF core] and q = core_places [OF core] and d = core_dom [OF core]
  let ?ea = "set (entry_addrs (ring_entries cb))" and ?ta = "set (addrs (buffptr t))"
  define s1 where "s1 = set_device (\<lambda>d. d\<lparr>cdev_of := (cdev_of d)\<lparr>cdev_live := False\<rparr>\<rparr>) s"
  have s1: "objs s1 = objs s" "circularBuffer (aesd_device s1) = Obj rc"
    "tempEntry (aesd_device s1) = Obj te" "aesd_dev_lock (aesd_device s1) = Obj lk"
    "chrdev_regions s1 = chrdev_regions s"
    using q by (simp_all add: s1_def set_device_def)
  note arr = entry_addrs_array [OF q(7)]
  have own: "set (owned cb t) = ?ea \<union> ?ta" "?ea \<inter> ?ta = {}" "distinct (entry_addrs (ring_entries cb))"
    using core by (auto simp: owned_def driver_core_def)
  have len: "length (entry cb) = 10" using q(7) by (simp add: cb_hist_def cb_wf_def)
  have "?ea \<subseteq> dom (objs s1)" using d own s1 by auto
  then have each: "AESD_CIRCULAR_BUFFER_FOREACH (\<lambda>e. kfree (buffptr e)) cb s1 = Some (drop_objs ?ea s1)"
    using foreach_kfree [of "entry cb" s1] arr own len by (simp add: AESD_CIRCULAR_BUFFER_FOREACH_def)
  have "?ta \<subseteq> dom (objs (drop_objs ({lk} \<union> ?ea) s1))" using d own s1 p by auto
  note temp = kfree_drop [OF this]
  define s6 where "s6 = drop_objs ({rc, te} \<union> ?ta \<union> {lk} \<union> ?ea) s1"
  have run: "aesd_cleanup_module s = Some (unregister_region (MKDEV (aesd_major s) aesd_minor) s6)"
    using s1 q p own temp each
    by (simp add: aesd_cleanup_module_def s1_def [symmetric] Let_def obj_update_None s6_def
        insert_commute Un_commute Un_left_commute)
  have "dom (objs s6) = dom (objs s) - ({rc, te} \<union> ?ta \<union> {lk} \<union> ?ea)"
    using s1 by (auto simp: s6_def dom_def)
  also have "\<dots> = L" using d own by auto
  finally show ?thesis using run s1 d own by (auto simp: unregister_region_def s6_def)
qed

section \<open>Loading\<close>

text \<open>Which allocations of the initialisation succeed.\<close>

definition init_allocs_ok :: "init_env \<Rightarrow> nat \<Rightarrow> bool" where
  "init_allocs_ok env limit \<longleftrightarrow>
     ring_ok env \<and> temp_ok env \<and> lock_ok env \<and> sizeof_circular_buffer \<le> limit
     \<and> sizeof_semaphore env \<le> limit"

lemma set_device_simps [simp]:
  "objs (set_device f s) = objs s" "next_obj (set_device f s) = next_obj s"
  "kmalloc_max (set_device f s) = kmalloc_max s" "aesd_device (set_device f s) = f (aesd_device s)"
  "chrdev_regions (set_device f s) = chrdev_regions s" "aesd_major (set_device f s) = aesd_major s"
  by (simp_all add: set_device_def)

lemma obj_update_kstate_simps [simp]:
  "chrdev_regions (obj_update a v s) = chrdev_regions s" "aesd_major (obj_update a v s) = aesd_major s"
  by (simp_all add: obj_update_def)

lemma region_simps [simp]:
  "objs (register_region d s) = objs s" "next_obj (register_region d s) = next_obj s"
  "kmalloc_max (register_region d s) = kmalloc_max s" "aesd_device (register_region d s) = aesd_device s"
  "chrdev_regions (register_region d s) = d # chrdev_regions s"
  "objs (unregister_region d s) = objs s" "next_obj (unregister_region d s) = next_obj s"
  "kmalloc_max (unregister_region d s) = kmalloc_max s"
  "aesd_device (unregister_region d s) = aesd_device s"
  "chrdev_regions (unregister_region d s) = remove1 d (chrdev_regions s)"
  "aesd_major (register_region d s) = aesd_major s"
  "aesd_major (unregister_region d s) = aesd_major s"
  by (simp_all add: register_region_def unregister_region_def)

lemma zero_ring_init: "zero_ring = aesd_circular_buffer_init b"
  by (simp add: zero_ring_def aesd_circular_buffer_init_def)

text \<open>The device structure as initialised, and the three objects it owns.\<close>

lemma fresh_device_rel:
  assumes fresh: "\<forall>a \<in> dom H. a < n" and lim: "kmalloc_max s < 2 ^ 31"
    and dev: "circularBuffer (aesd_device s) = Obj n" "tempEntry (aesd_device s) = Obj (n + 1)"
      "aesd_dev_lock (aesd_device s) = Obj (n + 2)"
    and objs: "objs s = H(n \<mapsto> KRing zero_ring,
        n + 1 \<mapsto> KEntry \<lparr>buffptr = ZERO_SIZE_PTR, entry_size = 0\<rparr>, n + 2 \<mapsto> KSem 1)"
    and nxt: "next_obj s = n + 3"
  shows "driver_rel 1 s [] [] (dom H)"
proof -
  have H: "n \<notin> dom H" "n + 1 \<notin> dom H" "n + 2 \<notin> dom H" by (rule notI, drule bspec [OF fresh], simp)+
  have lt: "a < n + 3" if "H a = Some y" for a y using bspec [OF fresh domI [of H a y]] that by simp
  have z: "ring_entries zero_ring = []" "cb_hist zero_ring"
    by (metis zero_ring_init ring_entries_init, metis zero_ring_init cb_hist_init)
  have "driver_core s n (n + 1) (n + 2) zero_ring \<lparr>buffptr = ZERO_SIZE_PTR, entry_size = 0\<rparr> 1 [] [] (dom H)"
    using H z lim dev by (auto simp: driver_core_def objs nxt owned_def holds_temp_def dest: lt)
  then show ?thesis by (rule core_relI) (simp add: log_ok_def)
qed

lemma init_lock_and_cdev_cases:
  assumes te: "tempEntry (aesd_device s) = Obj m" "objs s m = Some (KEntry t)" "buffptr t = ZERO_SIZE_PTR"
    and cb: "circularBuffer (aesd_device s) = Obj n" "objs s n \<noteq> None" "m \<noteq> n"
    and fresh: "objs s (next_obj s) = None" and sz: "sizeof_buffer_entry \<le> sizeof_semaphore env"
  shows "\<exists>s'. init_lock_and_cdev env dev s =
      Some (if lock_ok env \<and> sizeof_semaphore env \<le> kmalloc_max s then cdev_add_ans env else - 12, s')
    \<and> kmalloc_max s' = kmalloc_max s \<and> aesd_major s' = aesd_major s
    \<and> (if lock_ok env \<and> sizeof_semaphore env \<le> kmalloc_max s \<and> cdev_add_ans env = 0
       then objs s' = (objs s)(next_obj s \<mapsto> KSem 1) \<and> next_obj s' = next_obj s + 1
         \<and> circularBuffer (aesd_device s') = Obj n \<and> tempEntry (aesd_device s') = Obj m
         \<and> aesd_dev_lock (aesd_device s') = Obj (next_obj s) \<and> chrdev_regions s' = chrdev_regions s
       else objs s' = (objs s)(m := None, n := None)
         \<and> chrdev_regions s' = (if lock_ok env \<and> sizeof_semaphore env \<le> kmalloc_max s
              then remove1 dev (chrdev_regions s) else chrdev_regions s))"
proof -
  have ne: "next_obj s \<noteq> m" "next_obj s \<noteq> n" using fresh te(2) cb(2) by auto
  have pos: "sizeof_semaphore env \<noteq> 0" using sz by (auto simp: sizeof_buffer_entry_def)
  show ?thesis
  proof (cases "lock_ok env \<and> sizeof_semaphore env \<le> kmalloc_max s")
    case False
    then show ?thesis using te cb pos
      by (auto simp: init_lock_and_cdev_def kmalloc_def free_tempEntryString_def free_tempEntry_def
          free_circularBuffer_def)
  next
    case True
    then show ?thesis using te cb pos ne sz fresh
      by (auto simp: init_lock_and_cdev_def kmalloc_def free_tempEntryString_def free_tempEntry_def
          free_circularBuffer_def memset_bytes_def aesd_setup_cdev_def Let_def fun_upd_twist fun_eq_iff)
  qed
qed

text \<open>
  The whole initialisation: its result, the heap it leaves, and the device numbers reserved.
\<close>

definition init_result :: "init_env \<Rightarrow> nat \<Rightarrow> int" where
  "init_result env limit =
     (if fst (chrdev_ans env) < 0 then fst (chrdev_ans env)
      else if init_allocs_ok env limit then cdev_add_ans env else - 12)"

lemma init_module_cases:
  assumes fresh: "\<forall>a \<in> dom (objs s). a < next_obj s" and lim: "kmalloc_max s < 2 ^ 31"
    and sz: "sizeof_buffer_entry \<le> sizeof_semaphore env" and ans: "chrdev_ans env = (result, dev)"
  shows "\<exists>s'. aesd_init_module env s = Some (init_result env (kmalloc_max s), s')
    \<and> aesd_major s' = MAJOR dev
    \<and> (if init_result env (kmalloc_max s) = 0 \<and> 0 \<le> result
       then driver_rel 1 s' [] [] (dom (objs s)) \<and> chrdev_regions s' = dev # chrdev_regions s
       else objs s' = objs s \<and> chrdev_regions s' =
         (if 0 \<le> result \<and> \<not> init_allocs_ok env (kmalloc_max s)
          then dev # chrdev_regions s else chrdev_regions s))"
proof (cases "result < 0")
  case True
  then show ?thesis using ans by (simp add: aesd_init_module_def init_result_def)
next
  case pos: False
  let ?n = "next_obj s"
  have new: "objs s ?n = None" "objs s (Suc ?n) = None" "objs s (Suc (Suc ?n)) = None"
    using fresh by (metis domIff less_irrefl, metis domIff not_less_eq lessI less_trans,
        metis domIff not_less_eq lessI less_trans)
  show ?thesis
  proof (cases "ring_ok env \<and> temp_ok env \<and> sizeof_circular_buffer \<le> kmalloc_max s")
    case False
    then show ?thesis using pos ans new
      by (auto simp: aesd_init_module_def init_result_def init_allocs_ok_def kmalloc_def init_temp_def
          free_circularBuffer_def sizeof_circular_buffer_def Let_def fun_eq_iff)
  next
    case True
    define s1 where "s1 = (set_device (\<lambda>d. zero_device)
      ((register_region dev s)\<lparr>aesd_major := MAJOR dev\<rparr>))"
    define s2 where "s2 = obj_update ?n (Some (KRing zero_ring)) (set_device (\<lambda>d. d\<lparr>circularBuffer := Obj ?n\<rparr>)
      ((obj_update ?n (Some (KBytes (replicate sizeof_circular_buffer None))) s1)\<lparr>next_obj := Suc ?n\<rparr>))"
    let ?t = "\<lparr>buffptr = ZERO_SIZE_PTR, entry_size = 0\<rparr>"
    define s3 where "s3 = obj_update (Suc ?n) (Some (KEntry ?t)) (obj_update (Suc ?n) (Some (KEntry zero_entry))
      (obj_update (Suc ?n) (Some (KEntry zero_entry)) (set_device (\<lambda>d. d\<lparr>tempEntry := Obj (Suc ?n)\<rparr>)
      ((obj_update (Suc ?n) (Some (KBytes (replicate sizeof_circular_buffer None))) s2)
        \<lparr>next_obj := Suc (Suc ?n)\<rparr>))))"
    have o3: "objs s3 = (objs s)(?n \<mapsto> KRing zero_ring, Suc ?n \<mapsto> KEntry ?t)"
      by (simp add: s3_def s2_def s1_def)
    have f3: "kmalloc_max s3 = kmalloc_max s" "next_obj s3 = Suc (Suc ?n)" "aesd_major s3 = MAJOR dev"
      "chrdev_regions s3 = dev # chrdev_regions s" "circularBuffer (aesd_device s3) = Obj ?n"
      "tempEntry (aesd_device s3) = Obj (Suc ?n)"
      by (simp_all add: s3_def s2_def s1_def)
    have run: "aesd_init_module env s = init_lock_and_cdev env dev s3"
      using True pos ans
      by (simp add: aesd_init_module_def init_temp_def kmalloc_def Let_def s1_def s2_def s3_def
          sizeof_circular_buffer_def sizeof_buffer_entry_def zero_entry_def)
    have "\<exists>s'. init_lock_and_cdev env dev s3 =
      Some (if lock_ok env \<and> sizeof_semaphore env \<le> kmalloc_max s3 then cdev_add_ans env else - 12, s')
    \<and> kmalloc_max s' = kmalloc_max s3 \<and> aesd_major s' = aesd_major s3
    \<and> (if lock_ok env \<and> sizeof_semaphore env \<le> kmalloc_max s3 \<and> cdev_add_ans env = 0
       then objs s' = (objs s3)(next_obj s3 \<mapsto> KSem 1) \<and> next_obj s' = next_obj s3 + 1
         \<and> circularBuffer (aesd_device s') = Obj ?n \<and> tempEntry (aesd_device s') = Obj (Suc ?n)
         \<and> aesd_dev_lock (aesd_device s') = Obj (next_obj s3) \<and> chrdev_regions s' = chrdev_regions s3
       else objs s' = (objs s3)(Suc ?n := None, ?n := None)
         \<and> chrdev_regions s' = (if lock_ok env \<and> sizeof_semaphore env \<le> kmalloc_max s3
              then remove1 dev (chrdev_regions s3) else chrdev_regions s3))"
      by (rule init_lock_and_cdev_cases [where t = ?t]) (use o3 f3 new sz in auto)
    then obtain s' where s': "init_lock_and_cdev env dev s3 =
      Some (if lock_ok env \<and> sizeof_semaphore env \<le> kmalloc_max s3 then cdev_add_ans env else - 12, s')"
      "kmalloc_max s' = kmalloc_max s3" "aesd_major s' = aesd_major s3"
      "if lock_ok env \<and> sizeof_semaphore env \<le> kmalloc_max s3 \<and> cdev_add_ans env = 0
       then objs s' = (objs s3)(next_obj s3 \<mapsto> KSem 1) \<and> next_obj s' = next_obj s3 + 1
         \<and> circularBuffer (aesd_device s') = Obj ?n \<and> tempEntry (aesd_device s') = Obj (Suc ?n)
         \<and> aesd_dev_lock (aesd_device s') = Obj (next_obj s3) \<and> chrdev_regions s' = chrdev_regions s3
       else objs s' = (objs s3)(Suc ?n := None, ?n := None)
         \<and> chrdev_regions s' = (if lock_ok env \<and> sizeof_semaphore env \<le> kmalloc_max s3
              then remove1 dev (chrdev_regions s3) else chrdev_regions s3)" by blast
    have result: "init_result env (kmalloc_max s) =
      (if lock_ok env \<and> sizeof_semaphore env \<le> kmalloc_max s3 then cdev_add_ans env else - 12)"
      using True pos ans f3 by (simp add: init_result_def init_allocs_ok_def)
    show ?thesis
    proof (cases "lock_ok env \<and> sizeof_semaphore env \<le> kmalloc_max s \<and> cdev_add_ans env = 0")
      case good: True
      have "driver_rel 1 s' [] [] (dom (objs s))"
        by (rule fresh_device_rel [OF fresh, of s']) (use s' good f3 o3 lim in auto)
      then show ?thesis using s' good run result f3 pos by auto
    next
      case False
      then have "objs s' = objs s" using s'(4) f3 o3 new by (auto simp: fun_eq_iff)
      then show ?thesis using s' False run result f3 pos True
        by (auto simp: init_allocs_ok_def split: if_splits)
    qed
  qed
qed

end
