(* ===== verification/StateMachine.thy ===== *)
theory StateMachine
  imports Prelude
begin

text \<open>
  Transition systems: the reachable states of a step relation, and the contract of an inductive
  invariant. The driver, the mutex example and the server threads are instances.
\<close>

inductive reachable :: "('s \<Rightarrow> bool) \<Rightarrow> ('s \<Rightarrow> 's \<Rightarrow> bool) \<Rightarrow> 's \<Rightarrow> bool"
  for start :: "'s \<Rightarrow> bool" and step :: "'s \<Rightarrow> 's \<Rightarrow> bool" where
  reach_start: "start s \<Longrightarrow> reachable start step s"
| reach_step: "reachable start step s \<Longrightarrow> step s t \<Longrightarrow> reachable start step t"

text \<open>If no run goes on for ever, every reachable state leads to one without a step.\<close>

lemma run_to_end:
  assumes "wf {(t, s). reachable start step s \<and> step s t}" and "reachable start step s"
  shows "\<exists>t. step\<^sup>*\<^sup>* s t \<and> reachable start step t \<and> (\<forall>u. \<not> step t u)"
  using assms
proof (induction s rule: wf_induct_rule)
  case (less s)
  show ?case
  proof (cases "\<exists>u. step s u")
    case True
    then obtain u where u: "step s u" by blast
    then have "reachable start step u" using less.prems by (blast intro: reach_step)
    with less.IH [of u] less.prems u obtain t where "step\<^sup>*\<^sup>* u t" "reachable start step t" "\<forall>v. \<not> step t v"
      by blast
    then show ?thesis using u by (meson converse_rtranclp_into_rtranclp)
  qed (use less.prems in blast)
qed

locale invariant_of =
  fixes start :: "'s \<Rightarrow> bool" and step :: "'s \<Rightarrow> 's \<Rightarrow> bool" and inv :: "'s \<Rightarrow> bool"
  assumes start_inv: "start s \<Longrightarrow> inv s"
    and step_inv: "inv s \<Longrightarrow> step s t \<Longrightarrow> inv t"
begin

lemma reachable_inv: "reachable start step s \<Longrightarrow> inv s"
  by (induction rule: reachable.induct) (auto intro: start_inv step_inv)

lemma steps_inv: "step\<^sup>*\<^sup>* s t \<Longrightarrow> inv s \<Longrightarrow> inv t"
  by (induction rule: rtranclp_induct) (auto intro: step_inv)

end

end

