(* ===== verification/DriverSystem.thy ===== *)
theory DriverSystem
  imports DriverModule StateMachine
begin

text \<open>
  The driver in use: any number of open files on the one device, and a call on any of them at
  each step. The semaphore makes \<open>read\<close>, \<open>write\<close> and \<open>llseek\<close> single steps. The seek command of
  \<open>ioctl\<close> takes it twice and looks at the buffer without it before, so its parts are steps of their
  own and other calls may come in between; any number of such calls may be under way. The position that \<open>read\<close> returns in \<open>*f_pos\<close>
  becomes the position of the file, as the kernel's \<open>read\<close> entry does.
\<close>

record drv_system =
  kernel :: kstate
  open_files :: "nat \<Rightarrow> file option"
  ioctls :: "nat \<Rightarrow> (nat \<times> ioctl_point) option"

definition closed_file :: "file" where
  "closed_file = \<lparr>f_pos = 0, private_data = None\<rparr>"

inductive drv_step :: "llseek_fn \<Rightarrow> drv_system \<Rightarrow> drv_system \<Rightarrow> bool" for fsl :: llseek_fn where
  step_open: "aesd_open inode closed_file = (0, filp) \<Longrightarrow>
    drv_step fsl S (S\<lparr>open_files := (open_files S)(fd \<mapsto> filp)\<rparr>)"
| step_release: "open_files S fd = Some filp \<Longrightarrow> aesd_release inode filp = 0 \<Longrightarrow>
    \<forall>c pt. ioctls S c \<noteq> Some (fd, pt) \<Longrightarrow>
    drv_step fsl S (S\<lparr>open_files := (open_files S)(fd := None)\<rparr>)"
| step_read: "open_files S fd = Some filp \<Longrightarrow>
    aesd_read left filp count (f_pos filp) (kernel S) = Some (ret, ubuf, pos, k) \<Longrightarrow>
    drv_step fsl S (S\<lparr>kernel := k, open_files := (open_files S)(fd \<mapsto> filp\<lparr>f_pos := pos\<rparr>)\<rparr>)"
| step_write: "open_files S fd = Some filp \<Longrightarrow>
    aesd_write env filp ubuf count (f_pos filp) (kernel S) = Some (ret, pos, k) \<Longrightarrow>
    drv_step fsl S (S\<lparr>kernel := k, open_files := (open_files S)(fd \<mapsto> filp\<lparr>f_pos := pos\<rparr>)\<rparr>)"
| step_llseek: "open_files S fd = Some filp \<Longrightarrow>
    aesd_llseek fsl filp offset whence (kernel S) = Some (ret, filp', k) \<Longrightarrow>
    drv_step fsl S (S\<lparr>kernel := k, open_files := (open_files S)(fd \<mapsto> filp')\<rparr>)"
| step_ioctl_begin: "open_files S fd = Some filp \<Longrightarrow> ioctls S c = None \<Longrightarrow>
    ioctl_begin filp cmd arg (kernel S) = Some (Inr pt) \<Longrightarrow>
    drv_step fsl S (S\<lparr>ioctls := (ioctls S)(c \<mapsto> (fd, pt))\<rparr>)"
| step_ioctl_refuse: "open_files S fd = Some filp \<Longrightarrow>
    ioctl_begin filp cmd arg (kernel S) = Some (Inl ret) \<Longrightarrow> drv_step fsl S S"
| step_ioctl_resume: "ioctls S c = Some (fd, pt) \<Longrightarrow> open_files S fd = Some filp \<Longrightarrow>
    ioctl_resume fsl filp pt (kernel S) = Some (r, filp', k) \<Longrightarrow>
    drv_step fsl S (S\<lparr>kernel := k, open_files := (open_files S)(fd \<mapsto> filp'),
      ioctls := (ioctls S)(c := (case r of Inl ret \<Rightarrow> None | Inr pt' \<Rightarrow> Some (fd, pt')))\<rparr>)"

inductive_cases drv_stepE: "drv_step fsl S T"

text \<open>The module has just been loaded into a kernel whose heap may hold other objects.\<close>

definition drv_start :: "init_env \<Rightarrow> kstate \<Rightarrow> drv_system \<Rightarrow> bool" where
  "drv_start env boot S \<longleftrightarrow> (\<forall>a \<in> dom (objs boot). a < next_obj boot) \<and> kmalloc_max boot < 2 ^ 31
     \<and> sizeof_buffer_entry \<le> sizeof_semaphore env
     \<and> 0 \<le> fst (chrdev_ans env) \<and> aesd_init_module env boot = Some (0, kernel S)
     \<and> open_files S = (\<lambda>fd. None) \<and> ioctls S = (\<lambda>c. None)"

text \<open>
  The device is intact, every open file refers to it, and a call that is under way has an open file
  and indices of the ring.
\<close>

definition point_ok :: "ioctl_point \<Rightarrow> bool" where
  "point_ok pt = (case pt of Indexed (startIndex, endIndex) offset \<Rightarrow> startIndex < MAXW \<and> endIndex < MAXW
     | Counted byteCount \<Rightarrow> True)"

definition drv_inv :: "drv_system \<Rightarrow> bool" where
  "drv_inv S \<longleftrightarrow> (\<exists>cmds pend L. driver_rel 1 (kernel S) cmds pend L)
     \<and> (\<forall>fd filp. open_files S fd = Some filp \<longrightarrow> private_data filp = Some Aesd_device)
     \<and> (\<forall>c fd pt. ioctls S c = Some (fd, pt) \<longrightarrow> open_files S fd \<noteq> None \<and> point_ok pt)"

lemma aesd_open_eq: "aesd_open inode filp = (0, filp\<lparr>private_data := Some Aesd_device\<rparr>)"
  by (cases "container_of (i_cdev inode)") (simp add: aesd_open_def)

lemma drv_start_inv:
  assumes "drv_start env boot S"
  shows "drv_inv S"
proof -
  obtain r dev where ans: "chrdev_ans env = (r, dev)" by (cases "chrdev_ans env")
  from init_module_cases [of boot env r dev] assms ans
  have "driver_rel 1 (kernel S) [] [] (dom (objs boot))"
    by (auto simp: drv_start_def)
  with assms show ?thesis by (auto simp: drv_inv_def drv_start_def)
qed

text \<open>What each call does to the device, whatever its arguments.\<close>

lemma read_total:
  assumes "driver_rel 1 s cmds pend L" and "private_data filp = Some Aesd_device"
  shows "\<exists>ret ubuf pos'. aesd_read left filp count pos s = Some (ret, ubuf, pos', s)"
  using aesd_read_spec [OF assms] by (metis prod_cases3)

lemma llseek_total:
  assumes "driver_rel 1 s cmds pend L" and "private_data filp = Some Aesd_device"
  shows "\<exists>ret pos'. aesd_llseek fsl filp offset whence s = Some (ret, filp\<lparr>f_pos := pos'\<rparr>, s)"
  using aesd_llseek_spec [OF assms] by (metis surj_pair)

text \<open>The parts of the seek command, whatever happened to the device since the indices were read.\<close>

lemma ioctl_begin_total:
  assumes rel: "driver_rel 1 s cmds pend L" and opened: "private_data filp = Some Aesd_device"
  obtains (refused) ret where "ioctl_begin filp cmd arg s = Some (Inl ret)"
  | (begun) pt where "ioctl_begin filp cmd arg s = Some (Inr pt)" "point_ok pt"
proof (cases "cmd = AESDCHAR_IOCSEEKTO \<and> fst arg = 0 \<and> unat (write_cmd (snd arg)) < MAXW")
  case True
  obtain rc te lk cb t where core: "driver_core s rc te lk cb t 1 cmds pend L"
    using rel by (rule driver_relE)
  have "unat (out_offs cb) < MAXW" using core by (simp add: driver_core_def cb_hist_def cb_wf_def)
  then have "ioctl_begin filp cmd arg s = Some (Inr (Indexed (unat (out_offs cb),
      unat (ucast (out_offs cb) + write_cmd (snd arg)) mod MAXW) (write_cmd_offset (snd arg))))"
    and "point_ok (Indexed (unat (out_offs cb),
      unat (ucast (out_offs cb) + write_cmd (snd arg)) mod MAXW) (write_cmd_offset (snd arg)))"
    using True opened core_locked(4) [OF core]
    by (cases arg; simp add: ioctl_begin_def get_device_def ioctl_indices_def point_ok_def)+
  then show ?thesis by (rule begun)
next
  case False
  then have "\<exists>ret. ioctl_begin filp cmd arg s = Some (Inl ret)" by (cases arg) (auto simp: ioctl_begin_def)
  then show ?thesis using refused by blast
qed

lemma ioctl_resume_total:
  assumes rel: "driver_rel 1 s cmds pend L" and opened: "private_data filp = Some Aesd_device"
  shows "\<exists>r pos'. ioctl_resume fsl filp pt s = Some (r, filp\<lparr>f_pos := pos'\<rparr>, s)
    \<and> (\<forall>pt'. r = Inr pt' \<longrightarrow> point_ok pt')"
proof (cases pt)
  case (Indexed idx offset)
  obtain rc te lk cb t where core: "driver_core s rc te lk cb t 1 cmds pend L"
    using rel by (rule driver_relE)
  have "filp\<lparr>f_pos := f_pos filp\<rparr> = filp" by simp
  then show ?thesis
    using core_locked [OF core] opened
    by (cases idx) (auto simp: Indexed ioctl_count_def get_device_def point_ok_def intro!: exI [of _ "f_pos filp"])
next
  case (Counted byteCount)
  then show ?thesis using llseek_total [OF rel opened, of fsl byteCount SEEK_SET] by auto
qed

lemma ioctl_total:
  assumes rel: "driver_rel 1 s cmds pend L" and opened: "private_data filp = Some Aesd_device"
  shows "\<exists>ret pos'. aesd_ioctl fsl filp cmd arg s = Some (ret, filp\<lparr>f_pos := pos'\<rparr>, s)"
proof -
  have same: "filp\<lparr>f_pos := f_pos filp\<rparr> = filp" by simp
  show ?thesis
  proof (cases "cmd = AESDCHAR_IOCSEEKTO \<and> fst arg = 0 \<and> unat (write_cmd (snd arg)) < MAXW")
    case True
    moreover have arg: "arg = (0, snd arg)" using True by (simp add: prod_eq_iff)
    ultimately show ?thesis
      using aesd_ioctl_seek_spec [OF rel opened, of "snd arg" fsl] by (metis surj_pair)
  next
    case False
    then have "\<exists>ret. aesd_ioctl fsl filp cmd arg s = Some (ret, filp, s)"
      by (cases arg) (auto simp: aesd_ioctl_def)
    then show ?thesis using same by metis
  qed
qed

lemma drv_step_inv:
  assumes "drv_inv S" and "drv_step fsl S T"
  shows "drv_inv T"
proof -
  obtain cmds pend L where rel: "driver_rel 1 (kernel S) cmds pend L"
    and files: "\<And>fd filp. open_files S fd = Some filp \<Longrightarrow> private_data filp = Some Aesd_device"
    and calls: "\<And>c fd pt. ioctls S c = Some (fd, pt) \<Longrightarrow> open_files S fd \<noteq> None \<and> point_ok pt"
    using assms(1) by (auto simp: drv_inv_def)
  from assms(2) show ?thesis
  proof (cases rule: drv_step.cases)
    case (step_open inode filp fd)
    then show ?thesis using rel files calls by (auto simp: drv_inv_def aesd_open_eq)
  next
    case (step_release fd filp inode)
    then show ?thesis using rel files calls by (auto simp: drv_inv_def)
  next
    case (step_read fd filp left count ret ubuf pos k)
    then show ?thesis using rel files calls read_total [OF rel files [OF step_read(2)], of left count "f_pos filp"]
      by (auto simp: drv_inv_def)
  next
    case (step_write fd filp env ubuf count ret pos k)
    then show ?thesis
      using files calls aesd_write_refines_leak [OF rel files [OF step_write(2)], of env ubuf count "f_pos filp"]
      by (auto simp: drv_inv_def)
  next
    case (step_llseek fd filp offset whence ret filp' k)
    then show ?thesis using rel files calls llseek_total [OF rel files [OF step_llseek(2)], of fsl offset whence]
      by (auto simp: drv_inv_def)
  next
    case (step_ioctl_begin fd filp c cmd arg pt)
    have "point_ok pt"
      using step_ioctl_begin(4) ioctl_begin_total [OF rel files [OF step_ioctl_begin(2)], of cmd arg] by auto
    then show ?thesis using step_ioctl_begin rel files calls by (auto simp: drv_inv_def)
  next
    case (step_ioctl_refuse fd filp cmd arg ret)
    then show ?thesis using assms(1) by simp
  next
    case (step_ioctl_resume c fd pt filp r filp' k)
    from ioctl_resume_total [OF rel files [OF step_ioctl_resume(3)], of fsl pt] step_ioctl_resume(4)
    have "k = kernel S" "private_data filp' = Some Aesd_device" "\<forall>pt'. r = Inr pt' \<longrightarrow> point_ok pt'"
      using files [OF step_ioctl_resume(3)] by auto
    then show ?thesis using step_ioctl_resume(1) rel files calls
      by (auto simp: drv_inv_def split: sum.splits if_splits)
  qed
qed

text \<open>
  What a seek command counts when a \<open>write\<close> completed a command on a full device after the indices
  were read.
\<close>

lemma ioctl_resume_stale:
  assumes core: "driver_core s rc te lk cb t c cmds pend L" and full: "length cmds = MAXW"
    and core': "driver_core s' rc' te' lk' (added cb e) t' 1 cmds' pend' L'"
    and opened: "private_data filp = Some Aesd_device" and k: "0 < k" "k + 1 < MAXW"
  shows "ioctl_resume fsl filp (Indexed (unat (out_offs cb), (unat (out_offs cb) + k) mod MAXW) off) s' =
    Some (Inr (Counted (word_of_nat (length (last cmds') + length (concat (take (k - 1) cmds')) + unat off))),
      filp, s')"
proof -
  have wf: "cb_wf cb" using core cb_hist_wf by (simp add: driver_core_def)
  have "ring_count cb = MAXW"
    using full core_sizes [OF core] by (metis length_map length_ring_entries)
  then have f: "full cb" by (simp add: full_iff_count)
  have ring: "ring_entries (added cb e) = keep_recent MAXW (ring_entries cb) e"
    by (rule ring_entries_added [OF wf])
  note sizes = core_sizes [OF core']
  have ne: "cmds' \<noteq> []" "ring_entries (added cb e) \<noteq> []"
    using sizes ring by (auto simp: keep_recent_def)
  have "last (map entry_len (ring_entries (added cb e))) = entry_len e"
    using ne by (simp add: last_map ring keep_recent_def)
  then have e: "entry_len e = length (last cmds')" using sizes ne by (simp add: last_map)
  have pre: "sum_list (map entry_len (take (k - 1) (ring_entries (added cb e)))) = length (concat (take (k - 1) cmds'))"
    unfolding take_map [symmetric] sizes by (simp add: length_concat take_map)
  have "entry_size e = word_of_nat (length (last cmds'))" using e by (metis of_nat_unat ucast_id)
  then have "seek_loop (added cb e) ((unat (out_offs cb) + k) mod MAXW) off (unat (out_offs cb)) 0 =
      word_of_nat (length (last cmds') + length (concat (take (k - 1) cmds')) + unat off)"
    using seek_loop_stale [OF wf f k, of e off] unfolding pre by (simp add: of_nat_unat)
  then show ?thesis using core_locked [OF core'] opened
    by (simp add: ioctl_count_def get_device_def)
qed

text \<open>Every pointer of the device leads to an object of its type.\<close>

lemma holds_readable:
  assumes "holds (objs s) e bs"
  shows "load_init (buffptr e) 0 (entry_len e) s = Some bs"
  using assms load_init_slice [of s _ bs 0 "length bs"] by (auto simp: holds_def)

lemma zero_readable: "load_init (buffptr zero_entry) 0 (entry_len zero_entry) s = Some []"
  by (simp add: zero_entry_def load_init_def)

lemma core_typed:
  assumes core: "driver_core s rc te lk cb t c cmds pend L"
  shows "load_ring (circularBuffer (aesd_device s)) s = Some cb"
    and "load_entry (tempEntry (aesd_device s)) s = Some t"
    and "e \<in> set (entry cb) \<Longrightarrow> load_init (buffptr e) 0 (entry_len e) s \<noteq> None"
    and "load_init (buffptr t) 0 (entry_len t) s = Some pend"
proof -
  show "load_ring (circularBuffer (aesd_device s)) s = Some cb"
    "load_entry (tempEntry (aesd_device s)) s = Some t"
    using core by (simp_all add: driver_core_def)
  show "load_init (buffptr e) 0 (entry_len e) s \<noteq> None" if e: "e \<in> set (entry cb)"
  proof -
    have hist: "cb_hist cb" and rel: "list_all2 (holds (objs s)) (ring_entries cb) cmds"
      using core by (simp_all add: driver_core_def)
    from entries_stored [OF hist e] show ?thesis
    proof
      assume "e \<in> set (ring_entries cb)"
      then obtain i where "i < length (ring_entries cb)" "e = ring_entries cb ! i"
        by (metis in_set_conv_nth)
      with list_all2_nthD [OF rel] have "holds (objs s) e (cmds ! i)" by blast
      then show ?thesis by (simp add: holds_readable)
    qed (simp add: zero_readable)
  qed
  have "holds_temp (objs s) t pend" using core by (simp add: driver_core_def)
  then show "load_init (buffptr t) 0 (entry_len t) s = Some pend"
    using holds_readable [of s t pend] by (cases "pend = []") (auto simp: holds_temp_def load_init_def)
qed

interpretation drv: invariant_of "drv_start env boot" "drv_step fsl" drv_inv
  by unfold_locales (blast intro: drv_start_inv drv_step_inv)+

end
