(* ===== verification/Simulation.thy ===== *)
theory Simulation
  imports Prelude
begin

text \<open>
  Functional refinement, once for every component: a concrete operation that computes what an
  abstract one says, from related states to related states, does so along every sequence of
  calls. \<open>run_ops\<close> runs the concrete operation, which may fail; \<open>run_spec\<close> runs the abstract one.
\<close>

fun run_ops :: "('s \<Rightarrow> 'x \<Rightarrow> ('r \<times> 's) option) \<Rightarrow> 's \<Rightarrow> 'x list \<Rightarrow> ('r list \<times> 's) option" where
  "run_ops f s [] = Some ([], s)"
| "run_ops f s (x # xs) = do {
     (r, s1) \<leftarrow> f s x;
     (rs, s2) \<leftarrow> run_ops f s1 xs;
     Some (r # rs, s2)
   }"

fun run_spec :: "('a \<Rightarrow> 'x \<Rightarrow> 'r \<times> 'a) \<Rightarrow> 'a \<Rightarrow> 'x list \<Rightarrow> 'r list \<times> 'a" where
  "run_spec g a [] = ([], a)"
| "run_spec g a (x # xs) =
     (let (r, a1) = g a x; (rs, a2) = run_spec g a1 xs in (r # rs, a2))"

lemma length_run_spec: "length (fst (run_spec g a xs)) = length xs"
  by (induction xs arbitrary: a) (simp_all add: case_prod_beta Let_def)

locale simulates =
  fixes oper :: "'s \<Rightarrow> 'x \<Rightarrow> ('r \<times> 's) option"
    and spec :: "'a \<Rightarrow> 'x \<Rightarrow> 'r \<times> 'a"
    and rel :: "'s \<Rightarrow> 'a \<Rightarrow> bool"
  assumes step: "rel s a \<Longrightarrow> \<exists>s'. oper s x = Some (fst (spec a x), s') \<and> rel s' (snd (spec a x))"
begin

lemma runs:
  assumes "rel s a"
  shows "\<exists>s'. run_ops oper s xs = Some (fst (run_spec spec a xs), s') \<and> rel s' (snd (run_spec spec a xs))"
  using assms
proof (induction xs arbitrary: s a)
  case Nil
  then show ?case by simp
next
  case (Cons x xs)
  obtain s1 where s1: "oper s x = Some (fst (spec a x), s1)" "rel s1 (snd (spec a x))"
    using step [OF Cons.prems] by blast
  from Cons.IH [OF s1(2)] s1(1) show ?case
    by (auto simp: case_prod_beta Let_def)
qed

end

end
