(* ===== verification/DriverCalls.thy ===== *)
theory DriverCalls
  imports DriverSystem Simulation
begin

text \<open>
  Sequences of calls on open files: the driver computes, call by call, what the log says. The
  state of the abstract driver is the log and the position of each file.
\<close>

section \<open>Calls\<close>

datatype drv_call =
    Call_read nat size_t
  | Call_write write_env "char list" size_t
  | Call_llseek loff_t u32
  | Call_ioctl u32 "nat \<times> aesd_seekto"

datatype drv_result = Ret loff_t "char list"

text \<open>A call on the open file number \<open>fd\<close>, as the kernel makes it.\<close>

fun do_call ::
  "llseek_fn \<Rightarrow> kstate \<times> (nat \<Rightarrow> file) \<Rightarrow> nat \<times> drv_call
   \<Rightarrow> (drv_result \<times> kstate \<times> (nat \<Rightarrow> file)) option"
where
  "do_call fsl (s, files) (fd, Call_read left count) = do {
     (ret, ubuf, pos, s') \<leftarrow> aesd_read left (files fd) count (f_pos (files fd)) s;
     Some (Ret ret ubuf, s', files(fd := (files fd)\<lparr>f_pos := pos\<rparr>))
   }"
| "do_call fsl (s, files) (fd, Call_write env ubuf count) = do {
     (ret, pos, s') \<leftarrow> aesd_write env (files fd) ubuf count (f_pos (files fd)) s;
     Some (Ret ret [], s', files(fd := (files fd)\<lparr>f_pos := pos\<rparr>))
   }"
| "do_call fsl (s, files) (fd, Call_llseek offset whence) = do {
     (ret, filp, s') \<leftarrow> aesd_llseek fsl (files fd) offset whence s;
     Some (Ret ret [], s', files(fd := filp))
   }"
| "do_call fsl (s, files) (fd, Call_ioctl cmd arg) = do {
     (ret, filp, s') \<leftarrow> aesd_ioctl fsl (files fd) cmd arg s;
     Some (Ret ret [], s', files(fd := filp))
   }"

section \<open>The abstract driver\<close>

type_synonym abs_state = "log \<times> (nat \<Rightarrow> loff_t)"

definition spec_llseek ::
  "llseek_fn \<Rightarrow> char list list \<Rightarrow> loff_t \<Rightarrow> loff_t \<Rightarrow> u32 \<Rightarrow> loff_t \<times> loff_t" where
  "spec_llseek fsl cmds pos offset whence = fsl pos offset whence (word_of_nat (length (concat cmds)))"

definition spec_ioctl ::
  "llseek_fn \<Rightarrow> char list list \<Rightarrow> loff_t \<Rightarrow> u32 \<Rightarrow> nat \<times> aesd_seekto \<Rightarrow> loff_t \<times> loff_t" where
  "spec_ioctl fsl cmds pos cmd arg =
     (if cmd \<noteq> AESDCHAR_IOCSEEKTO then (- EINVAL, pos)
      else if fst arg \<noteq> 0 then (- EFAULT, pos)
      else if MAXW \<le> unat (write_cmd (snd arg)) then (- EINVAL, pos)
      else spec_llseek fsl cmds pos (word_of_nat (spec_seek_bytes cmds (unat (write_cmd (snd arg)))
             (unat (write_cmd_offset (snd arg))))) SEEK_SET)"

fun spec_call :: "llseek_fn \<Rightarrow> nat \<Rightarrow> abs_state \<Rightarrow> nat \<times> drv_call \<Rightarrow> drv_result \<times> abs_state" where
  "spec_call fsl limit ((cmds, pend), pos) (fd, Call_read left count) =
     (let (ret, ubuf, p) = spec_read left cmds (pos fd)
      in (Ret ret ubuf, (cmds, pend), pos(fd := p)))"
| "spec_call fsl limit (log, pos) (fd, Call_write env ubuf count) =
     (let (ret, log') = spec_write limit env ubuf (unat count) log in (Ret ret [], log', pos))"
| "spec_call fsl limit ((cmds, pend), pos) (fd, Call_llseek offset whence) =
     (let (ret, p) = spec_llseek fsl cmds (pos fd) offset whence
      in (Ret ret [], (cmds, pend), pos(fd := p)))"
| "spec_call fsl limit ((cmds, pend), pos) (fd, Call_ioctl cmd arg) =
     (let (ret, p) = spec_ioctl fsl cmds (pos fd) cmd arg
      in (Ret ret [], (cmds, pend), pos(fd := p)))"

definition call_rel :: "nat \<Rightarrow> kstate \<times> (nat \<Rightarrow> file) \<Rightarrow> abs_state \<Rightarrow> bool" where
  "call_rel limit S A \<longleftrightarrow>
     (\<exists>L. driver_rel 1 (fst S) (fst (fst A)) (snd (fst A)) L) \<and> kmalloc_max (fst S) = limit
     \<and> (\<forall>fd. private_data (snd S fd) = Some Aesd_device \<and> f_pos (snd S fd) = snd A fd)"

lemma aesd_ioctl_spec:
  assumes rel: "driver_rel 1 s cmds pend L" and opened: "private_data filp = Some Aesd_device"
    and spec: "spec_ioctl fsl cmds (f_pos filp) cmd arg = (ret, pos')"
  shows "aesd_ioctl fsl filp cmd arg s = Some (ret, filp\<lparr>f_pos := pos'\<rparr>, s)"
proof (cases "cmd = AESDCHAR_IOCSEEKTO \<and> fst arg = 0 \<and> unat (write_cmd (snd arg)) < MAXW")
  case True
  then have arg: "arg = (0, snd arg)" by (simp add: prod_eq_iff)
  from True spec have "fsl (f_pos filp) (word_of_nat (spec_seek_bytes cmds (unat (write_cmd (snd arg)))
      (unat (write_cmd_offset (snd arg))))) SEEK_SET (word_of_nat (length (concat cmds))) = (ret, pos')"
    by (simp add: spec_ioctl_def spec_llseek_def)
  with aesd_ioctl_seek_spec [where s = s and filp = filp and fsl = fsl and seekto = "snd arg",
      OF rel opened] True arg
  show ?thesis by metis
next
  case False
  moreover have "filp\<lparr>f_pos := f_pos filp\<rparr> = filp" by simp
  ultimately show ?thesis using spec
    by (cases arg) (auto simp: aesd_ioctl_def spec_ioctl_def split: if_splits)
qed

lemma do_call_simulates:
  assumes "call_rel limit S A"
  shows "\<exists>S'. do_call fsl S x = Some (fst (spec_call fsl limit A x), S')
    \<and> call_rel limit S' (snd (spec_call fsl limit A x))"
proof -
  obtain s files cmds pend pos fd c where eq: "S = (s, files)" "A = ((cmds, pend), pos)" "x = (fd, c)"
    by (metis prod.collapse)
  with assms obtain L where rel: "driver_rel 1 s cmds pend L" and lim: "kmalloc_max s = limit"
    and f: "\<And>fd. private_data (files fd) = Some Aesd_device" "\<And>fd. f_pos (files fd) = pos fd"
    by (auto simp: call_rel_def)
  show ?thesis
  proof (cases c)
    case (Call_read left count)
    obtain ret ubuf p where "spec_read left cmds (pos fd) = (ret, ubuf, p)" by (metis prod_cases3)
    with aesd_read_spec [OF rel f(1), of left "pos fd"] show ?thesis
      using rel lim f by (auto simp: eq Call_read call_rel_def)
  next
    case (Call_write env ubuf count)
    have same: "(files fd)\<lparr>f_pos := pos fd\<rparr> = files fd" using f by simp
    from aesd_write_refines_leak [OF rel f(1) [of fd], of env ubuf count "pos fd"]
    obtain ret s' cmds' pend' L' where w: "aesd_write env (files fd) ubuf count (pos fd) s = Some (ret, pos fd, s')"
      "spec_write (kmalloc_max s) env ubuf (unat count) (cmds, pend) = (ret, (cmds', pend'))"
      "driver_rel 1 s' cmds' pend' L'" "kmalloc_max s' = kmalloc_max s" by blast
    then show ?thesis using lim f by (auto simp: eq Call_write call_rel_def same fun_upd_idem)
  next
    case (Call_llseek offset whence)
    obtain ret p where "spec_llseek fsl cmds (pos fd) offset whence = (ret, p)" by fastforce
    with aesd_llseek_spec [OF rel f(1), of fsl fd offset whence ret p] show ?thesis
      using rel lim f by (auto simp: eq Call_llseek call_rel_def spec_llseek_def)
  next
    case (Call_ioctl cmd arg)
    obtain ret p where "spec_ioctl fsl cmds (pos fd) cmd arg = (ret, p)" by fastforce
    with aesd_ioctl_spec [OF rel f(1), of fsl fd cmd arg ret p] show ?thesis
      using rel lim f by (auto simp: eq Call_ioctl call_rel_def)
  qed
qed

interpretation calls: simulates "do_call fsl" "spec_call fsl limit" "call_rel limit"
  by unfold_locales (rule do_call_simulates)

end
