(* ===== verification/DriverUse.thy ===== *)
theory DriverUse
  imports DriverCalls
begin

text \<open>
  Typical uses of the driver, worked out on the abstract driver: writing complete commands,
  reading the whole device from the start, seeking with \<open>ioctl\<close> and reading there.
\<close>

section \<open>Writing complete commands\<close>

definition good_env :: write_env where
  "good_env = \<lparr>kmalloc_ok = True, user_left = 0, krealloc_ans = Realloc_moves, kmalloc0_ok = True\<rparr>"

definition write_call :: "char list \<Rightarrow> drv_call" where
  "write_call d = Call_write good_env d (word_of_nat (length d))"

lemma accepted_command: "is_command w \<Longrightarrow> accepted w = w"
  by (cases w rule: rev_cases) (auto simp: is_command_def accepted_def takeWhile_append)

lemma spec_write_command:
  assumes "is_command w" and "length w \<le> limit" and "limit < 2 ^ 31"
  shows "spec_call fsl limit ((cmds, []), pos) (fd, write_call w) =
    (Ret (word_of_nat (length w)) [], (keep_recent MAXW cmds w, []), pos)"
proof -
  have n: "unat (word_of_nat (length w) :: size_t) = length w"
    using assms by (intro unat_of_nat_small) simp
  have "newline \<in> set w" using assms(1) last_in_set [of w] by (auto simp: is_command_def)
  then show ?thesis
    using assms n
    by (simp add: write_call_def good_env_def copy_from_user_def grow_ok_def accepted_command Let_def)
qed

lemma spec_write_commands:
  assumes "\<forall>w \<in> set ws. is_command w \<and> length w \<le> limit" and "limit < 2 ^ 31"
    and "length cmds \<le> MAXW"
  shows "run_spec (spec_call fsl limit) ((cmds, []), pos) (map (\<lambda>w. (fd, write_call w)) ws) =
    (map (\<lambda>w. Ret (word_of_nat (length w)) []) ws, (lastn MAXW (cmds @ ws), []), pos)"
  using assms(1,3)
proof (induction ws arbitrary: cmds)
  case Nil
  then show ?case by (simp add: lastn_short)
next
  case (Cons w ws)
  have "length (keep_recent MAXW cmds w) \<le> MAXW" using Cons.prems by (intro length_keep_recent) simp_all
  note IH = Cons.IH [OF _ this]
  have "lastn MAXW (keep_recent MAXW cmds w @ ws) = lastn MAXW (cmds @ w # ws)"
    using keep_recent_lastn [OF Cons.prems(2), of w] lastn_lastn_append [of MAXW "cmds @ [w]" ws] by simp
  then show ?case
    using spec_write_command [of w limit fsl cmds pos fd] IH Cons.prems assms(2) by simp
qed

section \<open>Writing a command in pieces\<close>

lemma accepted_id: "newline \<notin> set d \<Longrightarrow> accepted d = d"
  by (simp add: accepted_def)

lemma accepted_last: "newline \<notin> set d \<Longrightarrow> accepted (d @ [newline]) = d @ [newline]"
  by (auto simp: accepted_def takeWhile_append)

text \<open>A \<open>write\<close> that is served in full, of bytes that end at their first newline or have none.\<close>

lemma spec_write_whole:
  assumes "newline \<notin> set (butlast d)" and "length pend + length d \<le> limit" and "limit < 2 ^ 31"
  shows "spec_call fsl limit ((cmds, pend), pos) (fd, write_call d) =
    (Ret (word_of_nat (length d)) [], log_append (cmds, pend) d, pos)"
proof -
  have n: "unat (word_of_nat (length d) :: size_t) = length d"
    using assms by (intro unat_of_nat_small) simp
  have "accepted d = d"
  proof (cases "newline \<in> set d")
    case False
    then show ?thesis by (rule accepted_id)
  next
    case True
    then obtain y where "d = y @ [newline]" "newline \<notin> set y"
      using assms(1) by (cases d rule: rev_cases) auto
    then show ?thesis by (simp add: accepted_last)
  qed
  then show ?thesis
    using assms n
    by (simp add: write_call_def good_env_def copy_from_user_def grow_ok_def Let_def del: log_append.simps)
qed

lemma spec_write_partial:
  assumes "newline \<notin> set (concat (map snd ps))" and "length pend + length (concat (map snd ps)) \<le> limit"
    and "limit < 2 ^ 31"
  shows "run_spec (spec_call fsl limit) ((cmds, pend), pos) (map (\<lambda>(fd, d). (fd, write_call d)) ps) =
    (map (\<lambda>(fd, d). Ret (word_of_nat (length d)) []) ps, (cmds, pend @ concat (map snd ps)), pos)"
  using assms(1,2)
proof (induction ps arbitrary: pend)
  case (Cons p ps)
  obtain fd d where p: "p = (fd, d)" by (cases p)
  have "newline \<notin> set (butlast d)" using Cons.prems p by (auto dest: in_set_butlastD)
  note w = spec_write_whole [OF this _ assms(3), of pend fsl cmds pos fd]
  show ?case using Cons.IH [of "pend @ d"] Cons.prems w by (simp add: p)
qed simp

lemma run_spec_append:
  "run_spec g a (xs @ ys) =
     (fst (run_spec g a xs) @ fst (run_spec g (snd (run_spec g a xs)) ys),
      snd (run_spec g (snd (run_spec g a xs)) ys))"
  by (induction xs arbitrary: a) (simp_all add: case_prod_beta Let_def)

text \<open>The piece that holds the newline of a command; the pieces after it are empty.\<close>

lemma command_pieces:
  assumes "is_command (concat (map snd ps))"
  obtains as fd d bs where "ps = as @ (fd, d) # bs" "newline \<notin> set (concat (map snd as))"
    "is_command d" "concat (map snd bs) = []"
proof -
  have "\<exists>p \<in> set ps. newline \<in> set (snd p)"
    using assms last_in_set [of "concat (map snd ps)"] by (auto simp: is_command_def)
  then obtain as p bs where ps: "ps = as @ p # bs" "newline \<in> set (snd p)"
    "\<forall>q \<in> set as. newline \<notin> set (snd q)"
    using split_list_first_prop [of ps "\<lambda>p. newline \<in> set (snd p)"] by blast
  obtain y z where d: "snd p = y @ newline # z" using ps(2) by (meson split_list)
  have rest: "z @ concat (map snd bs) = []"
  proof (rule ccontr)
    assume "z @ concat (map snd bs) \<noteq> []"
    then have "butlast (concat (map snd ps)) =
        concat (map snd as) @ y @ newline # butlast (z @ concat (map snd bs))"
      by (simp add: ps(1) d butlast_append)
    then show False using assms by (simp add: is_command_def)
  qed
  have "newline \<notin> set y"
    using assms rest by (simp add: ps(1) d is_command_def butlast_append)
  with rest have "is_command (snd p)" by (simp add: d is_command_def butlast_append)
  with ps rest show ?thesis by (intro that [of as "fst p" "snd p" bs]) auto
qed

lemma spec_write_pieces:
  assumes cmd: "is_command (concat (map snd ps))" and lim: "limit < 2 ^ 31"
    and fits: "length pend + length (concat (map snd ps)) \<le> limit"
  shows "run_spec (spec_call fsl limit) ((cmds, pend), pos) (map (\<lambda>(fd, d). (fd, write_call d)) ps) =
    (map (\<lambda>(fd, d). Ret (word_of_nat (length d)) []) ps,
     log_append (cmds, pend) (concat (map snd ps)), pos)"
proof -
  obtain as fd d bs where ps: "ps = as @ (fd, d) # bs" "newline \<notin> set (concat (map snd as))"
    "is_command d" "concat (map snd bs) = []"
    using command_pieces [OF cmd] .
  have len: "length (concat (map snd as)) + length d \<le> length (concat (map snd ps))"
    by (simp add: ps(1))
  have nl: "newline \<notin> set (butlast d)" "newline \<in> set d"
    using ps(3) last_in_set [of d] by (auto simp: is_command_def)
  have w: "spec_call fsl limit ((cmds, pend @ concat (map snd as)), pos) (fd, write_call d) =
      (Ret (word_of_nat (length d)) [], (keep_recent MAXW cmds (pend @ concat (map snd ps)), []), pos)"
    using spec_write_whole [OF nl(1) _ lim, of "pend @ concat (map snd as)" fsl cmds pos fd] fits len nl(2)
    by (simp add: ps)
  have "newline \<in> set (concat (map snd ps))" using nl(2) by (simp add: ps(1))
  then show ?thesis
    using spec_write_partial [OF ps(2) _ lim, of pend fsl cmds pos] fits len w
      spec_write_partial [where ps = bs, OF _ _ lim, of "[]" fsl _ pos] ps(4)
    unfolding ps(1) by (simp add: run_spec_append ps(4) del: concat_eq_Nil_conv)
qed

section \<open>Reading everything\<close>

lemma locate_start:
  assumes "\<forall>x \<in> set ss. 0 < x" and "k < length ss"
  shows "locate ss (sum_list (take k ss)) = Some (k, 0)"
  using assms by (simp add: locate_Some_iff)

definition read_call :: drv_call where
  "read_call = Call_read 0 1024"

lemma total_fits:
  assumes "driver_rel c s cmds pend L"
  shows "length (concat cmds) < 10 * 2 ^ 31" and "\<forall>x \<in> set cmds. x \<noteq> []" and "length cmds \<le> MAXW"
proof -
  obtain rc te lk cb t where core: "driver_core s rc te lk cb t c cmds pend L" and ok: "log_ok cmds pend"
    using assms by (rule driver_relE)
  show "length (concat cmds) < 10 * 2 ^ 31" by (rule core_total [OF core])
  show "\<forall>x \<in> set cmds. x \<noteq> []" using ok by (auto simp: log_ok_def list_all_iff is_command_def)
  show "length cmds \<le> MAXW"
    using core_sizes [OF core] ring_count_le [of cb] by (metis length_map length_ring_entries)
qed

lemma spec_read_rest:
  assumes ne: "\<forall>x \<in> set cmds. x \<noteq> []" and lim: "length (concat cmds) < 2 ^ 64"
    and pos: "pos fd = word_of_nat (length (concat (take k cmds)))" and k: "k \<le> length cmds"
  shows "fst (run_spec (spec_call fsl limit) ((cmds, pend), pos)
      (replicate (Suc (length cmds - k)) (fd, read_call))) =
    map (\<lambda>c. Ret (word_of_nat (length c)) c) (drop k cmds) @ [Ret 0 []]"
  using pos k
proof (induction "length cmds - k" arbitrary: k pos)
  case 0
  then have "unat (pos fd) = length (concat cmds)" using lim by (simp add: unat_of_nat_small)
  then have "locate (map length cmds) (unat (pos fd)) = None"
    by (simp add: locate_None_iff length_concat)
  then show ?case using 0 by (simp add: read_call_def spec_read_def)
next
  case (Suc n)
  then have k: "k < length cmds" by simp
  have le: "length (concat (take k cmds)) \<le> length (concat cmds)"
    by (metis append_take_drop_id concat_append le_add1 length_append)
  have "unat (pos fd) = sum_list (take k (map length cmds))"
    using Suc.prems lim le by (simp add: unat_of_nat_small length_concat take_map)
  then have loc: "locate (map length cmds) (unat (pos fd)) = Some (k, 0)"
    using locate_start [of "map length cmds" k] ne k by auto
  let ?pos = "pos(fd := pos fd + word_of_nat (length (cmds ! k)))"
  have step: "spec_call fsl limit ((cmds, pend), pos) (fd, read_call) =
      (Ret (word_of_nat (length (cmds ! k))) (cmds ! k), (cmds, pend), ?pos)"
    by (simp add: read_call_def spec_read_def loc)
  have "?pos fd = word_of_nat (length (concat (take (Suc k) cmds)))"
    using Suc.prems k by (simp add: take_Suc_conv_app_nth)
  note IH = Suc.hyps(1) [of "Suc k" ?pos, OF _ this]
  have d: "drop k cmds = cmds ! k # drop (Suc k) cmds" using k by (simp add: Cons_nth_drop_Suc)
  have r: "replicate (Suc (length cmds - k)) (fd, read_call)
      = (fd, read_call) # replicate (Suc (length cmds - Suc k)) (fd, read_call)"
    using Suc.hyps(2) by (metis Suc_diff_Suc k replicate_Suc)
  show ?case unfolding r d
    using IH Suc.hyps(2) k step by (simp add: case_prod_beta del: spec_call.simps replicate_Suc)
qed

section \<open>Seeking to a command\<close>

text \<open>
  What \<open>fixed_size_llseek\<close> is documented to do with an absolute offset inside the device: the
  position becomes the offset.
\<close>

definition seeks_inside :: "llseek_fn \<Rightarrow> bool" where
  "seeks_inside fsl \<longleftrightarrow>
     (\<forall>pos off size. unat off \<le> unat size \<longrightarrow> unat size < 2 ^ 63 \<longrightarrow> fsl pos off SEEK_SET size = (off, off))"

lemma prefix_fits:
  assumes "k < length xs" and "d < length (xs ! k)"
  shows "length (concat (take k xs)) + d < length (concat xs)"
proof -
  have "concat xs = concat (take k xs) @ xs ! k @ concat (drop (Suc k) xs)"
    by (metis append_take_drop_id assms(1) Cons_nth_drop_Suc concat.simps(2) concat_append)
  then have "length (concat xs) = length (concat (take k xs)) + (length (xs ! k)
      + length (concat (drop (Suc k) xs)))"
    by (metis length_append)
  then show ?thesis using assms(2) by simp
qed

lemma spec_seek_then_read:
  assumes fsl: "seeks_inside fsl" and lim: "length (concat cmds) < 10 * 2 ^ 31"
    and cmd: "unat (write_cmd seekto) < MAXW" and k: "k < length cmds" and d: "d < length (cmds ! k)"
    and seeks: "spec_seek_bytes cmds (unat (write_cmd seekto)) (unat (write_cmd_offset seekto)) =
      length (concat (take k cmds)) + d"
  defines "rest \<equiv> drop d (cmds ! k)" and "p \<equiv> word_of_nat (length (concat (take k cmds)) + d)"
  shows "fst (run_spec (spec_call fsl limit) ((cmds, pend), pos)
      [(fd, Call_ioctl AESDCHAR_IOCSEEKTO (0, seekto)), (fd, read_call)]) =
    [Ret p [], Ret (word_of_nat (length rest)) rest]"
proof -
  note fits = prefix_fits [OF k d]
  have p: "unat p = length (concat (take k cmds)) + d"
    unfolding p_def using fits lim by (intro unat_of_nat_small) simp
  have size: "unat (word_of_nat (length (concat cmds)) :: loff_t) = length (concat cmds)"
    using lim by (intro unat_of_nat_small) simp
  have "fsl (pos fd) p SEEK_SET (word_of_nat (length (concat cmds))) = (p, p)"
    using fsl p size fits lim unfolding seeks_inside_def by simp
  then have seek: "spec_ioctl fsl cmds (pos fd) AESDCHAR_IOCSEEKTO (0, seekto) = (p, p)"
    using cmd seeks by (simp add: spec_ioctl_def spec_llseek_def p_def)
  have "locate (map length cmds) (unat p) = Some (k, d)"
    using k d p by (simp add: locate_Some_iff length_concat take_map)
  then show ?thesis using seek by (simp add: read_call_def spec_read_def rest_def)
qed

section \<open>What is left behind\<close>

lemma leak_fresh: "driver_rel c s cmds pend L \<Longrightarrow> next_obj s \<notin> L"
  by (auto simp: driver_rel_def driver_core_def dom_def)

end
