(* ===== verification/DriverProperties.thy ===== *)
theory DriverProperties
  imports DriverUse
begin

text \<open>
  The properties of the circular buffer and of the driver, each followed by an instance on a
  concrete device: one with the commands \<open>ab\<close> and \<open>c\<close> stored and \<open>d\<close> begun, one with ten
  commands, and one that was just loaded.
\<close>

section \<open>Devices\<close>

definition sample_aesd_device :: aesd_dev where
  "sample_aesd_device = \<lparr>tempEntry = Obj 1, circularBuffer = Obj 0, aesd_dev_lock = Obj 2,
     cdev_of = \<lparr>cdev_owner = True, cdev_ops = True, cdev_live = True\<rparr>\<rparr>"

definition sample_cmds :: "char list list" where
  "sample_cmds = [''ab'' @ [newline], ''c'' @ [newline]]"

definition sample_ring :: aesd_circular_buffer where
  "sample_ring = \<lparr>entry = [\<lparr>buffptr = Obj 4, entry_size = 3\<rparr>, \<lparr>buffptr = Obj 6, entry_size = 2\<rparr>]
       @ replicate 8 zero_entry, in_offs = 2, out_offs = 0, full = False\<rparr>"

definition sample_objs :: "nat \<Rightarrow> kobj option" where
  "sample_objs = [0 \<mapsto> KRing sample_ring, 1 \<mapsto> KEntry \<lparr>buffptr = Obj 8, entry_size = 1\<rparr>, 2 \<mapsto> KSem 1,
     3 \<mapsto> KBytes (map Some (''ab'' @ [newline])), 4 \<mapsto> KBytes (map Some (''ab'' @ [newline])),
     5 \<mapsto> KBytes (map Some (''c'' @ [newline])), 6 \<mapsto> KBytes (map Some (''c'' @ [newline])),
     7 \<mapsto> KBytes (map Some ''d''), 8 \<mapsto> KBytes (map Some ''d'')]"

definition sample_state :: kstate where
  "sample_state = \<lparr>objs = sample_objs, next_obj = 9, kmalloc_max = 4194304,
     aesd_device = sample_aesd_device, aesd_major = 240, chrdev_regions = [MKDEV 240 0]\<rparr>"

definition open_file :: "file" where
  "open_file = \<lparr>f_pos = 0, private_data = Some Aesd_device\<rparr>"

lemma open_file_simps [simp]: "private_data open_file = Some Aesd_device" "f_pos open_file = 0"
  by (simp_all add: open_file_def)

lemma upt_10: "[0..<10] = [0, 1, 2, 3, 4, 5, 6, 7, 8, 9 :: nat]"
  by (simp add: upt_rec)

lemma sample_ring_hist: "cb_hist sample_ring"
  by (simp add: cb_hist_def cb_wf_def sample_ring_def list_all_iff)

lemma sample_ring_entries:
  "ring_entries sample_ring = [\<lparr>buffptr = Obj 4, entry_size = 3\<rparr>, \<lparr>buffptr = Obj 6, entry_size = 2\<rparr>]"
  by (simp add: ring_entries_def ring_count_def ring_idx_def sample_ring_def upt_rec)

lemma sample_rel: "driver_rel 1 sample_state sample_cmds ''d'' {3, 5, 7}"
proof (rule core_relI)
  have dom: "dom sample_objs = {0, 1, 2, 3, 4, 5, 6, 7, 8}"
    by (auto simp: sample_objs_def dom_def)
  have own: "owned sample_ring \<lparr>buffptr = Obj 8, entry_size = 1\<rparr> = [4, 6, 8]"
    by (simp add: owned_def sample_ring_entries entry_addrs_def)
  have ent: "list_all2 (holds sample_objs) (ring_entries sample_ring) sample_cmds"
    by (simp add: sample_ring_entries sample_cmds_def holds_def sample_objs_def)
  have tmp: "holds_temp sample_objs \<lparr>buffptr = Obj 8, entry_size = 1\<rparr> ''d''"
    by (simp add: holds_temp_def holds_def sample_objs_def)
  have "sample_objs 0 = Some (KRing sample_ring)" "sample_objs 2 = Some (KSem 1)"
    "sample_objs 1 = Some (KEntry \<lparr>buffptr = Obj 8, entry_size = 1\<rparr>)"
    by (simp_all add: sample_objs_def)
  then show "driver_core sample_state 0 1 2 sample_ring \<lparr>buffptr = Obj 8, entry_size = 1\<rparr> 1
      sample_cmds ''d'' {3, 5, 7}"
    by (simp add: driver_core_def sample_state_def sample_aesd_device_def dom own ent tmp
        sample_ring_hist insert_commute) (simp add: sample_cmds_def)
  show "log_ok sample_cmds ''d''"
    by (simp add: log_ok_def sample_cmds_def is_command_def)
qed

text \<open>A device just loaded into an empty kernel heap.\<close>

definition loaded_state :: kstate where
  "loaded_state = \<lparr>objs = [0 \<mapsto> KRing zero_ring, 1 \<mapsto> KEntry \<lparr>buffptr = ZERO_SIZE_PTR, entry_size = 0\<rparr>,
       2 \<mapsto> KSem 1], next_obj = 3, kmalloc_max = 4194304,
     aesd_device = sample_aesd_device, aesd_major = 240, chrdev_regions = [MKDEV 240 0]\<rparr>"

lemma loaded_rel: "driver_rel 1 loaded_state [] [] {}"
  using fresh_device_rel [of Map.empty 0 loaded_state]
  by (simp add: loaded_state_def sample_aesd_device_def del: add_2_eq_Suc')

definition sample_fsl :: llseek_fn where
  "sample_fsl pos off whence sz =
     (if whence = SEEK_SET \<and> unat off \<le> unat sz then (off, off) else (- EINVAL, pos))"

lemma sample_fsl_inside: "seeks_inside sample_fsl"
  by (simp add: seeks_inside_def sample_fsl_def)

section \<open>The circular buffer\<close>

text \<open>
  C10: Starting from an initialised buffer, adding any entries one after the other never accesses
  anything outside the entry array, and the buffer then holds exactly the last ten of them, oldest
  first (all of them if there are at most ten).
\<close>

theorem added_entries_last_ten:
  "\<exists>b' rs. run_pushes aesd_circular_buffer_add_entry (aesd_circular_buffer_init b) es = Some (b', rs)
     \<and> cb_wf b' \<and> ring_entries b' = lastn AESDCHAR_MAX_WRITE_OPERATIONS_SUPPORTED es"
  using wf_ring.run_pushes_ok [OF cb_wf_init, of b es] by auto

text \<open>
  C20: No command buffer is lost or handed back twice: along any sequence of additions, the pointers
  that \<open>aesd_circular_buffer_add_entry\<close> returned for release are those of entries which, followed
  by the entries still stored, are exactly all entries ever added, in order. A null result means
  that nothing was replaced.
\<close>

theorem added_entries_conserved:
  "\<exists>b' out. run_pushes aesd_circular_buffer_add_entry (aesd_circular_buffer_init b) es
       = Some (b', map handback_ptr out)
     \<and> concat (map (\<lambda>d. case d of None \<Rightarrow> [] | Some e \<Rightarrow> [e]) out) @ ring_entries b' = es"
  using hist_ring.run_pushes_conserves [OF cb_hist_init, of b es] by simp

text \<open>
  C15: The search finds the right byte: if the stored entries hold the byte strings \<open>bss\<close>, an offset
  inside their concatenation gives the entry and the byte offset at which that byte is, and an
  offset at or past the end gives \<open>NULL\<close> and leaves \<open>*entry_offset_byte_rtn\<close> alone.
\<close>

theorem find_entry_finds_byte:
  assumes "cb_wf b" and "map length bss = map entry_len (ring_entries b)"
  shows "if unat off < length (concat bss)
    then \<exists>k d. aesd_circular_buffer_find_entry_offset_for_fpos b off rtn
             = (Some (ring_idx b k), word_of_nat d)
           \<and> k < length bss \<and> d < length (bss ! k) \<and> bss ! k ! d = concat bss ! unat off
           \<and> unat off = length (concat (take k bss)) + d
    else aesd_circular_buffer_find_entry_offset_for_fpos b off rtn = (None, rtn)"
proof (cases "locate (map length bss) (unat off)")
  case None
  then have "length (concat bss) \<le> unat off" by (simp add: locate_None_iff length_concat)
  then show ?thesis using find_entry_locate [OF assms(1), of off rtn] None assms(2) by simp
next
  case (Some kd)
  then obtain k d where kd: "locate (map length bss) (unat off) = Some (k, d)" by (cases kd) auto
  then have l: "k < length bss" "d < length (bss ! k)" "unat off = length (concat (take k bss)) + d"
    by (auto simp: locate_Some_iff length_concat take_map)
  have "concat bss ! unat off = bss ! k ! d"
    using nth_concat_split [OF l(1,2)] l(3) by (simp add: length_concat)
  moreover have "unat off < length (concat bss)" using l prefix_fits by simp
  ultimately show ?thesis using find_entry_locate [OF assms(1), of off rtn] assms(2) kd l by auto
qed

theorem find_entry_finds_byte_witness:
  "aesd_circular_buffer_find_entry_offset_for_fpos sample_ring 3 7 = (Some 1, 0)
   \<and> concat sample_cmds ! 3 = CHR ''c''"
proof -
  have "cb_wf sample_ring" using sample_ring_hist by (rule cb_hist_wf)
  moreover have "map length sample_cmds = map entry_len (ring_entries sample_ring)"
    by (simp add: sample_ring_entries sample_cmds_def)
  ultimately obtain k d where *: "aesd_circular_buffer_find_entry_offset_for_fpos sample_ring 3 7
      = (Some (ring_idx sample_ring k), word_of_nat d)"
    "k < length sample_cmds" "d < length (sample_cmds ! k)" "3 = length (concat (take k sample_cmds)) + d"
    using find_entry_finds_byte [of sample_ring sample_cmds 3 7] by (auto simp: sample_cmds_def)
  then have "k = 1" "d = 0" by (auto simp: sample_cmds_def less_Suc_eq)
  with * show ?thesis by (simp add: ring_idx_def sample_ring_def sample_cmds_def)
qed

section \<open>The file operations\<close>

text \<open>
  C1: \<open>write\<close> does to the kernel heap what \<open>spec_write\<close> does to the log: it takes the bytes up to
  the first newline, appends them to the partial command, and on a newline stores the command,
  dropping the oldest of ten; when memory or the user's buffer fails it returns the error and
  leaves the log as it was. It never accesses memory it does not own, releases the semaphore on
  every path, and leaves no block outside the device but its temporary buffer.
\<close>

theorem aesd_write_refines:
  assumes "driver_rel 1 s cmds pend L" and "private_data filp = Some Aesd_device"
  shows "\<exists>ret s' cmds' pend'. aesd_write env filp ubuf count pos s = Some (ret, pos, s')
    \<and> spec_write (kmalloc_max s) env ubuf (unat count) (cmds, pend) = (ret, (cmds', pend'))
    \<and> driver_rel 1 s' cmds' pend'
        (if unat count \<noteq> 0 \<and> kmalloc_ok env \<and> unat count \<le> kmalloc_max s
         then insert (next_obj s) L else L)"
  using aesd_write_refines_leak [OF assms] by blast

theorem aesd_write_refines_witness:
  "\<exists>s'. aesd_write good_env open_file (''e'' @ [newline] @ ''f'') 3 0 sample_state = Some (2, 0, s')
    \<and> driver_rel 1 s' (sample_cmds @ [''de'' @ [newline]]) [] {3, 5, 7, 9}"
  using aesd_write_refines [OF sample_rel, of open_file good_env "''e'' @ [newline] @ ''f''" 3 0]
  by (auto simp: good_env_def copy_from_user_def accepted_def grow_ok_def sample_state_def
      keep_recent_def sample_cmds_def insert_commute Let_def)

text \<open>
  C9: \<open>read\<close> returns what \<open>spec_read\<close> says: the rest of the command that holds the byte at the
  position, from that byte on, and advances the position by its length; nothing at the end of the
  stored commands; and \<open>-EFAULT\<close> with the position unchanged if the user's buffer fails. The
  state of the driver does not change and the semaphore is released.
\<close>

theorem aesd_read_refines:
  assumes "driver_rel 1 s cmds pend L" and "private_data filp = Some Aesd_device"
  shows "aesd_read left filp count pos s =
    (case spec_read left cmds pos of (ret, ubuf, pos') \<Rightarrow> Some (ret, ubuf, pos', s))"
  using aesd_read_spec [OF assms] by (simp split: prod.split)

theorem aesd_read_refines_witness:
  "aesd_read 0 open_file 100 1 sample_state = Some (2, ''b'' @ [newline], 3, sample_state)"
  using aesd_read_refines [OF sample_rel, of open_file 0 100 1]
  by (simp add: spec_read_def sample_cmds_def)

text \<open>
  C3: Every sequence of \<open>read\<close>, \<open>write\<close>, \<open>llseek\<close> and \<open>ioctl\<close> calls on any number of open files
  runs to its end, and gives call by call the results and the data of the abstract driver, whose
  state is only the list of stored commands, the partial command and the file positions.
\<close>

theorem driver_calls_refine:
  assumes "call_rel limit S A"
  shows "\<exists>S'. run_ops (do_call fsl) S calls = Some (fst (run_spec (spec_call fsl limit) A calls), S')
    \<and> call_rel limit S' (snd (run_spec (spec_call fsl limit) A calls))"
  using assms by (rule calls.runs)

lemma sample_call_rel:
  "call_rel 4194304 (sample_state, \<lambda>fd. open_file) ((sample_cmds, ''d''), \<lambda>fd. 0)"
  using sample_rel by (auto simp: call_rel_def sample_state_def)

lemma loaded_call_rel: "call_rel 4194304 (loaded_state, \<lambda>fd. open_file) (([], []), \<lambda>fd. 0)"
  using loaded_rel by (auto simp: call_rel_def loaded_state_def)

theorem driver_calls_refine_witness:
  "\<exists>S'. run_ops (do_call sample_fsl) (sample_state, \<lambda>fd. open_file)
      [(1, Call_read 0 1024), (2, Call_llseek 4 SEEK_SET), (2, Call_read 0 1024), (1, Call_read 0 1024)] =
    Some ([Ret 3 (''ab'' @ [newline]), Ret 4 [], Ret 1 [newline], Ret 2 (''c'' @ [newline])], S')"
  using driver_calls_refine [OF sample_call_rel, of sample_fsl
    "[(1, Call_read 0 1024), (2, Call_llseek 4 SEEK_SET), (2, Call_read 0 1024), (1, Call_read 0 1024)]"]
  by (auto simp: spec_read_def spec_llseek_def sample_fsl_def sample_cmds_def)

text \<open>
  C11: A device that is written complete commands keeps the last ten: each \<open>write\<close> takes its whole
  command, and reading from the start afterwards gives those commands one per call, then nothing.
\<close>

theorem written_commands_read_back:
  assumes rel: "call_rel limit S (([], []), pos)" and start: "pos fd = 0" and lim: "limit < 2 ^ 31"
    and ws: "\<forall>w \<in> set ws. is_command w \<and> length w \<le> limit"
  defines "kept \<equiv> lastn AESDCHAR_MAX_WRITE_OPERATIONS_SUPPORTED ws"
  shows "\<exists>S1 S2. run_ops (do_call fsl) S (map (\<lambda>w. (fd, write_call w)) ws)
      = Some (map (\<lambda>w. Ret (word_of_nat (length w)) []) ws, S1)
    \<and> run_ops (do_call fsl) S1 (replicate (Suc (length kept)) (fd, read_call))
      = Some (map (\<lambda>c. Ret (word_of_nat (length c)) c) kept @ [Ret 0 []], S2)"
proof -
  obtain S1 where S1: "run_ops (do_call fsl) S (map (\<lambda>w. (fd, write_call w)) ws)
      = Some (map (\<lambda>w. Ret (word_of_nat (length w)) []) ws, S1)" "call_rel limit S1 ((kept, []), pos)"
    using calls.runs [OF rel, of fsl "map (\<lambda>w. (fd, write_call w)) ws"]
      spec_write_commands [OF ws lim, of "[]" fsl pos fd] by (auto simp: kept_def)
  then obtain L where "driver_rel 1 (fst S1) kept [] L" by (auto simp: call_rel_def)
  note fits = total_fits [OF this]
  have "fst (run_spec (spec_call fsl limit) ((kept, []), pos)
      (replicate (Suc (length kept - 0)) (fd, read_call))) =
    map (\<lambda>c. Ret (word_of_nat (length c)) c) (drop 0 kept) @ [Ret 0 []]"
    using fits start by (intro spec_read_rest) simp_all
  with calls.runs [OF S1(2), of fsl "replicate (Suc (length kept)) (fd, read_call)"] S1(1)
  show ?thesis by auto
qed

theorem written_commands_read_back_witness:
  "\<exists>S1 S2. run_ops (do_call sample_fsl) (loaded_state, \<lambda>fd. open_file)
      [(1, write_call (''x'' @ [newline])), (1, write_call [newline])] = Some ([Ret 2 [], Ret 1 []], S1)
    \<and> run_ops (do_call sample_fsl) S1 [(1, read_call), (1, read_call), (1, read_call)] =
      Some ([Ret 2 (''x'' @ [newline]), Ret 1 [newline], Ret 0 []], S2)"
  using written_commands_read_back [OF loaded_call_rel, where fd = 1
      and ws = "[''x'' @ [newline], [newline]]" and fsl = sample_fsl]
  by (simp add: is_command_def lastn_def numeral_3_eq_3 del: do_call.simps)

text \<open>
  C12: It makes no difference how a command is cut into pieces: writing the pieces one after the other,
  on any open files, is answered with their lengths and leaves a device that answers every further
  sequence of calls exactly as if the command had been written at once.
\<close>

theorem write_pieces_equivalent:
  assumes rel: "call_rel limit S ((cmds, pend), pos)" and lim: "limit < 2 ^ 31"
    and cmd: "is_command (concat (map snd ps))" and fits: "length pend + length (concat (map snd ps)) \<le> limit"
  shows "\<exists>S1 S2. run_ops (do_call fsl) S (map (\<lambda>(fd, d). (fd, write_call d)) ps)
      = Some (map (\<lambda>(fd, d). Ret (word_of_nat (length d)) []) ps, S1)
    \<and> do_call fsl S (fd', write_call (concat (map snd ps)))
      = Some (Ret (word_of_nat (length (concat (map snd ps)))) [], S2)
    \<and> (\<forall>calls. map_option fst (run_ops (do_call fsl) S1 calls)
        = map_option fst (run_ops (do_call fsl) S2 calls))"
proof -
  let ?A = "(log_append (cmds, pend) (concat (map snd ps)), pos)"
  obtain S1 where S1: "run_ops (do_call fsl) S (map (\<lambda>(fd, d). (fd, write_call d)) ps)
      = Some (map (\<lambda>(fd, d). Ret (word_of_nat (length d)) []) ps, S1)" "call_rel limit S1 ?A"
    using calls.runs [OF rel, of fsl "map (\<lambda>(fd, d). (fd, write_call d)) ps"]
      spec_write_pieces [OF cmd lim fits, of fsl cmds pos] by auto
  have "newline \<notin> set (butlast (concat (map snd ps)))" using cmd by (simp add: is_command_def)
  note once = spec_write_whole [OF this fits lim, of fsl cmds pos fd']
  obtain S2 where S2: "do_call fsl S (fd', write_call (concat (map snd ps)))
      = Some (Ret (word_of_nat (length (concat (map snd ps)))) [], S2)" "call_rel limit S2 ?A"
    using do_call_simulates [OF rel, of fsl "(fd', write_call (concat (map snd ps)))"] unfolding once by auto
  have "map_option fst (run_ops (do_call fsl) S1 calls) = map_option fst (run_ops (do_call fsl) S2 calls)"
    for calls
    using calls.runs [OF S1(2), of fsl calls] calls.runs [OF S2(2), of fsl calls] by auto
  with S1 S2 show ?thesis by blast
qed

theorem write_pieces_equivalent_witness:
  "\<exists>S1 S2. run_ops (do_call sample_fsl) (sample_state, \<lambda>fd. open_file)
      [(1, write_call ''x''), (2, write_call ''yz''), (1, write_call [newline])]
      = Some ([Ret 1 [], Ret 2 [], Ret 1 []], S1)
    \<and> do_call sample_fsl (sample_state, \<lambda>fd. open_file) (1, write_call (''xyz'' @ [newline]))
      = Some (Ret 4 [], S2)
    \<and> map_option fst (run_ops (do_call sample_fsl) S1 [(1, read_call)])
      = map_option fst (run_ops (do_call sample_fsl) S2 [(1, read_call)])"
  using write_pieces_equivalent [OF sample_call_rel, where fsl = sample_fsl and fd' = 1
      and ps = "[(1, ''x''), (2, ''yz''), (1, [newline])]"]
  by (auto simp: is_command_def simp del: do_call.simps run_ops.simps)

text \<open>
  C24: \<open>AESDCHAR_IOCSEEKTO\<close> for a stored command and an offset inside it returns the position of that
  byte in the concatenated commands, and the next \<open>read\<close> on the file returns that command from the
  offset on; except for the tenth command, for which it returns 0 and the next \<open>read\<close> returns the whole
  first command.
\<close>

theorem ioctl_seek_then_read:
  assumes rel: "call_rel limit S ((cmds, pend), pos)" and fsl: "seeks_inside fsl"
    and stored: "unat (write_cmd seekto) < length cmds"
      "unat (write_cmd_offset seekto) < length (cmds ! unat (write_cmd seekto))"
    and kd: "(k, d) = (if unat (write_cmd seekto) + 1 = AESDCHAR_MAX_WRITE_OPERATIONS_SUPPORTED then (0, 0)
      else (unat (write_cmd seekto), unat (write_cmd_offset seekto)))"
  shows "\<exists>S'. run_ops (do_call fsl) S
      [(fd, Call_ioctl AESDCHAR_IOCSEEKTO (0, seekto)), (fd, read_call)] =
    Some ([Ret (word_of_nat (length (concat (take k cmds)) + d)) [],
           Ret (word_of_nat (length (cmds ! k) - d)) (drop d (cmds ! k))], S')"
proof -
  obtain L where "driver_rel 1 (fst S) cmds pend L" using rel by (auto simp: call_rel_def)
  note fits = total_fits [OF this]
  have "cmds ! 0 \<in> set cmds" using stored(1) by (intro nth_mem) linarith
  then have target: "k < length cmds" "d < length (cmds ! k)"
    using kd stored fits(2) by (auto split: if_splits)
  have seeks: "spec_seek_bytes cmds (unat (write_cmd seekto)) (unat (write_cmd_offset seekto)) =
      length (concat (take k cmds)) + d"
    using kd by (auto simp: spec_seek_bytes_def split: if_splits)
  have "unat (write_cmd seekto) < MAXW" using stored(1) fits(3) by simp
  from calls.runs [OF rel, of fsl "[(fd, Call_ioctl AESDCHAR_IOCSEEKTO (0, seekto)), (fd, read_call)]"]
  show ?thesis
    unfolding spec_seek_then_read [OF fsl fits(1) \<open>unat (write_cmd seekto) < MAXW\<close> target seeks] by auto
qed

theorem ioctl_seek_then_read_witness:
  "\<exists>S'. run_ops (do_call sample_fsl) (sample_state, \<lambda>fd. open_file)
      [(1, Call_ioctl AESDCHAR_IOCSEEKTO (0, \<lparr>write_cmd = 1, write_cmd_offset = 1\<rparr>)), (1, read_call)] =
    Some ([Ret 4 [], Ret 1 [newline]], S')"
  using ioctl_seek_then_read [OF sample_call_rel sample_fsl_inside, where fd = 1
      and seekto = "\<lparr>write_cmd = 1, write_cmd_offset = 1\<rparr>" and k = 1 and d = 1]
  by (simp add: sample_cmds_def)

text \<open>
  C25: The result of \<open>ioctl\<close> in every case: \<open>-EINVAL\<close> for another command or a command number of ten
  or more, \<open>-EFAULT\<close> when the argument cannot be copied, all with the position unchanged, and
  otherwise what \<open>fixed_size_llseek\<close> makes of \<open>spec_seek_bytes\<close> and the size of all stored commands.
  The state of the driver is unchanged.
\<close>

theorem aesd_ioctl_result:
  assumes "driver_rel 1 s cmds pend L" and "private_data filp = Some Aesd_device"
  shows "aesd_ioctl fsl filp cmd arg s =
    (case spec_ioctl fsl cmds (f_pos filp) cmd arg of (ret, pos') \<Rightarrow> Some (ret, filp\<lparr>f_pos := pos'\<rparr>, s))"
  using aesd_ioctl_spec [OF assms] by (simp split: prod.split)

theorem aesd_ioctl_result_witness:
  "aesd_ioctl sample_fsl open_file AESDCHAR_IOCSEEKTO (0, \<lparr>write_cmd = 10, write_cmd_offset = 0\<rparr>)
     sample_state = Some (- EINVAL, open_file, sample_state)"
  using aesd_ioctl_result [OF sample_rel, of open_file sample_fsl AESDCHAR_IOCSEEKTO
      "(0, \<lparr>write_cmd = 10, write_cmd_offset = 0\<rparr>)"]
  by (simp add: spec_ioctl_def open_file_def)

text \<open>
  \<open>llseek\<close> gives \<open>fixed_size_llseek\<close> the sum of the ten entry sizes, which is the length of
  the stored commands put together, and returns its result; nothing but the position changes.
\<close>

lemma aesd_llseek_result:
  assumes "driver_rel 1 s cmds pend L" and "private_data filp = Some Aesd_device"
  shows "aesd_llseek fsl filp offset whence s =
    (case fsl (f_pos filp) offset whence (word_of_nat (length (concat cmds))) of
       (ret, pos') \<Rightarrow> Some (ret, filp\<lparr>f_pos := pos'\<rparr>, s))"
  using aesd_llseek_spec [OF assms] by (simp split: prod.split)

lemma aesd_llseek_result_witness:
  "aesd_llseek (\<lambda>pos off whence size. (size, off)) open_file 2 SEEK_CUR sample_state
    = Some (5, open_file\<lparr>f_pos := 2\<rparr>, sample_state)"
  using aesd_llseek_result [OF sample_rel, of open_file "\<lambda>pos off whence size. (size, off)" 2 SEEK_CUR]
  by (simp add: sample_cmds_def)

section \<open>Loading and unloading\<close>

text \<open>
  C22: Loading the module returns the error of \<open>alloc_chrdev_region\<close> if it fails, \<open>-ENOMEM\<close> if a
  \<open>kmalloc\<close> fails, and otherwise the result of \<open>cdev_add\<close>. On success the device is empty, its
  semaphore is free and its number is reserved. On failure every block it allocated is freed again;
  but a \<open>kmalloc\<close> that fails leaves the device number reserved.
\<close>

theorem init_module_result:
  assumes "\<forall>a \<in> dom (objs s). a < next_obj s" and "kmalloc_max s < 2 ^ 31"
    and "sizeof_buffer_entry \<le> sizeof_semaphore env" and "chrdev_ans env = (result, dev)"
  shows "\<exists>s'. aesd_init_module env s = Some (init_result env (kmalloc_max s), s')
    \<and> (if init_result env (kmalloc_max s) = 0 \<and> 0 \<le> result
       then driver_rel 1 s' [] [] (dom (objs s)) \<and> chrdev_regions s' = dev # chrdev_regions s
       else objs s' = objs s \<and> chrdev_regions s' =
         (if 0 \<le> result \<and> \<not> init_allocs_ok env (kmalloc_max s)
          then dev # chrdev_regions s else chrdev_regions s))"
  using init_module_cases [OF assms] by blast

definition sample_init :: init_env where
  "sample_init = \<lparr>chrdev_ans = (0, MKDEV 240 0), ring_ok = True, temp_ok = True, buf_ok = True,
     lock_ok = False, sizeof_semaphore = 24, cdev_add_ans = 0\<rparr>"

theorem init_module_result_witness:
  "\<exists>s'. aesd_init_module sample_init sample_state = Some (- 12, s') \<and> objs s' = objs sample_state
     \<and> chrdev_regions s' = [MKDEV 240 0, MKDEV 240 0]"
proof -
  have "\<forall>a \<in> dom (objs sample_state). a < next_obj sample_state"
    using sample_rel by (auto simp: driver_rel_def driver_core_def)
  then show ?thesis
    using init_module_result [of sample_state sample_init 0 "MKDEV 240 0"]
    by (simp add: sample_init_def init_result_def init_allocs_ok_def sample_state_def
        sizeof_buffer_entry_def)
qed

text \<open>
  C23: Unloading never frees a block twice or reads a freed one: it releases every stored command,
  the partial command and the three structures, and what remains in the heap is exactly what was
  not part of the device. The device number is released.
\<close>

theorem cleanup_module_frees:
  assumes "driver_rel c s cmds pend L"
  shows "\<exists>s'. aesd_cleanup_module s = Some s' \<and> dom (objs s') = L \<and> (\<forall>a \<in> L. objs s' a = objs s a)
    \<and> chrdev_regions s' = remove1 (MKDEV (aesd_major s) aesd_minor) (chrdev_regions s)"
  using cleanup_frees [OF assms] .

theorem cleanup_module_frees_witness:
  "\<exists>s'. aesd_cleanup_module sample_state = Some s' \<and> dom (objs s') = {3, 5, 7} \<and> chrdev_regions s' = []"
  using cleanup_module_frees [OF sample_rel] by (auto simp: sample_state_def aesd_minor_def)

text \<open>
  C7: From a successful load on, whatever calls are made on whatever open files, the driver's
  representation is intact, the semaphore is free between calls, and every next call returns: no
  sequence of calls leads to a bad memory access or leaves the semaphore taken. A seek command that is
  under way, whatever other calls came in between, works on indices of the ring and can go on.
  Unloading is safe.
\<close>

theorem driver_always_serves:
  assumes "reachable (drv_start env boot) (drv_step fsl) S" and "open_files S fd = Some filp"
  shows "\<exists>cmds pend L. driver_rel 1 (kernel S) cmds pend L
    \<and> aesd_read left filp count (f_pos filp) (kernel S) \<noteq> None
    \<and> aesd_write wenv filp ubuf count (f_pos filp) (kernel S) \<noteq> None
    \<and> aesd_llseek fsl filp offset whence (kernel S) \<noteq> None
    \<and> aesd_ioctl fsl filp cmd arg (kernel S) \<noteq> None
    \<and> aesd_cleanup_module (kernel S) \<noteq> None
    \<and> (\<forall>c pt. ioctls S c = Some (fd, pt) \<longrightarrow> ioctl_resume fsl filp pt (kernel S) \<noteq> None
        \<and> (\<forall>i j b. pt = Indexed (i, j) b \<longrightarrow> i < AESDCHAR_MAX_WRITE_OPERATIONS_SUPPORTED
            \<and> j < AESDCHAR_MAX_WRITE_OPERATIONS_SUPPORTED))"
proof -
  have "drv_inv S" using assms(1) by (rule drv.reachable_inv)
  then obtain cmds pend L where rel: "driver_rel 1 (kernel S) cmds pend L"
    and opened: "private_data filp = Some Aesd_device"
    and calls: "\<forall>c fd pt. ioctls S c = Some (fd, pt) \<longrightarrow> point_ok pt"
    using assms(2) by (auto simp: drv_inv_def)
  have "ioctl_resume fsl filp pt (kernel S) \<noteq> None" for pt
    using ioctl_resume_total [OF rel opened, of fsl pt] by auto
  with calls have under_way: "\<forall>c pt. ioctls S c = Some (fd, pt) \<longrightarrow> ioctl_resume fsl filp pt (kernel S) \<noteq> None
      \<and> (\<forall>i j b. pt = Indexed (i, j) b \<longrightarrow> i < MAXW \<and> j < MAXW)"
    by (fastforce simp: point_ok_def)
  show ?thesis
    using rel read_total [OF rel opened, of left count "f_pos filp"]
      aesd_write_refines_leak [OF rel opened, of wenv ubuf count "f_pos filp"]
      llseek_total [OF rel opened, of fsl offset whence] ioctl_total [OF rel opened, of fsl cmd arg]
      cleanup_frees [OF rel] under_way
    by (intro exI [of _ cmds] exI [of _ pend] exI [of _ L] conjI) auto
qed

definition boot_state :: kstate where
  "boot_state = \<lparr>objs = Map.empty, next_obj = 0, kmalloc_max = 4194304, aesd_device = zero_device,
     aesd_major = 0, chrdev_regions = []\<rparr>"

definition boot_env :: init_env where
  "boot_env = sample_init\<lparr>lock_ok := True\<rparr>"

lemma boot_start: "\<exists>k. drv_start boot_env boot_state \<lparr>kernel = k, open_files = (\<lambda>fd. None), ioctls = (\<lambda>c. None)\<rparr>"
proof -
  have "init_result boot_env (kmalloc_max boot_state) = 0"
    by (simp add: boot_env_def sample_init_def init_result_def init_allocs_ok_def boot_state_def
        sizeof_circular_buffer_def)
  with init_module_cases [of boot_state boot_env 0 "MKDEV 240 0"] show ?thesis
    by (auto simp: drv_start_def boot_env_def sample_init_def boot_state_def sizeof_buffer_entry_def)
qed

theorem driver_always_serves_witness:
  "\<exists>S. reachable (drv_start boot_env boot_state) (drv_step sample_fsl) S
     \<and> open_files S 3 = Some open_file
     \<and> aesd_write good_env open_file ''x'' 1 0 (kernel S) \<noteq> None"
proof -
  obtain k where k: "drv_start boot_env boot_state \<lparr>kernel = k, open_files = (\<lambda>fd. None), ioctls = (\<lambda>c. None)\<rparr>"
    using boot_start by blast
  have "aesd_open \<lparr>i_cdev = Cdev_in Aesd_device\<rparr> closed_file = (0, open_file)"
    by (simp add: aesd_open_def closed_file_def open_file_def)
  from step_open [OF this, of sample_fsl "\<lparr>kernel = k, open_files = (\<lambda>fd. None), ioctls = (\<lambda>c. None)\<rparr>" 3]
  have r: "reachable (drv_start boot_env boot_state) (drv_step sample_fsl)
      \<lparr>kernel = k, open_files = [3 \<mapsto> open_file], ioctls = (\<lambda>c. None)\<rparr>"
    using reach_step [where step = "drv_step sample_fsl", OF reach_start, of "drv_start boot_env boot_state", OF k] by simp
  then show ?thesis
    using driver_always_serves [OF r, of 3 open_file] by fastforce
qed

text \<open>
  C13: In every reachable state the pointers of the device lead to objects of their types: the ring has
  its ten entries and both offsets are indices of it, the semaphore is free, and each entry of the
  ring, and the partial command, points to at least as many initialised bytes as its size says.
\<close>

theorem device_well_typed:
  assumes "reachable (drv_start env boot) (drv_step fsl) S"
  shows "\<exists>cb t lk. load_ring (circularBuffer (aesd_device (kernel S))) (kernel S) = Some cb
    \<and> load_entry (tempEntry (aesd_device (kernel S))) (kernel S) = Some t
    \<and> aesd_dev_lock (aesd_device (kernel S)) = Obj lk \<and> objs (kernel S) lk = Some (KSem 1)
    \<and> length (entry cb) = AESDCHAR_MAX_WRITE_OPERATIONS_SUPPORTED
    \<and> unat (in_offs cb) < AESDCHAR_MAX_WRITE_OPERATIONS_SUPPORTED
    \<and> unat (out_offs cb) < AESDCHAR_MAX_WRITE_OPERATIONS_SUPPORTED
    \<and> (\<forall>e \<in> set (t # entry cb). load_init (buffptr e) 0 (unat (entry_size e)) (kernel S) \<noteq> None)"
proof -
  have "drv_inv S" using assms by (rule drv.reachable_inv)
  then obtain cmds pend L where "driver_rel 1 (kernel S) cmds pend L" by (auto simp: drv_inv_def)
  then obtain rc te lk cb t where core: "driver_core (kernel S) rc te lk cb t 1 cmds pend L"
    by (rule driver_relE)
  have "cb_wf cb" using core cb_hist_wf by (simp add: driver_core_def)
  moreover have "aesd_dev_lock (aesd_device (kernel S)) = Obj lk" "objs (kernel S) lk = Some (KSem 1)"
    using core by (simp_all add: driver_core_def)
  ultimately show ?thesis
    using core_typed [OF core] by (intro exI [of _ cb] exI [of _ t] exI [of _ lk]) (simp add: cb_wf_def)
qed

theorem device_well_typed_witness:
  "\<exists>k cb. reachable (drv_start boot_env boot_state) (drv_step sample_fsl) \<lparr>kernel = k, open_files = (\<lambda>fd. None), ioctls = (\<lambda>c. None)\<rparr>
     \<and> load_ring (circularBuffer (aesd_device k)) k = Some cb \<and> length (entry cb) = 10"
proof -
  obtain k where k: "drv_start boot_env boot_state \<lparr>kernel = k, open_files = (\<lambda>fd. None), ioctls = (\<lambda>c. None)\<rparr>"
    using boot_start by blast
  have "reachable (drv_start boot_env boot_state) (drv_step sample_fsl) \<lparr>kernel = k, open_files = (\<lambda>fd. None), ioctls = (\<lambda>c. None)\<rparr>"
    using k by (rule reach_start)
  from this device_well_typed [OF this] show ?thesis by auto
qed

section \<open>Behaviour that its users have to know\<close>

text \<open>
  C36: \<open>read\<close> does not look at \<open>count\<close>: when the rest of the command is longer than the buffer the
  caller offered, all of it is copied to the caller's address and the returned length exceeds
  \<open>count\<close>.
\<close>

theorem aesd_read_exceeds_count:
  assumes rel: "driver_rel 1 s cmds pend L" and opened: "private_data filp = Some Aesd_device"
    and loc: "locate (map length cmds) (unat pos) = Some (k, d)"
    and short: "unat count < length (cmds ! k) - d"
  shows "\<exists>ret ubuf pos'. aesd_read 0 filp count pos s = Some (ret, ubuf, pos', s)
    \<and> length ubuf > unat count \<and> unat ret > unat count"
proof -
  have k: "k < length cmds" using loc by (simp add: locate_Some_iff)
  obtain rc te lk cb t where core: "driver_core s rc te lk cb t 1 cmds pend L"
    using rel by (rule driver_relE)
  have "unat (word_of_nat (length (cmds ! k) - d) :: size_t) = length (cmds ! k) - d"
    using core_entry(2) [OF core k] by (intro unat_of_nat_small) simp
  moreover have "spec_read 0 cmds pos = (word_of_nat (length (cmds ! k) - d), drop d (cmds ! k),
      pos + word_of_nat (length (cmds ! k) - d))"
    using loc by (simp add: spec_read_def)
  ultimately show ?thesis using aesd_read_spec [OF rel opened, of 0 pos] short by simp
qed

theorem aesd_read_exceeds_count_witness:
  "\<exists>ret ubuf pos'. aesd_read 0 open_file 1 0 sample_state = Some (ret, ubuf, pos', sample_state)
    \<and> length ubuf > 1"
  using aesd_read_exceeds_count [OF sample_rel, of open_file 0 0 0 1]
  by (auto simp: sample_cmds_def)

text \<open>
  C37: The temporary buffer of \<open>write\<close> is never released: whatever the outcome of a \<open>write\<close> that
  got its temporary buffer, that block is still allocated after the module has been unloaded.
\<close>

theorem aesd_write_leaks:
  assumes rel: "driver_rel 1 s cmds pend L" and opened: "private_data filp = Some Aesd_device"
    and got: "unat count \<noteq> 0" "kmalloc_ok env" "unat count \<le> kmalloc_max s"
  shows "\<exists>ret s' s''. aesd_write env filp ubuf count pos s = Some (ret, pos, s')
    \<and> aesd_cleanup_module s' = Some s''
    \<and> objs s (next_obj s) = None \<and> objs s'' (next_obj s) \<noteq> None"
proof -
  obtain ret s' cmds' pend' where w: "aesd_write env filp ubuf count pos s = Some (ret, pos, s')"
    "driver_rel 1 s' cmds' pend' (insert (next_obj s) L)"
    using aesd_write_refines_leak [OF rel opened, of env ubuf count pos] got by auto
  obtain rc te lk cb t where core: "driver_core s rc te lk cb t 1 cmds pend L"
    using rel by (rule driver_relE)
  from cleanup_frees [OF w(2)] w(1) core_fresh [OF core] show ?thesis by fastforce
qed

theorem aesd_write_leaks_witness:
  "\<exists>ret s' s''. aesd_write good_env open_file ''x'' 1 0 sample_state = Some (ret, 0, s')
    \<and> aesd_cleanup_module s' = Some s'' \<and> objs s'' 9 \<noteq> None"
proof -
  have "next_obj sample_state = 9" "kmalloc_max sample_state = 4194304" by (simp_all add: sample_state_def)
  then show ?thesis
    using aesd_write_leaks [OF sample_rel, of open_file 1 good_env "''x''" 0] by (auto simp: good_env_def)
qed

text \<open>
  C35: Seeking into the last slot (\<open>write_cmd\<close> = 9) seeks to the start of the device: the loop stops
  before its first round, because the index after the end is the start, and the offset is ignored.
\<close>

theorem ioctl_last_slot_seeks_to_start:
  assumes "driver_rel 1 s cmds pend L" and "private_data filp = Some Aesd_device"
    and "write_cmd seekto = 9"
  shows "aesd_ioctl fsl filp AESDCHAR_IOCSEEKTO (0, seekto) s =
    (case fsl (f_pos filp) 0 SEEK_SET (word_of_nat (length (concat cmds))) of
       (ret, pos') \<Rightarrow> Some (ret, filp\<lparr>f_pos := pos'\<rparr>, s))"
  using aesd_ioctl_spec [OF assms(1,2), of fsl AESDCHAR_IOCSEEKTO "(0, seekto)"] assms(3)
  by (auto simp: spec_ioctl_def spec_llseek_def spec_seek_bytes_def split: prod.split)

theorem ioctl_last_slot_seeks_to_start_witness:
  "aesd_ioctl sample_fsl open_file AESDCHAR_IOCSEEKTO (0, \<lparr>write_cmd = 9, write_cmd_offset = 77\<rparr>)
     sample_state = Some (0, open_file, sample_state)"
  using ioctl_last_slot_seeks_to_start [OF sample_rel, of open_file
      "\<lparr>write_cmd = 9, write_cmd_offset = 77\<rparr>" sample_fsl]
  by (simp add: sample_fsl_def open_file_def)

text \<open>
  C34: \<open>ioctl\<close> reads the offset of the oldest command before it takes the semaphore. If a \<open>write\<close>
  completes a command on a full device in between, the position it computes for command \<open>k\<close> counts
  the newest command and the \<open>k - 1\<close> oldest ones that are left, instead of the \<open>k\<close> oldest ones.
\<close>

theorem ioctl_race_counts_newest:
  assumes rel: "driver_rel 1 s cmds pend L" and full: "length cmds = AESDCHAR_MAX_WRITE_OPERATIONS_SUPPORTED"
    and opened: "private_data filp = Some Aesd_device" "private_data wfilp = Some Aesd_device"
    and k: "0 < unat (write_cmd seekto)" "unat (write_cmd seekto) + 1 < AESDCHAR_MAX_WRITE_OPERATIONS_SUPPORTED"
    and w: "is_command w" "length pend + length w \<le> kmalloc_max s"
  shows "\<exists>pt s' L'. ioctl_begin filp AESDCHAR_IOCSEEKTO (0, seekto) s = Some (Inr pt)
    \<and> aesd_write good_env wfilp w (word_of_nat (length w)) pos s = Some (word_of_nat (length w), pos, s')
    \<and> driver_rel 1 s' (tl cmds @ [pend @ w]) [] L'
    \<and> ioctl_resume fsl filp pt s' = Some (Inr (Counted (word_of_nat (length (pend @ w)
        + length (concat (take (unat (write_cmd seekto) - 1) (tl cmds))) + unat (write_cmd_offset seekto)))), filp, s')"
proof -
  let ?k = "unat (write_cmd seekto)" and ?cmds = "tl cmds @ [pend @ w]"
  obtain rc te lk cb t where core: "driver_core s rc te lk cb t 1 cmds pend L"
    using rel by (rule driver_relE)
  have out: "unat (out_offs cb) < 10" "kmalloc_max s < 2 ^ 31"
    using core by (simp_all add: driver_core_def cb_hist_def cb_wf_def)
  have "unat (out_offs cb) + ?k < 2 ^ 32" using out k by simp
  then have e: "unat (ucast (out_offs cb) + write_cmd seekto) = unat (out_offs cb) + ?k"
    by (simp add: unat_word_ariths unat_ucast_up)
  have begun: "ioctl_begin filp AESDCHAR_IOCSEEKTO (0, seekto) s = Some (Inr (Indexed (unat (out_offs cb),
      (unat (out_offs cb) + ?k) mod MAXW) (write_cmd_offset seekto)))"
    using opened(1) k(2) core_locked(4) [OF core] e
    by (simp add: ioctl_begin_def get_device_def ioctl_indices_def)
  have n: "unat (word_of_nat (length w) :: size_t) = length w" "length w < 2 ^ 31"
    using w(2) out(2) by (auto intro: unat_of_nat_small)
  have nl: "newline \<in> set w" using w(1) last_in_set [of w] by (auto simp: is_command_def)
  have "spec_write (kmalloc_max s) good_env w (length w) (cmds, pend) = (word_of_nat (length w), (?cmds, []))"
    using w nl full by (simp add: good_env_def copy_from_user_def grow_ok_def accepted_command keep_recent_def Let_def)
  with aesd_write_effect [OF rel opened(2), of good_env w "word_of_nat (length w)" pos] n
  obtain s' L' where s': "aesd_write good_env wfilp w (word_of_nat (length w)) pos s = Some (word_of_nat (length w), pos, s')"
    "driver_rel 1 s' ?cmds [] L'" "ring_step True s s'"
    using nl count_not_error [OF n(2)] by auto
  obtain rc' te' lk' cb' t' where core': "driver_core s' rc' te' lk' cb' t' 1 ?cmds [] L'"
    using s'(2) by (rule driver_relE)
  obtain x where "cb' = added cb x"
    using s'(3) core_ring [OF core] core_ring [OF core'] by (auto simp: ring_step_def)
  from ioctl_resume_stale [OF core full core' [unfolded this] opened(1) k, of fsl "write_cmd_offset seekto"]
  have "ioctl_resume fsl filp (Indexed (unat (out_offs cb), (unat (out_offs cb) + ?k) mod MAXW)
      (write_cmd_offset seekto)) s' = Some (Inr (Counted (word_of_nat (length (pend @ w)
        + length (concat (take (?k - 1) (tl cmds))) + unat (write_cmd_offset seekto)))), filp, s')"
    using k(2) full by simp
  with begun s'(1,2) show ?thesis by blast
qed

theorem ioctl_race_counts_newest_witness:
  "\<exists>s pt s'. ioctl_begin open_file AESDCHAR_IOCSEEKTO (0, \<lparr>write_cmd = 1, write_cmd_offset = 0\<rparr>) s = Some (Inr pt)
    \<and> aesd_write good_env open_file (''xy'' @ [newline]) 3 0 s = Some (3, 0, s')
    \<and> ioctl_resume sample_fsl open_file pt s' = Some (Inr (Counted 3), open_file, s')"
proof -
  let ?ws = "replicate 10 [newline]"
  obtain S where S: "call_rel 4194304 S ((lastn MAXW ([] @ ?ws), []), \<lambda>fd. 0)"
    using calls.runs [OF loaded_call_rel, of sample_fsl "map (\<lambda>w. (1, write_call w)) ?ws"]
      spec_write_commands [of ?ws 4194304 "[]" sample_fsl "\<lambda>fd. 0" 1]
    by (auto simp: is_command_def simp del: replicate.simps map_replicate)
  then obtain L where rel: "driver_rel 1 (fst S) ?ws [] L" and "kmalloc_max (fst S) = 4194304"
    by (auto simp: call_rel_def lastn_def)
  with ioctl_race_counts_newest [OF rel, of open_file open_file "\<lparr>write_cmd = 1, write_cmd_offset = 0\<rparr>"
      "''xy'' @ [newline]" 0 sample_fsl]
  show ?thesis by (auto simp: is_command_def intro!: exI [of _ "fst S"])
qed

end
