(* ===== verification/LogDevice.thy ===== *)
theory LogDevice
  imports Driver
begin

text \<open>
  What a user process sees of an open file: the system calls, their results, and the contract
  that the socket server relies on for the file it logs to. The driver meets the contract
  (\<open>ServerOnDriver\<close>), and so does a regular file opened for appending (\<open>ServerOnFile\<close>).
\<close>

section \<open>System calls on an open file\<close>

text \<open>A system call gives an error number or a value.\<close>

type_synonym 'a sys = "nat + 'a"

definition EINTR :: nat where "EINTR = 4"
definition EBADF :: nat where "EBADF = 9"

text \<open>
  The operations of an open file with state \<open>'d\<close>: \<open>read\<close> gives the bytes that were stored at the
  caller's address, \<open>write\<close> the number of bytes taken. \<open>None\<close> is a call that does not return.
\<close>

record 'd file_ops =
  op_read :: "'d \<Rightarrow> nat \<Rightarrow> (char list sys \<times> 'd) option"
  op_write :: "'d \<Rightarrow> char list \<Rightarrow> (nat sys \<times> 'd) option"
  op_lseek :: "'d \<Rightarrow> int \<Rightarrow> u32 \<Rightarrow> (int sys \<times> 'd) option"
  op_ioctl :: "'d \<Rightarrow> u32 \<Rightarrow> aesd_seekto \<Rightarrow> (loff_t sys \<times> 'd) option"
  op_fsync :: "'d \<Rightarrow> (unit sys \<times> 'd) option"

definition BUFFER_SIZE :: nat where "BUFFER_SIZE = 1024"

section \<open>The contract\<close>

text \<open>
  \<open>rep d log p\<close>: the open file \<open>d\<close> holds the packets \<open>log\<close> and is at position \<open>p\<close> of their
  concatenation. \<open>put\<close> says which packets are held, and where the file is, after one more is written;
  \<open>jump\<close> says where a seek command leads, and \<open>limit\<close> bounds the packets the file takes.
\<close>

locale log_device =
  fixes ops :: "'d file_ops"
    and rep :: "'d \<Rightarrow> char list list \<Rightarrow> nat \<Rightarrow> bool"
    and put :: "char list list \<Rightarrow> nat \<Rightarrow> char list \<Rightarrow> char list list \<times> nat"
    and jump :: "char list list \<Rightarrow> nat \<Rightarrow> aesd_seekto \<Rightarrow> nat"
    and limit :: nat
  assumes read_law: "rep d log p \<Longrightarrow> \<exists>chunk d'. op_read ops d BUFFER_SIZE = Some (Inr chunk, d')
        \<and> length chunk \<le> BUFFER_SIZE \<and> (\<exists>rest. drop p (concat log) = chunk @ rest)
        \<and> (chunk = [] \<longrightarrow> length (concat log) \<le> p) \<and> rep d' log (p + length chunk)"
    and write_law: "rep d log p \<Longrightarrow> is_command x \<Longrightarrow> length x \<le> limit \<Longrightarrow>
        \<exists>d'. op_write ops d x = Some (Inr (length x), d') \<and> rep d' (fst (put log p x)) (snd (put log p x))"
    and tell_law: "rep d log p \<Longrightarrow> op_lseek ops d 0 SEEK_CUR = Some (Inr (int p), d)"
    and seek_law: "rep d log q \<Longrightarrow> q = max p (length (concat log)) \<Longrightarrow>
        \<exists>r d'. op_lseek ops d (int p) SEEK_SET = Some (r, d') \<and> rep d' log p"
    and ioctl_law: "rep d log p \<Longrightarrow>
        \<exists>r d'. op_ioctl ops d AESDCHAR_IOCSEEKTO args = Some (r, d') \<and> rep d' log (jump log p args)"
    and fsync_law: "rep d log p \<Longrightarrow> \<exists>r d'. op_fsync ops d = Some (r, d') \<and> rep d' log p"

end
