(* ===== verification/Server.thy ===== *)
theory Server
  imports LogDevice
begin

text \<open>
  The socket server, \<open>server/aesdsocket.c\<close>: the code that one client thread runs. The state of a
  thread holds the open log file, what has been sent to the client, the lock around the log, the
  last error number, the number of heap blocks in use and the descriptors closed so far. What
  \<open>printf\<close> writes to the terminal is left out.

  The answers of the operating system are arguments: \<open>plan\<close> gives the answer to each \<open>write\<close> on
  the socket, \<open>realloc_ok\<close> says which buffer sizes can be had. A failing \<open>write\<close> is one that returns
  an error. A write to a connection that the client has closed also raises SIGPIPE; the code neither
  ignores nor handles that signal, so it ends the whole process, and this is not in the model. A loop that the code may leave
  running for ever is a partial function; \<open>None\<close> is also an access outside a buffer, and waiting
  for a lock the thread itself holds.
\<close>

section \<open>State\<close>

datatype write_answer = Takes nat | Write_fails nat

record 'd thread_state =
  log_file :: 'd
  sent :: "char list"
  sock_writes :: nat
  log_locked :: bool
  sys_errno :: nat
  blocks :: nat
  closed :: "int list"

text \<open>A thread that has just been started with an open log file.\<close>

definition new_thread :: "'d \<Rightarrow> 'd thread_state" where
  "new_thread d = \<lparr>log_file = d, sent = [], sock_writes = 0, log_locked = False, sys_errno = 0,
     blocks = 0, closed = []\<rparr>"

lemma new_thread_simps [simp]:
  "log_file (new_thread d) = d" "sent (new_thread d) = []" "log_locked (new_thread d) = False"
  "blocks (new_thread d) = 0" "closed (new_thread d) = []"
  by (simp_all add: new_thread_def)

definition pthread_mutex_lock :: "'d thread_state \<Rightarrow> 'd thread_state option" where
  "pthread_mutex_lock s = (if log_locked s then None else Some (s\<lparr>log_locked := True\<rparr>))"

definition pthread_mutex_unlock :: "'d thread_state \<Rightarrow> 'd thread_state" where
  "pthread_mutex_unlock s = s\<lparr>log_locked := False\<rparr>"

text \<open>\<open>write\<close> on the socket takes at most what it is given.\<close>

definition sock_write ::
  "(nat \<Rightarrow> write_answer) \<Rightarrow> char list \<Rightarrow> 'd thread_state \<Rightarrow> nat sys \<times> 'd thread_state" where
  "sock_write plan bytes s =
     (let s1 = s\<lparr>sock_writes := Suc (sock_writes s)\<rparr>
      in case plan (sock_writes s) of
           Takes n \<Rightarrow> (Inr (min n (length bytes)), s1\<lparr>sent := sent s @ take n bytes\<rparr>)
         | Write_fails e \<Rightarrow> (Inl e, s1\<lparr>sys_errno := e\<rparr>))"

text \<open>A system call on the log file; an error number goes to \<open>errno\<close>.\<close>

definition file_call ::
  "('d \<Rightarrow> ('a sys \<times> 'd) option) \<Rightarrow> 'd thread_state \<Rightarrow> ('a sys \<times> 'd thread_state) option" where
  "file_call f s = do {
     (r, d) \<leftarrow> f (log_file s);
     Some (r, case r of Inl e \<Rightarrow> s\<lparr>log_file := d, sys_errno := e\<rparr> | Inr v \<Rightarrow> s\<lparr>log_file := d\<rparr>)
   }"

section \<open>Sending the log back\<close>

text \<open>The inner loop of \<open>sendFileToSocket\<close>: the bytes of \<open>chunk\<close> from \<open>bytes_written\<close> on.\<close>

partial_function (option) send_chunk ::
  "(nat \<Rightarrow> write_answer) \<Rightarrow> char list \<Rightarrow> nat \<Rightarrow> 'd thread_state \<Rightarrow> (nat option \<times> 'd thread_state) option"
where
  "send_chunk plan chunk bytes_written s =
     (if bytes_written < length chunk then
        (case sock_write plan (drop bytes_written chunk) s of
           (Inl e, s1) \<Rightarrow> if e = EINTR then send_chunk plan chunk bytes_written s1 else Some (None, s1)
         | (Inr n, s1) \<Rightarrow> send_chunk plan chunk (bytes_written + n) s1)
      else Some (Some bytes_written, s))"

text \<open>
  The outer loop; the result is \<open>None\<close> for the early \<open>return -1\<close> and the total_bytes otherwise. \<open>read\<close>
  may store no more than the buffer on the stack can hold.
\<close>

partial_function (option) send_loop ::
  "'d file_ops \<Rightarrow> (nat \<Rightarrow> write_answer) \<Rightarrow> nat \<Rightarrow> 'd thread_state \<Rightarrow> (nat option \<times> 'd thread_state) option"
where
  "send_loop ops plan total_bytes s =
     Option.bind (file_call (\<lambda>d. op_read ops d BUFFER_SIZE) s) (\<lambda>(r, s1).
       (case r of
          Inl e \<Rightarrow> Some (None, s1)
        | Inr chunk \<Rightarrow>
            if length chunk > BUFFER_SIZE then None
            else if chunk = [] then Some (Some total_bytes, s1)
            else Option.bind (send_chunk plan chunk 0 s1) (\<lambda>(w, s2).
              (case w of
                 None \<Rightarrow> Some (None, s2)
               | Some n \<Rightarrow> send_loop ops plan (total_bytes + n) s2))))"

definition sendFileToSocket ::
  "'d file_ops \<Rightarrow> (nat \<Rightarrow> write_answer) \<Rightarrow> 'd thread_state \<Rightarrow> (int \<times> 'd thread_state) option" where
  "sendFileToSocket ops plan s = do {
     (r, s1) \<leftarrow> file_call (\<lambda>d. op_lseek ops d 0 SEEK_CUR) s;
     let ExternalPosition = (case r of Inl e \<Rightarrow> - 1 | Inr p \<Rightarrow> p);
     (w, s2) \<leftarrow> send_loop ops plan 0 s1;
     (case w of
        None \<Rightarrow> Some (- 1, s2)
      | Some total_bytes \<Rightarrow> do {
          (r', s3) \<leftarrow> file_call (\<lambda>d. op_lseek ops d ExternalPosition SEEK_SET) s2;
          Some (int total_bytes, s3)
        })
   }"

section \<open>Seek commands\<close>

text \<open>
  \<open>sscanf\<close> with the format \<open>AESDCHAR_IOCSEEKTO:%u,%u\<close>: a number may follow white space and a sign
  and is converted as by \<open>strtoul\<close>, then stored in 32 bits.
\<close>

definition is_space :: "char \<Rightarrow> bool" where
  "is_space c \<longleftrightarrow> c \<in> set [CHR '' '', CHR 0x09, CHR 0x0A, CHR 0x0B, CHR 0x0C, CHR 0x0D]"

definition digit_value :: "char \<Rightarrow> nat" where
  "digit_value c = length (takeWhile (\<lambda>x. x \<noteq> c) digits)"

definition strtoul_value :: "bool \<Rightarrow> nat \<Rightarrow> nat" where
  "strtoul_value neg v =
     (if v \<ge> 2 ^ 64 then 2 ^ 64 - 1 else if neg then (2 ^ 64 - v) mod 2 ^ 64 else v)"

definition scan_u :: "char list \<Rightarrow> (u32 \<times> char list) option" where
  "scan_u str =
     (let s = dropWhile is_space str;
          neg = (case s of c # _ \<Rightarrow> c = CHR ''-'' | [] \<Rightarrow> False);
          s1 = (case s of c # cs \<Rightarrow> if c = CHR ''-'' \<or> c = CHR ''+'' then cs else s | [] \<Rightarrow> s);
          ds = takeWhile (\<lambda>c. c \<in> set digits) s1
      in if ds = [] then None
         else Some (word_of_nat (strtoul_value neg (foldl (\<lambda>v c. v * 10 + digit_value c) 0 ds)),
                    dropWhile (\<lambda>c. c \<in> set digits) s1))"

definition seek_prefix :: "char list" where
  "seek_prefix = ''AESDCHAR_IOCSEEKTO:''"

definition sscanf_seekto :: "char list \<Rightarrow> aesd_seekto option" where
  "sscanf_seekto str =
     (if take 19 str = seek_prefix then do {
        (a, r) \<leftarrow> scan_u (drop 19 str);
        (case r of
           c # r1 \<Rightarrow> if c = CHR '','' then do {
               (b, r2) \<leftarrow> scan_u r1;
               Some \<lparr>write_cmd = a, write_cmd_offset = b\<rparr>
             } else None
         | [] \<Rightarrow> None)
      } else None)"

text \<open>
  Reading a string from the buffer: its bytes up to the terminating zero, all of which must have
  been written.
\<close>

fun c_string :: "char option list \<Rightarrow> char list option" where
  "c_string [] = None"
| "c_string (None # bs) = None"
| "c_string (Some c # bs) = (if c = nul then Some [] else map_option ((#) c) (c_string bs))"

section \<open>Receiving\<close>

text \<open>
  The loop that writes a packet to the log. \<open>write\<close> returning nothing is treated like an error,
  with whatever error number an earlier call has left.
\<close>

partial_function (option) write_loop ::
  "'d file_ops \<Rightarrow> char list \<Rightarrow> nat \<Rightarrow> 'd thread_state \<Rightarrow> 'd thread_state option"
where
  "write_loop ops packet total_written s =
     (if total_written < length packet then
        Option.bind (file_call (\<lambda>d. op_write ops d (drop total_written packet)) s) (\<lambda>(r, s1).
          (let written = (case r of Inl e \<Rightarrow> 0 | Inr n \<Rightarrow> n)
           in if written = 0 then
                (if sys_errno s1 = EINTR then write_loop ops packet total_written s1 else Some s1)
              else write_loop ops packet (total_written + written) s1))
      else Some s)"

text \<open>A complete packet of \<open>len\<close> bytes in the buffer: store it or seek, then send the log back.\<close>

definition seek_log :: "'d file_ops \<Rightarrow> aesd_seekto \<Rightarrow> 'd thread_state \<Rightarrow> 'd thread_state option" where
  "seek_log ops args s = do {
     s1 \<leftarrow> pthread_mutex_lock s;
     (r, s2) \<leftarrow> file_call (\<lambda>d. op_ioctl ops d AESDCHAR_IOCSEEKTO args) s1;
     Some (pthread_mutex_unlock s2)
   }"

definition store_packet :: "'d file_ops \<Rightarrow> char list \<Rightarrow> 'd thread_state \<Rightarrow> 'd thread_state option" where
  "store_packet ops packet s = do {
     s1 \<leftarrow> pthread_mutex_lock s;
     s2 \<leftarrow> write_loop ops packet 0 s1;
     (r, s3) \<leftarrow> file_call (op_fsync ops) s2;
     Some (pthread_mutex_unlock s3)
   }"

definition send_back ::
  "'d file_ops \<Rightarrow> (nat \<Rightarrow> write_answer) \<Rightarrow> 'd thread_state \<Rightarrow> 'd thread_state option" where
  "send_back ops plan s = do {
     s1 \<leftarrow> pthread_mutex_lock s;
     (r, s2) \<leftarrow> sendFileToSocket ops plan s1;
     Some (pthread_mutex_unlock s2)
   }"

definition process_packet ::
  "'d file_ops \<Rightarrow> (nat \<Rightarrow> write_answer) \<Rightarrow> char option list \<Rightarrow> nat \<Rightarrow> 'd thread_state
   \<Rightarrow> 'd thread_state option"
where
  "process_packet ops plan buffer len s = do {
     str \<leftarrow> c_string buffer;
     packet \<leftarrow> those (take len buffer);
     s1 \<leftarrow> (if take 19 str = seek_prefix
             then (case sscanf_seekto str of None \<Rightarrow> Some s | Some args \<Rightarrow> seek_log ops args s)
             else store_packet ops packet s);
     send_back ops plan s1
   }"

text \<open>\<open>buffer[i] = c\<close>.\<close>

definition buf_store :: "nat \<Rightarrow> char \<Rightarrow> char option list \<Rightarrow> char option list option" where
  "buf_store i c buffer = (if i < length buffer then Some (buffer[i := Some c]) else None)"

text \<open>
  The receive loop, on the bytes the client sends until it closes the connection or an error ends
  it. The block at \<open>buffer\<close> has \<open>buf_size\<close> bytes, the length of the list; no block has \<open>2 ^ 63\<close> bytes, so
  the doubling of the size does not wrap. A \<open>recv\<close> that waits for ever is in \<open>ServerPieces\<close>, where a client
  may stay silent.
\<close>

fun recv_loop ::
  "'d file_ops \<Rightarrow> (nat \<Rightarrow> write_answer) \<Rightarrow> (nat \<Rightarrow> bool) \<Rightarrow> char list \<Rightarrow> char option list \<Rightarrow> nat
   \<Rightarrow> 'd thread_state \<Rightarrow> 'd thread_state option"
where
  "recv_loop ops plan realloc_ok [] buffer len s = Some (s\<lparr>blocks := blocks s - 1\<rparr>)"
| "recv_loop ops plan realloc_ok (ch # input) buffer len s =
     (let grows = (len \<ge> length buffer); new_size = length buffer * 2
      in if grows \<and> \<not> realloc_ok new_size then Some (s\<lparr>blocks := blocks s - 1\<rparr>)
         else do {
           let b0 = (if grows then buffer @ replicate (length buffer) None else buffer);
           b1 \<leftarrow> buf_store len ch b0;
           if ch = newline then do {
             b2 \<leftarrow> buf_store (len + 1) nul b1;
             s1 \<leftarrow> process_packet ops plan b2 (len + 1) s;
             recv_loop ops plan realloc_ok input b2 0 s1
           }
           else recv_loop ops plan realloc_ok input b1 (len + 1) s
         })"

definition receivePackets ::
  "'d file_ops \<Rightarrow> (nat \<Rightarrow> write_answer) \<Rightarrow> bool \<Rightarrow> (nat \<Rightarrow> bool) \<Rightarrow> char list \<Rightarrow> 'd thread_state
   \<Rightarrow> 'd thread_state option"
where
  "receivePackets ops plan malloc_ok realloc_ok input s =
     (if malloc_ok
      then recv_loop ops plan realloc_ok input (replicate BUFFER_SIZE None) 0 (s\<lparr>blocks := blocks s + 1\<rparr>)
      else Some s)"

text \<open>The thread function, with its two descriptors.\<close>

record thread_args =
  file_fd :: int
  client_fd :: int

definition client_handler ::
  "'d file_ops \<Rightarrow> (nat \<Rightarrow> write_answer) \<Rightarrow> bool \<Rightarrow> (nat \<Rightarrow> bool) \<Rightarrow> thread_args \<Rightarrow> char list
   \<Rightarrow> 'd thread_state \<Rightarrow> 'd thread_state option"
where
  "client_handler ops plan malloc_ok realloc_ok args input s = do {
     s1 \<leftarrow> receivePackets ops plan malloc_ok realloc_ok input s;
     Some (s1\<lparr>closed := closed s1 @ [client_fd args, file_fd args]\<rparr>)
   }"

end
