(* ===== verification/ServerLoops.thy ===== *)
theory ServerLoops
  imports Server
begin

text \<open>
  The loops of a client thread, on any log file that meets the contract \<open>log_device\<close> and any
  socket that keeps taking bytes: they end, and what the client is sent is known.
\<close>

section \<open>The socket\<close>

text \<open>
  A socket that is only ever interrupted, and that takes at least a byte again and again. The
  bytes need not be taken at once.
\<close>

definition productive :: "(nat \<Rightarrow> write_answer) \<Rightarrow> bool" where
  "productive plan \<longleftrightarrow>
     (\<forall>i e. plan i = Write_fails e \<longrightarrow> e = EINTR)
     \<and> (\<forall>i. \<exists>j \<ge> i. \<exists>n > 0. plan j = Takes n)"

text \<open>What the loops may change: \<open>after d bytes k e s\<close>.\<close>

definition after :: "'d \<Rightarrow> char list \<Rightarrow> nat \<Rightarrow> nat \<Rightarrow> 'd thread_state \<Rightarrow> 'd thread_state" where
  "after d bytes k e s = s\<lparr>log_file := d, sent := sent s @ bytes, sock_writes := k, sys_errno := e\<rparr>"

lemma after_simps [simp]:
  "log_file (after d b k e s) = d" "sent (after d b k e s) = sent s @ b"
  "sock_writes (after d b k e s) = k" "sys_errno (after d b k e s) = e"
  "log_locked (after d b k e s) = log_locked s" "blocks (after d b k e s) = blocks s"
  "closed (after d b k e s) = closed s"
  "after d' b' k' e' (after d b k e s) = after d' (b @ b') k' e' s"
  by (simp_all add: after_def)

lemma after_self: "after (log_file s) [] (sock_writes s) (sys_errno s) s = s"
  by (simp add: after_def)

lemma sock_write_cases:
  assumes "productive plan"
  obtains (interrupted) "sock_write plan bytes s =
      (Inl EINTR, after (log_file s) [] (Suc (sock_writes s)) EINTR s)"
      "\<exists>e. plan (sock_writes s) = Write_fails e"
  | (taken) n where "plan (sock_writes s) = Takes n"
      "sock_write plan bytes s = (Inr (min n (length bytes)),
         after (log_file s) (take n bytes) (Suc (sock_writes s)) (sys_errno s) s)"
proof (cases "plan (sock_writes s)")
  case (Takes n)
  then show ?thesis by (intro taken) (simp_all, cases s, simp add: sock_write_def after_def)
next
  case (Write_fails e)
  moreover have "e = EINTR" using assms Write_fails by (auto simp: productive_def)
  ultimately show ?thesis by (intro interrupted) (simp_all add: sock_write_def after_def)
qed

lemma send_chunk_done: "length chunk \<le> w \<Longrightarrow> send_chunk plan chunk w s = Some (Some w, s)"
  by (subst send_chunk.simps) simp

lemma send_chunk_step:
  "w < length chunk \<Longrightarrow> send_chunk plan chunk w s =
    (case sock_write plan (drop w chunk) s of
       (Inl e, s1) \<Rightarrow> if e = EINTR then send_chunk plan chunk w s1 else Some (None, s1)
     | (Inr n, s1) \<Rightarrow> send_chunk plan chunk (w + n) s1)"
  by (subst send_chunk.simps) simp

lemma send_chunk_all:
  fixes s :: "'d thread_state"
  assumes prod: "productive plan" and "w \<le> length chunk"
  shows "\<exists>k e. send_chunk plan chunk w s =
    Some (Some (length chunk), after (log_file s) (drop w chunk) k e s)"
  using assms(2)
proof (induction "length chunk - w" arbitrary: w s rule: less_induct)
  case less
  show ?case
  proof (cases "w = length chunk")
    case True
    then show ?thesis using send_chunk_done [of chunk w plan s] after_self [of s] by (metis drop_all order_refl)
  next
    case False
    then have w: "w < length chunk" using less.prems by simp
    have outer: "\<exists>k e. send_chunk plan chunk w s' =
        Some (Some (length chunk), after (log_file s') (drop w chunk) k e s')"
      if step: "sock_write plan (drop w chunk) s' = (Inr (min n (length (drop w chunk))),
          after (log_file s') (take n (drop w chunk)) (Suc (sock_writes s')) (sys_errno s') s')"
        and n: "n > 0" for s' :: "'d thread_state" and n
    proof -
      let ?m = "min n (length chunk - w)"
      have "length chunk - (w + ?m) < length chunk - w" "w + ?m \<le> length chunk"
        using w n by auto
      from less.hyps [OF this, of "after (log_file s') (take n (drop w chunk)) (Suc (sock_writes s')) (sys_errno s') s'"]
      have "\<exists>k e. send_chunk plan chunk (w + ?m) (after (log_file s') (take n (drop w chunk))
          (Suc (sock_writes s')) (sys_errno s') s') = Some (Some (length chunk),
            after (log_file s') (take n (drop w chunk) @ drop (w + ?m) chunk) k e s')" by simp
      moreover have "take n (drop w chunk) @ drop (w + ?m) chunk = drop w chunk"
        by (cases "n \<le> length chunk - w") (simp_all add: add.commute min_def append_take_drop_id
            flip: drop_drop)
      ultimately show ?thesis using send_chunk_step [OF w, of plan s'] step by simp
    qed
    obtain j where j: "j \<ge> sock_writes s" "\<exists>n > 0. plan j = Takes n"
      using prod unfolding productive_def by blast
    show ?thesis using j(1)
    proof (induction "j - sock_writes s" arbitrary: s)
      case 0
      then obtain n where "plan (sock_writes s) = Takes n" "n > 0" using j(2) by auto
      then show ?case using outer [of s n] by (auto simp: sock_write_def after_def)
    next
      case (Suc i)
      show ?case
      proof (cases rule: sock_write_cases [OF prod, of "drop w chunk" s])
        case 1
        let ?s = "after (log_file s) [] (Suc (sock_writes s)) EINTR s"
        have "i = j - sock_writes ?s" "sock_writes ?s \<le> j" using Suc by simp_all
        from Suc.hyps(1) [OF this] show ?thesis using 1 send_chunk_step [OF w, of plan s] by simp
      next
        case (2 n)
        show ?thesis
        proof (cases "n = 0")
          case True
          let ?s = "after (log_file s) [] (Suc (sock_writes s)) (sys_errno s) s"
          have "i = j - sock_writes ?s" "sock_writes ?s \<le> j" using Suc by simp_all
          from Suc.hyps(1) [OF this] show ?thesis using 2 True send_chunk_step [OF w, of plan s] by simp
        next
          case False
          then show ?thesis using outer [OF 2(2)] by simp
        qed
      qed
    qed
  qed
qed

section \<open>The log file\<close>

lemma file_call_after:
  assumes "f (log_file s) = Some (r, d)"
  shows "\<exists>e. file_call f s = Some (r, after d [] (sock_writes s) e s)"
  using assms by (cases r; cases s) (auto simp: file_call_def after_def)

lemma send_loop_step:
  "send_loop ops plan n s = do {
     (r, s1) \<leftarrow> file_call (\<lambda>d. op_read ops d BUFFER_SIZE) s;
     (case r of
        Inl e \<Rightarrow> Some (None, s1)
      | Inr chunk \<Rightarrow>
          if length chunk > BUFFER_SIZE then None
          else if chunk = [] then Some (Some n, s1)
          else do {
            (w, s2) \<leftarrow> send_chunk plan chunk 0 s1;
            (case w of None \<Rightarrow> Some (None, s2) | Some m \<Rightarrow> send_loop ops plan (n + m) s2)
          })
   }"
  by (subst send_loop.simps) simp

lemma write_loop_step:
  "write_loop ops packet w s =
     (if w < length packet then do {
        (r, s1) \<leftarrow> file_call (\<lambda>d. op_write ops d (drop w packet)) s;
        let written = (case r of Inl e \<Rightarrow> 0 | Inr n \<Rightarrow> n);
        if written = 0 then
          (if sys_errno s1 = EINTR then write_loop ops packet w s1 else Some s1)
        else write_loop ops packet (w + written) s1
      }
      else Some s)"
  by (subst write_loop.simps) simp

context log_device
begin

lemma send_loop_all:
  assumes prod: "productive plan" and "rep (log_file s) log p"
  shows "\<exists>d k e. send_loop ops plan n s =
      Some (Some (n + length (drop p (concat log))), after d (drop p (concat log)) k e s)
    \<and> rep d log (max p (length (concat log)))"
  using assms(2)
proof (induction "length (concat log) - p" arbitrary: p n s rule: less_induct)
  case less
  obtain chunk d rest where r: "op_read ops (log_file s) BUFFER_SIZE = Some (Inr chunk, d)"
    "length chunk \<le> BUFFER_SIZE" "drop p (concat log) = chunk @ rest"
    "chunk = [] \<longrightarrow> length (concat log) \<le> p" "rep d log (p + length chunk)"
    using read_law [OF less.prems] by blast
  obtain e where c: "file_call (\<lambda>d. op_read ops d BUFFER_SIZE) s
      = Some (Inr chunk, after d [] (sock_writes s) e s)"
    using file_call_after [where f = "\<lambda>d. op_read ops d BUFFER_SIZE", OF r(1)] by blast
  show ?case
  proof (cases "chunk = []")
    case True
    then have "drop p (concat log) = []" "max p (length (concat log)) = p" using r by auto
    then show ?thesis using send_loop_step [of ops plan n s] c r True by auto
  next
    case False
    obtain k1 e1 where w: "send_chunk plan chunk 0 (after d [] (sock_writes s) e s)
        = Some (Some (length chunk), after d chunk k1 e1 s)"
      using send_chunk_all [OF prod, of 0 chunk "after d [] (sock_writes s) e s"] by auto
    have len: "length (drop p (concat log)) = length chunk + length rest" using r(3) by simp
    have rest: "rest = drop (p + length chunk) (concat log)"
      using r(3) by (metis add.commute append_eq_conv_conj drop_drop)
    have "0 < length chunk" using False by simp
    then have m: "length (concat log) - (p + length chunk) < length (concat log) - p"
      "max (p + length chunk) (length (concat log)) = max p (length (concat log))"
      using len unfolding length_drop by arith+
    from less.hyps [OF m(1), of "after d chunk k1 e1 s" "n + length chunk"] r(5)
    obtain d2 k2 e2 where i: "send_loop ops plan (n + length chunk) (after d chunk k1 e1 s) =
        Some (Some (n + length chunk + length rest), after d2 (chunk @ rest) k2 e2 s)"
      "rep d2 log (max p (length (concat log)))"
      unfolding rest [symmetric] m(2) by auto
    then show ?thesis
      using send_loop_step [of ops plan n s] c w r(2,3) False by (auto simp: add.assoc)
  qed
qed

lemma sendFileToSocket_all:
  assumes prod: "productive plan" and rep: "rep (log_file s) log p"
  shows "\<exists>d k e. sendFileToSocket ops plan s =
      Some (int (length (drop p (concat log))), after d (drop p (concat log)) k e s)
    \<and> rep d log p"
proof -
  obtain e0 where tell: "file_call (\<lambda>d. op_lseek ops d 0 SEEK_CUR) s
      = Some (Inr (int p), after (log_file s) [] (sock_writes s) e0 s)"
    using file_call_after [where f = "\<lambda>d. op_lseek ops d 0 SEEK_CUR", OF tell_law [OF rep]] by blast
  obtain d1 k1 e1 where loop: "send_loop ops plan 0 (after (log_file s) [] (sock_writes s) e0 s) =
      Some (Some (length (drop p (concat log))), after d1 (drop p (concat log)) k1 e1 s)"
    "rep d1 log (max p (length (concat log)))"
    using send_loop_all [OF prod, of "after (log_file s) [] (sock_writes s) e0 s" log p 0] rep by auto
  obtain r d2 where seek: "op_lseek ops d1 (int p) SEEK_SET = Some (r, d2)" "rep d2 log p"
    using seek_law [OF loop(2) refl] by blast
  obtain e2 where "file_call (\<lambda>d. op_lseek ops d (int p) SEEK_SET)
      (after d1 (drop p (concat log)) k1 e1 s) = Some (r, after d2 (drop p (concat log)) k1 e2 s)"
    using file_call_after [where f = "\<lambda>d. op_lseek ops d (int p) SEEK_SET"
        and s = "after d1 (drop p (concat log)) k1 e1 s"] seek(1) by auto
  then show ?thesis using tell loop seek by (auto simp: sendFileToSocket_def)
qed

lemma write_loop_packet:
  assumes rep: "rep (log_file s) log p" and x: "is_command x" "length x \<le> limit"
  shows "\<exists>d e. write_loop ops x 0 s = Some (after d [] (sock_writes s) e s) \<and> rep d (fst (put log p x)) (snd (put log p x))"
proof -
  obtain d where w: "op_write ops (log_file s) x = Some (Inr (length x), d)" "rep d (fst (put log p x)) (snd (put log p x))"
    using write_law [OF rep x] by blast
  obtain e where c: "file_call (\<lambda>d. op_write ops d x) s
      = Some (Inr (length x), after d [] (sock_writes s) e s)"
    using file_call_after [where f = "\<lambda>d. op_write ops d x", OF w(1)] by blast
  have "0 < length x" using x by (auto simp: is_command_def)
  then show ?thesis
    using write_loop_step [of ops x 0 s] c w(2)
      write_loop_step [of ops x "length x" "after d [] (sock_writes s) e s"]
    by auto
qed

end

end
