(* ===== verification/ServerSession.thy ===== *)
theory ServerSession
  imports ServerLoops
begin

text \<open>
  A whole session of a client: the packets it sends, however the bytes arrive, and the replies it
  gets. \<open>serve\<close> says what a session means on the log; the lemmas show that a client thread computes
  it, for every log file that meets the contract.
\<close>

section \<open>The abstract session\<close>

text \<open>The packet as a C string, and what it does to the log and the position.\<close>

definition packet_string :: "char list \<Rightarrow> char list" where
  "packet_string x = takeWhile (\<lambda>c. c \<noteq> nul) x"

text \<open>A packet that is not a seek command.\<close>

definition is_text :: "char list \<Rightarrow> bool" where
  "is_text x \<longleftrightarrow> take 19 (packet_string x) \<noteq> seek_prefix"

definition after_packet ::
  "(char list list \<Rightarrow> nat \<Rightarrow> char list \<Rightarrow> char list list \<times> nat) \<Rightarrow> (char list list \<Rightarrow> nat \<Rightarrow> aesd_seekto \<Rightarrow> nat)
   \<Rightarrow> char list \<Rightarrow> char list list \<Rightarrow> nat \<Rightarrow> char list list \<times> nat"
where
  "after_packet put jump x log p =
     (if take 19 (packet_string x) = seek_prefix
      then (case sscanf_seekto (packet_string x) of
              None \<Rightarrow> (log, p)
            | Some args \<Rightarrow> (log, jump log p args))
      else put log p x)"

fun serve ::
  "(char list list \<Rightarrow> nat \<Rightarrow> char list \<Rightarrow> char list list \<times> nat) \<Rightarrow> (char list list \<Rightarrow> nat \<Rightarrow> aesd_seekto \<Rightarrow> nat)
   \<Rightarrow> char list list \<Rightarrow> char list list \<Rightarrow> nat \<Rightarrow> char list list \<times> char list list \<times> nat"
where
  "serve put jump [] log p = ([], log, p)"
| "serve put jump (x # xs) log p =
     (let (log1, p1) = after_packet put jump x log p;
          (replies, log2, p2) = serve put jump xs log1 p1
      in (drop p1 (concat log1) # replies, log2, p2))"

text \<open>The size of a buffer of \<open>b\<close> bytes once it holds \<open>n\<close> bytes: doubled as often as needed.\<close>

function grown :: "nat \<Rightarrow> nat \<Rightarrow> nat" where
  "grown b n = (if b = 0 \<or> n \<le> b then b else grown (b * 2) n)"
  by pat_completeness auto
termination by (relation "measure (\<lambda>(b, n). n - b)") auto

declare grown.simps [simp del]

text \<open>
  Each packet leaves room for the terminating zero in the buffer it is received in: its length is
  not exactly the size of the buffer.
\<close>

fun fits :: "nat \<Rightarrow> char list list \<Rightarrow> bool" where
  "fits b [] = True"
| "fits b (x # xs) = (length x < grown b (length x) \<and> fits (grown b (length x)) xs)"

lemma grown_ge: "0 < b \<Longrightarrow> n \<le> grown b n \<and> b \<le> grown b n"
proof (induction b n rule: grown.induct)
  case (1 b n)
  then show ?case by (subst (1 2) grown.simps) auto
qed

lemma grown_small: "n \<le> b \<Longrightarrow> grown b n = b"
  by (subst grown.simps) simp

lemma grown_grown: "0 < b \<Longrightarrow> m \<le> n \<Longrightarrow> grown (grown b m) n = grown b n"
proof (induction b m rule: grown.induct)
  case (1 b m)
  show ?case
  proof (cases "m \<le> b")
    case True
    then show ?thesis by (simp add: grown_small)
  next
    case False
    then have "grown b m = grown (b * 2) m" "grown b n = grown (b * 2) n"
      using 1 by (subst grown.simps; simp)+
    then show ?thesis using 1 False by simp
  qed
qed

lemma fits_short: "\<forall>x \<in> set xs. length x < b \<Longrightarrow> fits b xs"
  by (induction xs) (auto simp: grown_small)

section \<open>The buffer\<close>

lemma c_string_packet: "c_string (map Some x @ Some nul # r) = Some (packet_string x)"
  by (induction x) (auto simp: packet_string_def)

text \<open>One byte more in a buffer that holds \<open>z\<close>.\<close>

lemma buffer_push:
  assumes "take len buffer = map Some z" and "length z = len" and "0 < length buffer"
  defines "b0 \<equiv> (if len \<ge> length buffer then buffer @ replicate (length buffer) None else buffer)"
  shows "\<exists>b1. buf_store len c b0 = Some b1 \<and> take (len + 1) b1 = map Some (z @ [c])
    \<and> length b1 = grown (length buffer) (len + 1)"
proof -
  have len: "len \<le> length buffer" using assms(1,2) by (metis length_map length_take min.cobounded1 nat_le_linear take_all)
  have g: "length b0 = grown (length buffer) (len + 1)"
  proof (cases "len \<ge> length buffer")
    case True
    then show ?thesis using len assms(3)
      by (subst grown.simps) (simp add: b0_def grown_small)
  next
    case False
    then show ?thesis by (simp add: b0_def grown_small)
  qed
  have lt: "len < length b0" using len assms(3) by (auto simp: b0_def)
  have "take len b0 = map Some z" using assms(1) len by (auto simp: b0_def)
  then have "take (len + 1) (b0[len := Some c]) = map Some (z @ [c])"
    using lt by (simp add: take_Suc_conv_app_nth)
  then show ?thesis using lt g by (auto simp: buf_store_def)
qed

lemma recv_prefix:
  assumes "\<And>n. realloc_ok n" and "newline \<notin> set y"
    and "take len buffer = map Some z" and "length z = len" and "0 < length buffer"
  shows "\<exists>b. recv_loop ops plan realloc_ok (y @ rest) buffer len s
        = recv_loop ops plan realloc_ok rest b (len + length y) s
    \<and> take (len + length y) b = map Some (z @ y) \<and> length b = grown (length buffer) (len + length y)"
  using assms(2-)
proof (induction y arbitrary: buffer len z)
  case Nil
  then have "len \<le> length buffer" by (metis length_map length_take min.cobounded1 nat_le_linear take_all)
  with Nil show ?case by (auto simp: grown_small)
next
  case (Cons c y)
  obtain b1 where b1: "buf_store len c (if len \<ge> length buffer
        then buffer @ replicate (length buffer) None else buffer) = Some b1"
      "take (len + 1) b1 = map Some (z @ [c])" "length b1 = grown (length buffer) (len + 1)"
    using buffer_push [OF Cons.prems(2-4)] by blast
  have step: "recv_loop ops plan realloc_ok ((c # y) @ rest) buffer len s
      = recv_loop ops plan realloc_ok (y @ rest) b1 (len + 1) s"
    using b1(1) assms(1) Cons.prems(1) by (auto simp: Let_def)
  have "0 < length b1" using b1(3) grown_ge [OF Cons.prems(4), of "len + 1"] by simp
  from Cons.IH [OF _ b1(2) _ this] Cons.prems
  obtain b where b: "recv_loop ops plan realloc_ok (y @ rest) b1 (len + 1) s
      = recv_loop ops plan realloc_ok rest b (len + 1 + length y) s"
    "take (len + 1 + length y) b = map Some ((z @ [c]) @ y)"
    "length b = grown (length b1) (len + 1 + length y)" by auto
  have "grown (length b1) (len + 1 + length y) = grown (length buffer) (len + 1 + length y)"
    unfolding b1(3) by (rule grown_grown) (use Cons.prems in auto)
  with b step show ?case by (intro exI [of _ b]) (simp add: add.commute add.left_commute)
qed

text \<open>A packet that fits is processed with its bytes and a zero after them in the buffer.\<close>

lemma recv_packet:
  assumes ok: "\<And>n. realloc_ok n" and x: "is_command x" and pos: "0 < length buffer"
    and room: "length x < grown (length buffer) (length x)"
  shows "\<exists>r. recv_loop ops plan realloc_ok (x @ rest) buffer 0 s =
      Option.bind (process_packet ops plan (map Some x @ Some nul # r) (length x) s)
        (recv_loop ops plan realloc_ok rest (map Some x @ Some nul # r) 0)
    \<and> length (map Some x @ Some nul # r) = grown (length buffer) (length x)"
proof -
  obtain y where y: "x = y @ [newline]" "newline \<notin> set y"
    using x by (cases x rule: rev_cases) (auto simp: is_command_def)
  obtain b where b: "recv_loop ops plan realloc_ok (y @ newline # rest) buffer 0 s
      = recv_loop ops plan realloc_ok (newline # rest) b (length y) s"
    "take (length y) b = map Some y" "length b = grown (length buffer) (length y)"
    using recv_prefix [where z = "[]" and len = 0 and realloc_ok = realloc_ok, OF ok y(2) _ _ pos,
        of ops plan "newline # rest" s] by auto
  have "0 < length b" unfolding b(3) using grown_ge [OF pos, of "length y"] pos by linarith
  from buffer_push [OF b(2) refl this, of newline]
  obtain b1 where b1: "buf_store (length y) newline (if length y \<ge> length b
        then b @ replicate (length b) None else b) = Some b1"
    "take (length x) b1 = map Some x" "length b1 = grown (length b) (length x)"
    by (auto simp: y(1))
  have len: "length b1 = grown (length buffer) (length x)"
    unfolding b1(3) b(3) by (rule grown_grown) (use pos y in auto)
  define b2 where "b2 = b1[length x := Some nul]"
  have st: "buf_store (length y + 1) nul b1 = Some b2"
    using room len by (simp add: buf_store_def b2_def y(1))
  have shape: "b2 = map Some x @ Some nul # drop (Suc (length x)) b1"
    using room len b1(2) by (simp add: b2_def upd_conv_take_nth_drop)
  have run: "recv_loop ops plan realloc_ok (x @ rest) buffer 0 s =
      Option.bind (process_packet ops plan b2 (length x) s) (recv_loop ops plan realloc_ok rest b2 0)"
    using b(1) b1(1) st ok by (simp add: y(1) Let_def)
  have "length b2 = grown (length buffer) (length x)" using len by (simp add: b2_def)
  with run shape show ?thesis by metis
qed

section \<open>Sessions\<close>

lemma lock_unlocked:
  "\<not> log_locked s \<Longrightarrow> pthread_mutex_lock s = Some (s\<lparr>log_locked := True\<rparr>)"
  by (simp add: pthread_mutex_lock_def)

lemma unlock_after:
  "\<not> log_locked s \<Longrightarrow> pthread_mutex_unlock (after d b k e (s\<lparr>log_locked := True\<rparr>)) = after d b k e s"
  by (cases s) (simp add: pthread_mutex_unlock_def after_def)

context log_device
begin

lemma send_back_all:
  assumes prod: "productive plan" and rep: "rep (log_file s) log p" and free: "\<not> log_locked s"
  shows "\<exists>d k e. send_back ops plan s = Some (after d (drop p (concat log)) k e s) \<and> rep d log p"
proof -
  obtain d k e where "sendFileToSocket ops plan (s\<lparr>log_locked := True\<rparr>) =
      Some (int (length (drop p (concat log))), after d (drop p (concat log)) k e (s\<lparr>log_locked := True\<rparr>))"
    "rep d log p"
    using sendFileToSocket_all [OF prod, of "s\<lparr>log_locked := True\<rparr>" log p] rep by auto
  then have "send_back ops plan s = Some (after d (drop p (concat log)) k e s)" "rep d log p"
    by (simp_all add: send_back_def lock_unlocked [OF free] unlock_after [OF free])
  then show ?thesis by blast
qed

lemma store_packet_ok:
  assumes rep: "rep (log_file s) log p" and free: "\<not> log_locked s"
    and x: "is_command x" "length x \<le> limit"
  shows "\<exists>d k e. store_packet ops x s = Some (after d [] k e s) \<and> rep d (fst (put log p x)) (snd (put log p x))"
proof -
  obtain d e where w: "write_loop ops x 0 (s\<lparr>log_locked := True\<rparr>) =
      Some (after d [] (sock_writes s) e (s\<lparr>log_locked := True\<rparr>))" "rep d (fst (put log p x)) (snd (put log p x))"
    using write_loop_packet [of "s\<lparr>log_locked := True\<rparr>" log p, OF _ x] rep by auto
  obtain r d' where f: "op_fsync ops d = Some (r, d')" "rep d' (fst (put log p x)) (snd (put log p x))"
    using fsync_law [OF w(2)] by blast
  obtain e' where "file_call (op_fsync ops) (after d [] (sock_writes s) e (s\<lparr>log_locked := True\<rparr>)) =
      Some (r, after d' [] (sock_writes s) e' (s\<lparr>log_locked := True\<rparr>))"
    using file_call_after [where f = "op_fsync ops"
        and s = "after d [] (sock_writes s) e (s\<lparr>log_locked := True\<rparr>)"] f(1) by auto
  with w have "store_packet ops x s = Some (after d' [] (sock_writes s) e' s)"
    by (simp add: store_packet_def lock_unlocked [OF free] unlock_after [OF free])
  with f(2) show ?thesis by blast
qed

lemma seek_log_ok:
  assumes rep: "rep (log_file s) log p" and free: "\<not> log_locked s"
  shows "\<exists>d k e. seek_log ops args s = Some (after d [] k e s) \<and> rep d log (jump log p args)"
proof -
  obtain r d where i: "op_ioctl ops (log_file s) AESDCHAR_IOCSEEKTO args = Some (r, d)"
    "rep d log (jump log p args)" using ioctl_law [OF rep] by blast
  obtain e where "file_call (\<lambda>d. op_ioctl ops d AESDCHAR_IOCSEEKTO args) (s\<lparr>log_locked := True\<rparr>) =
      Some (r, after d [] (sock_writes s) e (s\<lparr>log_locked := True\<rparr>))"
    using file_call_after [where f = "\<lambda>d. op_ioctl ops d AESDCHAR_IOCSEEKTO args"
        and s = "s\<lparr>log_locked := True\<rparr>"] i(1) by auto
  then have "seek_log ops args s = Some (after d [] (sock_writes s) e s)"
    by (simp add: seek_log_def lock_unlocked [OF free] unlock_after [OF free])
  with i(2) show ?thesis by blast
qed

lemma process_packet_ok:
  assumes prod: "productive plan" and rep: "rep (log_file s) log p" and free: "\<not> log_locked s"
    and x: "is_command x" "length x \<le> limit"
    and upd: "after_packet put jump x log p = (log', p')"
  shows "\<exists>d k e. process_packet ops plan (map Some x @ Some nul # r) (length x) s =
      Some (after d (drop p' (concat log')) k e s) \<and> rep d log' p'"
proof -
  have "\<exists>d k e. (if take 19 (packet_string x) = seek_prefix
      then (case sscanf_seekto (packet_string x) of None \<Rightarrow> Some s | Some args \<Rightarrow> seek_log ops args s)
      else store_packet ops x s) = Some (after d [] k e s) \<and> rep d log' p'"
  proof (cases "take 19 (packet_string x) = seek_prefix")
    case False
    then show ?thesis using upd store_packet_ok [OF rep free x] by (simp add: after_packet_def)
  next
    case True
    show ?thesis
    proof (cases "sscanf_seekto (packet_string x)")
      case None
      then have "log' = log" "p' = p" using True upd by (simp_all add: after_packet_def)
      with rep True None show ?thesis
        by (intro exI [of _ "log_file s"] exI [of _ "sock_writes s"] exI [of _ "sys_errno s"])
           (simp add: after_self)
    next
      case (Some args)
      then show ?thesis using True upd seek_log_ok [OF rep free, of args] by (auto simp: after_packet_def)
    qed
  qed
  then obtain d k e where s1: "(if take 19 (packet_string x) = seek_prefix
      then (case sscanf_seekto (packet_string x) of None \<Rightarrow> Some s | Some args \<Rightarrow> seek_log ops args s)
      else store_packet ops x s) = Some (after d [] k e s)" "rep d log' p'" by blast
  from send_back_all [OF prod, of "after d [] k e s" log' p'] s1(2) free
  obtain d' k' e' where "send_back ops plan (after d [] k e s)
      = Some (after d' (drop p' (concat log')) k' e' s)" "rep d' log' p'" by auto
  then show ?thesis using s1(1) by (auto simp: process_packet_def c_string_packet)
qed

lemma recv_packets:
  assumes prod: "productive plan" and ok: "\<And>n. realloc_ok n"
    and xs: "\<forall>x \<in> set xs. is_command x \<and> length x \<le> limit" and tl: "newline \<notin> set tail"
    and "rep (log_file s) log p" and "\<not> log_locked s"
    and "fits (length buffer) xs" and "0 < length buffer"
  shows "\<exists>d k e. recv_loop ops plan realloc_ok (concat xs @ tail) buffer 0 s =
      Some ((after d (concat (fst (serve put jump xs log p))) k e s)\<lparr>blocks := blocks s - 1\<rparr>)
    \<and> rep d (fst (snd (serve put jump xs log p))) (snd (snd (serve put jump xs log p)))"
  using xs assms(5-)
proof (induction xs arbitrary: log p s buffer)
  case Nil
  from recv_prefix [where z = "[]" and len = 0 and realloc_ok = realloc_ok, OF ok tl _ _ Nil(5),
      of ops plan "[]" s]
  have "recv_loop ops plan realloc_ok tail buffer 0 s = Some (s\<lparr>blocks := blocks s - 1\<rparr>)" by auto
  with Nil(2) show ?case
    by (intro exI [of _ "log_file s"] exI [of _ "sock_writes s"] exI [of _ "sys_errno s"])
       (simp add: after_self)
next
  case (Cons x xs)
  obtain log1 p1 where upd: "after_packet put jump x log p = (log1, p1)" by fastforce
  have x: "is_command x" "length x \<le> limit" using Cons.prems by simp_all
  obtain r where r: "recv_loop ops plan realloc_ok (x @ concat xs @ tail) buffer 0 s =
      Option.bind (process_packet ops plan (map Some x @ Some nul # r) (length x) s)
        (recv_loop ops plan realloc_ok (concat xs @ tail) (map Some x @ Some nul # r) 0)"
    "length (map Some x @ Some nul # r) = grown (length buffer) (length x)"
    using recv_packet [of realloc_ok x buffer ops plan "concat xs @ tail" s] ok x Cons.prems by auto
  obtain d k e where d: "process_packet ops plan (map Some x @ Some nul # r) (length x) s =
      Some (after d (drop p1 (concat log1)) k e s)" "rep d log1 p1"
    using process_packet_ok [OF prod Cons.prems(2,3) x upd] by blast
  let ?s = "after d (drop p1 (concat log1)) k e s"
  have "\<exists>d' k' e'. recv_loop ops plan realloc_ok (concat xs @ tail) (map Some x @ Some nul # r) 0 ?s =
      Some ((after d' (concat (fst (serve put jump xs log1 p1))) k' e' ?s)\<lparr>blocks := blocks ?s - 1\<rparr>)
    \<and> rep d' (fst (snd (serve put jump xs log1 p1))) (snd (snd (serve put jump xs log1 p1)))"
    by (rule Cons.IH) (use Cons.prems d r(2) in auto)
  then show ?case using r(1) d(1) by (auto simp: upd case_prod_beta)
qed

end

end
