(* ===== verification/ServerSafety.thy ===== *)
theory ServerSafety
  imports ServerSession
begin

text \<open>
  What holds of a client thread on any log file and any socket, contract or not: what the loops
  leave alone, and that the lock is balanced.
\<close>

section \<open>What the loops leave alone\<close>

text \<open>The lock, the heap and the descriptors; what was sent only grows.\<close>

definition frame :: "'d thread_state \<Rightarrow> 'd thread_state \<Rightarrow> bool" where
  "frame s t \<longleftrightarrow> log_locked t = log_locked s \<and> blocks t = blocks s \<and> closed t = closed s
     \<and> (\<exists>bs. sent t = sent s @ bs)"

lemma frame_refl [simp, intro]: "frame s s"
  by (simp add: frame_def)

lemma frame_trans [trans]: "frame s t \<Longrightarrow> frame t u \<Longrightarrow> frame s u"
  by (auto simp: frame_def)

lemma frame_sock_write: "sock_write plan bs s = (r, t) \<Longrightarrow> frame s t"
  by (auto simp: sock_write_def frame_def Let_def split: write_answer.splits)

lemma frame_file_call: "file_call f s = Some (r, t) \<Longrightarrow> frame s t"
  by (cases r) (auto simp: file_call_def frame_def bind_eq_Some_conv)

lemma frame_send_chunk: "send_chunk plan chunk w s = Some y \<Longrightarrow> frame s (snd y)"
proof (induction rule: send_chunk.raw_induct [rotated, consumes 1, case_names step])
  case (step rec plan chunk w s y)
  show ?case
  proof (cases "w < length chunk")
    case True
    obtain r s1 where sw: "sock_write plan (drop w chunk) s = (r, s1)" by fastforce
    note f1 = frame_sock_write [OF sw]
    have "\<And>w u. rec plan chunk w u = Some y \<Longrightarrow> frame u (snd y)" by (rule step(1))
    then show ?thesis using step(2) True sw f1
      by (cases r) (auto split: if_splits intro: frame_trans [OF f1])
  next
    case False
    then show ?thesis using step(2) by auto
  qed
qed

lemma frame_send_loop: "send_loop ops plan n s = Some y \<Longrightarrow> frame s (snd y)"
proof (induction rule: send_loop.raw_induct [rotated, consumes 1, case_names step])
  case (step rec ops plan n s y)
  from step(2) obtain r s1 where rd: "file_call (\<lambda>d. op_read ops d BUFFER_SIZE) s = Some (r, s1)"
    by (auto simp: bind_eq_Some_conv)
  then have f1: "frame s s1" by (rule frame_file_call)
  show ?case
  proof (cases r)
    case (Inl e)
    then show ?thesis using step(2) rd f1 by auto
  next
    case (Inr chunk)
    show ?thesis
    proof (cases "chunk = []")
      case True
      then show ?thesis using step(2) rd f1 Inr by auto
    next
      case False
      then obtain w s2 where sc: "send_chunk plan chunk 0 s1 = Some (w, s2)"
        using step(2) rd Inr by (auto simp: bind_eq_Some_conv split: if_splits)
      have f2: "frame s s2" using frame_trans [OF f1 frame_send_chunk [OF sc]] by simp
      have "\<And>n u. rec ops plan n u = Some y \<Longrightarrow> frame u (snd y)" by (rule step(1))
      then show ?thesis using step(2) rd Inr False sc f2
        by (cases w) (auto split: if_splits intro: frame_trans [OF f2])
    qed
  qed
qed

lemma frame_sendFileToSocket: "sendFileToSocket ops plan s = Some (r, t) \<Longrightarrow> frame s t"
  by (auto simp: sendFileToSocket_def bind_eq_Some_conv split: option.splits
      dest!: frame_file_call frame_send_loop) (blast intro: frame_trans)+

lemma frame_write_loop: "write_loop ops x w s = Some t \<Longrightarrow> frame s t"
proof (induction rule: write_loop.raw_induct [rotated, consumes 1, case_names step])
  case (step rec ops x w s t)
  show ?case
  proof (cases "w < length x")
    case True
    then obtain r s1 where wr: "file_call (\<lambda>d. op_write ops d (drop w x)) s = Some (r, s1)"
      using step(2) by (auto simp: bind_eq_Some_conv)
    note f1 = frame_file_call [OF wr]
    show ?thesis using step True wr f1
      by (auto simp: Let_def split: if_splits intro: frame_trans [OF f1])
  next
    case False
    then show ?thesis using step(2) by auto
  qed
qed

text \<open>A section between taking and giving back the lock.\<close>

lemma frame_locked:
  "pthread_mutex_lock s = Some s1 \<Longrightarrow> frame s1 t \<Longrightarrow> frame s (pthread_mutex_unlock t)"
  by (auto simp: pthread_mutex_lock_def pthread_mutex_unlock_def frame_def split: if_splits)

lemma frame_send_back: "send_back ops plan s = Some t \<Longrightarrow> frame s t"
  by (auto simp: send_back_def bind_eq_Some_conv dest: frame_sendFileToSocket intro: frame_locked)

lemma frame_seek_log: "seek_log ops args s = Some t \<Longrightarrow> frame s t"
  by (auto simp: seek_log_def bind_eq_Some_conv dest: frame_file_call intro: frame_locked)

lemma frame_store_packet: "store_packet ops x s = Some t \<Longrightarrow> frame s t"
  by (auto simp: store_packet_def bind_eq_Some_conv
      dest!: frame_file_call frame_write_loop intro!: frame_locked intro: frame_trans)

lemma frame_process_packet: "process_packet ops plan buffer n s = Some t \<Longrightarrow> frame s t"
  by (auto simp: process_packet_def bind_eq_Some_conv split: if_splits option.splits
      dest!: frame_send_back frame_seek_log frame_store_packet intro: frame_trans)

lemma frame_recv_loop:
  "recv_loop ops plan realloc_ok input buffer len s = Some t \<Longrightarrow>
   frame (s\<lparr>blocks := blocks s - 1\<rparr>) t"
proof (induction ops plan realloc_ok input buffer len s rule: recv_loop.induct)
  case (1 ops plan realloc_ok buffer len s)
  then show ?case by auto
next
  case (2 ops plan realloc_ok ch input buffer len s)
  show ?case
  proof (cases "length buffer \<le> len \<and> \<not> realloc_ok (length buffer * 2)")
    case True
    then show ?thesis using 2(3) by auto
  next
    case grow: False
    show ?thesis
    proof (cases "ch = newline")
      case False
      then show ?thesis using 2(2) [OF refl refl grow _ _ False] 2(3) grow
        by (auto simp: Let_def bind_eq_Some_conv split: if_splits)
    next
      case True
      then obtain b1 b2 s1 where b: "buf_store len ch (if len \<ge> length buffer
          then buffer @ replicate (length buffer) None else buffer) = Some b1"
        "buf_store (len + 1) nul b1 = Some b2" "process_packet ops plan b2 (len + 1) s = Some s1"
        "recv_loop ops plan realloc_ok input b2 0 s1 = Some t"
        using 2(3) grow by (auto simp: Let_def bind_eq_Some_conv split: if_splits)
      have "frame s s1" using b(3) by (rule frame_process_packet)
      then have "frame (s\<lparr>blocks := blocks s - 1\<rparr>) (s1\<lparr>blocks := blocks s1 - 1\<rparr>)"
        by (simp add: frame_def)
      also have "frame (s1\<lparr>blocks := blocks s1 - 1\<rparr>) t"
        using 2(1) [OF refl refl grow refl b(1) True b(2,3) b(4)] .
      finally show ?thesis .
    qed
  qed
qed

lemma frame_client_handler:
  assumes "client_handler ops plan malloc_ok realloc_ok args input s = Some t"
  shows "log_locked t = log_locked s \<and> blocks t = blocks s
    \<and> closed t = closed s @ [client_fd args, file_fd args] \<and> (\<exists>bs. sent t = sent s @ bs)"
proof -
  obtain s1 where s1: "receivePackets ops plan malloc_ok realloc_ok input s = Some s1"
    "t = s1\<lparr>closed := closed s1 @ [client_fd args, file_fd args]\<rparr>"
    using assms by (auto simp: client_handler_def bind_eq_Some_conv)
  have "frame s s1" using s1(1) frame_recv_loop
    by (fastforce simp: receivePackets_def frame_def split: if_splits)
  then show ?thesis using s1(2) by (simp add: frame_def)
qed

end
