(* ===== verification/ServerReplies.thy ===== *)
theory ServerReplies
  imports ServerSafety
begin

text \<open>
  Replies on any socket, one that fails included: a reply that ends is the log from the position of
  the file on, or a prefix of it; and the file still shows the same log. The loops may also run for
  ever, so the lemmas are about the calls that return.
\<close>

lemma send_chunk_any:
  assumes "send_chunk plan chunk w s = Some y" and "w \<le> length chunk"
  shows "log_file (snd y) = log_file s \<and> (\<exists>j. sent (snd y) = sent s @ take j (drop w chunk))
    \<and> (\<forall>n. fst y = Some n \<longrightarrow> n = length chunk \<and> sent (snd y) = sent s @ drop w chunk)"
  using assms
proof (induction rule: send_chunk.raw_induct [rotated, consumes 1, case_names step])
  case (step rec plan chunk w s y)
  show ?case
  proof (cases "w < length chunk")
    case False
    then show ?thesis using step(2,3) by auto
  next
    case True
    show ?thesis
    proof (cases "plan (sock_writes s)")
      case (Write_fails e)
      let ?s = "s\<lparr>sock_writes := Suc (sock_writes s), sys_errno := e\<rparr>"
      have "rec plan chunk w ?s = Some y \<or> e \<noteq> EINTR \<and> y = (None, ?s)"
        using step(2) True Write_fails by (auto simp: sock_write_def split: if_splits)
      then show ?thesis
      proof
        assume "rec plan chunk w ?s = Some y"
        from step(1) [OF this step(3)] show ?thesis by simp
      qed (auto intro: exI [of _ 0])
    next
      case (Takes n)
      let ?n = "min n (length chunk - w)"
      let ?s = "s\<lparr>sock_writes := Suc (sock_writes s), sent := sent s @ take n (drop w chunk)\<rparr>"
      have t: "take n (drop w chunk) = take ?n (drop w chunk)" by (simp add: min_def)
      have "rec plan chunk (w + ?n) ?s = Some y"
        using step(2) True Takes by (auto simp: sock_write_def)
      from step(1) [OF this] step(3)
      have ih: "log_file (snd y) = log_file ?s
          \<and> (\<exists>j. sent (snd y) = sent ?s @ take j (drop (w + ?n) chunk))
          \<and> (\<forall>m. fst y = Some m \<longrightarrow> m = length chunk \<and> sent (snd y) = sent ?s @ drop (w + ?n) chunk)"
        by simp
      have split: "take ?n (drop w chunk) @ drop (w + ?n) chunk = drop w chunk"
        by (metis add.commute append_take_drop_id drop_drop)
      from ih obtain j where "sent (snd y) = sent s @ take ?n (drop w chunk) @ take j (drop (w + ?n) chunk)"
        unfolding t by auto
      also have "take ?n (drop w chunk) @ take j (drop (w + ?n) chunk) = take (?n + j) (drop w chunk)"
        by (metis add.commute drop_drop take_add)
      finally show ?thesis using ih split unfolding t by auto
    qed
  qed
qed

lemma file_call_log: "file_call f s = Some (r, t) \<Longrightarrow> f (log_file s) = Some (r, log_file t) \<and> sent t = sent s"
  by (cases r) (auto simp: file_call_def bind_eq_Some_conv)

context log_device
begin

lemma send_loop_any:
  assumes "send_loop ops0 plan n s = Some y" and "ops0 = ops" and "rep (log_file s) log p"
  shows "(\<exists>j. sent (snd y) = sent s @ take j (drop p (concat log))) \<and> (\<exists>q. rep (log_file (snd y)) log q)
    \<and> (fst y \<noteq> None \<longrightarrow> sent (snd y) = sent s @ drop p (concat log)
        \<and> rep (log_file (snd y)) log (max p (length (concat log))))"
  using assms
proof (induction arbitrary: p rule: send_loop.raw_induct [rotated, consumes 1, case_names step])
  case (step rec ops0 plan n s y)
  obtain chunk d rest where r: "op_read ops (log_file s) BUFFER_SIZE = Some (Inr chunk, d)"
    "length chunk \<le> BUFFER_SIZE" "drop p (concat log) = chunk @ rest"
    "chunk = [] \<longrightarrow> length (concat log) \<le> p" "rep d log (p + length chunk)"
    using read_law [OF step(4)] by blast
  obtain s1 where c: "file_call (\<lambda>d. op_read ops d BUFFER_SIZE) s = Some (Inr chunk, s1)"
    "log_file s1 = d" "sent s1 = sent s"
    using r(1) by (auto simp: file_call_def)
  show ?case
  proof (cases "chunk = []")
    case True
    then have "y = (Some n, s1)" using step(2,3) c(1) by simp
    moreover have "drop p (concat log) = []" "max p (length (concat log)) = p" using r True by auto
    ultimately show ?thesis using True r(5) c by auto
  next
    case False
    then obtain w s2 where sc: "send_chunk plan chunk 0 s1 = Some (w, s2)"
      "(case w of None \<Rightarrow> Some (None, s2) | Some m \<Rightarrow> rec ops0 plan (n + m) s2) = Some y"
      using step(2,3) c(1) r(2) by (auto simp: bind_eq_Some_conv split: if_splits)
    from send_chunk_any [OF sc(1)] c
    have s2: "log_file s2 = d" "\<exists>j. sent s2 = sent s @ take j chunk"
      "\<forall>m. w = Some m \<longrightarrow> sent s2 = sent s @ chunk" by auto
    have rest: "rest = drop (p + length chunk) (concat log)"
      using r(3) by (metis add.commute append_eq_conv_conj drop_drop)
    show ?thesis
    proof (cases w)
      case None
      then have "y = (None, s2)" using sc(2) by simp
      moreover obtain j where "sent s2 = sent s @ take j chunk" using s2(2) by blast
      then have "sent s2 = sent s @ take (min j (length chunk)) (drop p (concat log))"
        unfolding r(3) by (simp add: min_def)
      ultimately show ?thesis using s2(1) r(5) by auto
    next
      case (Some m)
      then have run: "rec ops0 plan (n + m) s2 = Some y" using sc(2) by simp
      have "rep (log_file s2) log (p + length chunk)" using s2(1) r(5) by simp
      note ih = step(1) [OF run step(3) this, folded rest]
      then obtain j where "sent (snd y) = sent s @ chunk @ take j rest" using s2(3) Some by auto
      then have "sent (snd y) = sent s @ take (length chunk + j) (drop p (concat log))"
        unfolding r(3) by simp
      then have "\<exists>j. sent (snd y) = sent s @ take j (drop p (concat log))" by blast
      moreover have "max (p + length chunk) (length (concat log)) = max p (length (concat log))"
      proof -
        have "length (concat log) - p = length chunk + length rest" using arg_cong [OF r(3), of length] by simp
        moreover have "0 < length chunk" using False by simp
        ultimately have "p + length chunk \<le> length (concat log)" by arith
        then show ?thesis by (simp add: max_def)
      qed
      ultimately show ?thesis using ih s2(3) Some by (intro conjI) (simp_all add: r(3))
    qed
  qed
qed

lemma send_back_any:
  assumes run: "send_back ops plan s = Some t" and rep: "rep (log_file s) log p"
  shows "\<not> log_locked t \<and> ((sent t = sent s @ drop p (concat log) \<and> rep (log_file t) log p)
    \<or> (\<exists>j q. sent t = sent s @ take j (drop p (concat log)) \<and> rep (log_file t) log q))"
proof -
  let ?s = "s\<lparr>log_locked := True\<rparr>"
  obtain r u where u: "sendFileToSocket ops plan ?s = Some (r, u)" "t = pthread_mutex_unlock u"
    using run by (auto simp: send_back_def pthread_mutex_lock_def bind_eq_Some_conv split: if_splits)
  obtain s1 where tell: "file_call (\<lambda>d. op_lseek ops d 0 SEEK_CUR) ?s = Some (Inr (int p), s1)"
    "log_file s1 = log_file s" "sent s1 = sent s"
    using tell_law [OF rep] by (auto simp: file_call_def)
  then obtain w s2 where loop: "send_loop ops plan 0 s1 = Some (w, s2)"
    "w = None \<and> u = s2 \<or> (\<exists>n r'. w = Some n
        \<and> file_call (\<lambda>d. op_lseek ops d (int p) SEEK_SET) s2 = Some (r', u))"
    using u(1) unfolding sendFileToSocket_def tell(1) Let_def
    by (auto simp: bind_eq_Some_conv split: prod.splits option.splits)
  from send_loop_any [OF loop(1) refl, of log p] tell rep
  have any: "\<exists>j. sent s2 = sent s @ take j (drop p (concat log))" "\<exists>q. rep (log_file s2) log q"
    "w \<noteq> None \<Longrightarrow> sent s2 = sent s @ drop p (concat log) \<and> rep (log_file s2) log (max p (length (concat log)))"
    by auto
  show ?thesis
  proof (cases w)
    case None
    then show ?thesis using loop(2) u(2) any(1,2) by (auto simp: pthread_mutex_unlock_def)
  next
    case (Some n)
    with any(3) have s2: "sent s2 = sent s @ drop p (concat log)" "rep (log_file s2) log (max p (length (concat log)))"
      by simp_all
    obtain r' d where seek: "op_lseek ops (log_file s2) (int p) SEEK_SET = Some (r', d)" "rep d log p"
      using seek_law [OF s2(2) refl] by blast
    have "log_file u = d \<and> sent u = sent s2"
      using loop(2) Some seek(1) by (auto dest!: file_call_log)
    then show ?thesis using u(2) s2(1) seek(2) by (auto simp: pthread_mutex_unlock_def)
  qed
qed

end

end
