(* ===== verification/ServerThreads.thy ===== *)
theory ServerThreads
  imports ServerReplies StateMachine
begin

text \<open>
  Several client threads on one log. Each has its own open file and its own connection; they share
  what the log holds and the log lock. A thread works on a packet in two sections under the lock: it
  stores the packet or seeks, and then sends the log back; between them other threads may run. A
  section is one step here; \<open>ServerLocking\<close> shows that the lock makes it so. Sockets may fail. The
  packets are shorter than 1024 bytes: what longer ones do to the memory of the process
  (\<open>ServerOverrun\<close>) is not a behaviour of this system.

  The state of an open file is a pair of what all open files share (\<open>'s\<close>: the device, the content of
  a file) and what is its own (\<open>'f\<close>: its position). \<open>shared_log\<close> is the contract of such a log; the
  driver (\<open>ServerOnDriver\<close>) and a regular file (\<open>ServerOnFile\<close>) meet it.
\<close>

section \<open>The system\<close>

text \<open>
  \<open>history\<close> lists the packets in the order in which they were stored. \<open>owes t\<close> is, for a thread that
  still owes a reply, the length of \<open>history\<close> when its packet had been processed, and whether the last
  entry then was that packet. \<open>replies\<close> records the replies. They are not part of the program.
\<close>

record reply_record =
  r_thread :: nat
  r_stored :: nat
  r_own :: bool
  r_at :: nat
  r_from :: nat
  r_complete :: bool
  r_text :: "char list"

record ('s, 'f) server_system =
  shared :: 's
  clients :: "nat \<Rightarrow> ('s \<times> 'f) thread_state option"
  history :: "char list list"
  owes :: "nat \<Rightarrow> (nat \<times> bool) option"
  replies :: "reply_record list"

text \<open>What a thread sees: its own state, with the log as it is now.\<close>

definition view :: "('s, 'f) server_system \<Rightarrow> ('s \<times> 'f) thread_state \<Rightarrow> ('s \<times> 'f) thread_state" where
  "view S c = c\<lparr>log_file := (shared S, snd (log_file c))\<rparr>"

definition put_client ::
  "nat \<Rightarrow> ('s \<times> 'f) thread_state \<Rightarrow> ('s, 'f) server_system \<Rightarrow> ('s, 'f) server_system" where
  "put_client t c S = S\<lparr>shared := fst (log_file c), clients := (clients S)(t \<mapsto> c)\<rparr>"

text \<open>
  The reply of a thread: how many entries there were when its packet had been processed, and how many
  now; where the reply starts, whether the socket took all of it, and what was sent.
\<close>

definition reply_of ::
  "('f \<Rightarrow> nat) \<Rightarrow> nat \<Rightarrow> nat \<times> bool \<Rightarrow> bool \<Rightarrow> ('s, 'f) server_system \<Rightarrow> ('s \<times> 'f) thread_state
   \<Rightarrow> ('s \<times> 'f) thread_state \<Rightarrow> reply_record"
where
  "reply_of position t n complete S c c' = \<lparr>r_thread = t, r_stored = fst n, r_own = snd n,
     r_at = length (history S), r_from = position (snd (log_file c)), r_complete = complete,
     r_text = drop (length (sent c)) (sent c')\<rparr>"

inductive server_step ::
  "('s \<times> 'f) file_ops \<Rightarrow> 'f \<Rightarrow> ('f \<Rightarrow> nat) \<Rightarrow> ('s, 'f) server_system \<Rightarrow> ('s, 'f) server_system \<Rightarrow> bool"
  for ops fresh position where
  connect: "clients S t = None \<Longrightarrow> \<not> log_locked c \<Longrightarrow> snd (log_file c) = fresh \<Longrightarrow>
    server_step ops fresh position S (S\<lparr>clients := (clients S)(t \<mapsto> c)\<rparr>)"
| store: "clients S t = Some c \<Longrightarrow> owes S t = None \<Longrightarrow>
    is_command x \<Longrightarrow> length x < BUFFER_SIZE \<Longrightarrow> is_text x \<Longrightarrow>
    store_packet ops x (view S c) = Some c' \<Longrightarrow>
    server_step ops fresh position S ((put_client t c' S)
      \<lparr>history := history S @ [x], owes := (owes S)(t \<mapsto> (length (history S) + 1, True))\<rparr>)"
| seek: "clients S t = Some c \<Longrightarrow> owes S t = None \<Longrightarrow>
    is_command x \<Longrightarrow> \<not> is_text x \<Longrightarrow> sscanf_seekto (packet_string x) = Some args \<Longrightarrow>
    seek_log ops args (view S c) = Some c' \<Longrightarrow>
    server_step ops fresh position S
      ((put_client t c' S)\<lparr>owes := (owes S)(t \<mapsto> (length (history S), False))\<rparr>)"
| no_seek: "clients S t = Some c \<Longrightarrow> owes S t = None \<Longrightarrow>
    is_command x \<Longrightarrow> \<not> is_text x \<Longrightarrow> sscanf_seekto (packet_string x) = None \<Longrightarrow>
    server_step ops fresh position S (S\<lparr>owes := (owes S)(t \<mapsto> (length (history S), False))\<rparr>)"
| reply: "clients S t = Some c \<Longrightarrow> owes S t = Some n \<Longrightarrow> (complete \<longrightarrow> productive plan) \<Longrightarrow>
    send_back ops plan (view S c) = Some c' \<Longrightarrow>
    server_step ops fresh position S ((put_client t c' S)
      \<lparr>owes := (owes S)(t := None), replies := replies S @ [reply_of position t n complete S c c']\<rparr>)"
| disconnect: "clients S t = Some c \<Longrightarrow> owes S t = None \<Longrightarrow>
    server_step ops fresh position S (S\<lparr>clients := (clients S)(t := None)\<rparr>)"

section \<open>The invariant\<close>

text \<open>\<open>rep\<close> and \<open>put\<close> are those of the contract; \<open>held h\<close> is what the log holds after \<open>h\<close> was stored.\<close>

type_synonym ('s, 'f) log_rep = "'s \<times> 'f \<Rightarrow> char list list \<Rightarrow> nat \<Rightarrow> bool"
type_synonym log_put = "char list list \<Rightarrow> nat \<Rightarrow> char list \<Rightarrow> char list list \<times> nat"
type_synonym log_held = "char list list \<Rightarrow> char list list"

text \<open>
  A reply consists of what the log held at the time it was made, from the position of its file on, or
  of a prefix of that; if the thread had stored its packet, that position is where the file was then.
\<close>

definition own_place :: "log_put \<Rightarrow> log_held \<Rightarrow> char list list \<Rightarrow> nat \<Rightarrow> nat \<Rightarrow> bool" where
  "own_place put held hist n p \<longleftrightarrow>
     0 < n \<and> (\<exists>p0. p = snd (put (held (take (n - 1) hist)) p0 (hist ! (n - 1))))"

definition reply_ok :: "log_put \<Rightarrow> log_held \<Rightarrow> char list list \<Rightarrow> reply_record \<Rightarrow> bool" where
  "reply_ok put held hist r \<longleftrightarrow> r_stored r \<le> r_at r \<and> r_at r \<le> length hist
     \<and> (\<exists>j. r_text r = take j (drop (r_from r) (concat (held (take (r_at r) hist)))))
     \<and> (r_complete r \<longrightarrow> r_text r = drop (r_from r) (concat (held (take (r_at r) hist))))
     \<and> (r_own r \<longrightarrow> own_place put held hist (r_stored r) (r_from r))"

definition thread_ok :: "('s, 'f) log_rep \<Rightarrow> 's \<Rightarrow> char list list \<Rightarrow> ('s \<times> 'f) thread_state \<Rightarrow> bool" where
  "thread_ok rep sh log c \<longleftrightarrow> \<not> log_locked c \<and> (\<exists>p. rep (sh, snd (log_file c)) log p)"

definition server_inv ::
  "('s, 'f) log_rep \<Rightarrow> log_put \<Rightarrow> log_held \<Rightarrow> 'f \<Rightarrow> ('f \<Rightarrow> nat) \<Rightarrow> ('s, 'f) server_system \<Rightarrow> bool" where
  "server_inv rep put held fresh position S \<longleftrightarrow>
     rep (shared S, fresh) (held (history S)) (position fresh)
     \<and> (\<forall>t c. clients S t = Some c \<longrightarrow> thread_ok rep (shared S) (held (history S)) c)
     \<and> (\<forall>t n own. owes S t = Some (n, own) \<longrightarrow> n \<le> length (history S)
          \<and> (\<exists>c. clients S t = Some c
              \<and> (own \<longrightarrow> own_place put held (history S) n (position (snd (log_file c))))))
     \<and> (\<forall>r \<in> set (replies S). reply_ok put held (history S) r)"

definition server_start ::
  "('s, 'f) log_rep \<Rightarrow> log_held \<Rightarrow> 'f \<Rightarrow> ('f \<Rightarrow> nat) \<Rightarrow> ('s, 'f) server_system \<Rightarrow> bool" where
  "server_start rep held fresh position S \<longleftrightarrow>
     rep (shared S, fresh) (held []) (position fresh)
     \<and> clients S = (\<lambda>t. None)
     \<and> history S = [] \<and> owes S = (\<lambda>t. None) \<and> replies S = []"

lemma own_place_append: "own_place put held h n p \<Longrightarrow> n \<le> length h \<Longrightarrow> own_place put held (h @ [x]) n p"
  by (auto simp: own_place_def nth_append)

lemma reply_ok_append: "reply_ok put held hist r \<Longrightarrow> reply_ok put held (hist @ [x]) r"
  by (auto simp: reply_ok_def intro: own_place_append)

lemma view_simps [simp]:
  "log_locked (view S c) = log_locked c" "log_file (view S c) = (shared S, snd (log_file c))"
  "sent (view S c) = sent c"
  by (simp_all add: view_def)

section \<open>Shared logs\<close>

text \<open>
  What the threads rely on: the position belongs to the open file, the log to what is shared, and
  storing means the same whatever the position is.
\<close>

locale shared_log = log_device ops rep put jump limit
  for ops :: "('s \<times> 'f) file_ops" and rep :: "('s, 'f) log_rep" and put :: log_put
    and jump :: "char list list \<Rightarrow> nat \<Rightarrow> aesd_seekto \<Rightarrow> nat" and limit :: nat +
  fixes held :: log_held and fresh :: 'f and position :: "'f \<Rightarrow> nat"
  assumes rep_position: "rep (sh, f) log p \<Longrightarrow> position f = p"
    and rep_other: "rep (sh, f) log p \<Longrightarrow> rep (sh0, g) log0 q \<Longrightarrow> rep (sh, g) log q"
    and held_put: "fst (put (held h) p x) = held (h @ [x])"
    and limit_ok: "BUFFER_SIZE \<le> limit"
begin

abbreviation inv :: "('s, 'f) server_system \<Rightarrow> bool" where
  "inv \<equiv> server_inv rep put held fresh position"

lemma thread_view:
  assumes "thread_ok rep (shared S) log c"
  shows "\<not> log_locked (view S c)" and "rep (log_file (view S c)) log (position (snd (log_file c)))"
  using assms rep_position by (auto simp: thread_ok_def)

lemma store_section:
  assumes c: "thread_ok rep (shared S) (held (history S)) c" and x: "is_command x" "length x < BUFFER_SIZE"
    and run: "store_packet ops x (view S c) = Some c'"
  shows "\<not> log_locked c'" and "rep (log_file c') (held (history S @ [x])) (position (snd (log_file c')))"
    and "position (snd (log_file c')) = snd (put (held (history S)) (position (snd (log_file c))) x)"
proof -
  note v = thread_view [OF c]
  obtain d k e where c': "c' = after d [] k e (view S c)"
    "rep d (held (history S @ [x])) (snd (put (held (history S)) (position (snd (log_file c))) x))"
    using store_packet_ok [OF v(2,1) x(1)] x(2) limit_ok run unfolding held_put by auto
  then have "rep (fst d, snd d) (held (history S @ [x])) (snd (put (held (history S)) (position (snd (log_file c))) x))"
    by simp
  from rep_position [OF this] c' v(1) show "\<not> log_locked c'"
    "rep (log_file c') (held (history S @ [x])) (position (snd (log_file c')))"
    "position (snd (log_file c')) = snd (put (held (history S)) (position (snd (log_file c))) x)"
    by simp_all
qed

text \<open>A seek moves the position of the file of its thread to where the command says.\<close>

lemma seek_section:
  assumes c: "thread_ok rep (shared S) log c" and run: "seek_log ops args (view S c) = Some c'"
  shows "\<not> log_locked c'" and "rep (log_file c') log (position (snd (log_file c')))"
    and "position (snd (log_file c')) = jump log (position (snd (log_file c))) args"
proof -
  note v = thread_view [OF c]
  obtain d k e where c': "c' = after d [] k e (view S c)" "rep d log (jump log (position (snd (log_file c))) args)"
    using seek_log_ok [OF v(2,1), of args] run by auto
  then have "rep (fst d, snd d) log (jump log (position (snd (log_file c))) args)" by simp
  from rep_position [OF this] c' v(1) show "\<not> log_locked c'"
    "rep (log_file c') log (position (snd (log_file c')))"
    "position (snd (log_file c')) = jump log (position (snd (log_file c))) args"
    by simp_all
qed

lemma reply_section:
  assumes c: "thread_ok rep (shared S) log c" and plan: "complete \<longrightarrow> productive plan"
    and run: "send_back ops plan (view S c) = Some c'"
  shows "\<not> log_locked c' \<and> (\<exists>q. rep (log_file c') log q)
    \<and> (\<exists>j. drop (length (sent c)) (sent c') = take j (drop (position (snd (log_file c))) (concat log)))
    \<and> (complete \<longrightarrow> drop (length (sent c)) (sent c') = drop (position (snd (log_file c))) (concat log))"
proof -
  note v = thread_view [OF c]
  define whole where "whole = drop (position (snd (log_file c))) (concat log)"
  have "complete \<longrightarrow> drop (length (sent c)) (sent c') = whole"
    using send_back_all [of plan, OF _ v(2,1)] plan run unfolding whole_def by auto
  moreover have any: "\<not> log_locked c' \<and> (sent c' = sent c @ whole \<and> rep (log_file c') log (position (snd (log_file c)))
      \<or> (\<exists>j q. sent c' = sent c @ take j whole \<and> rep (log_file c') log q))"
    using send_back_any [OF run v(2)] unfolding whole_def view_simps .
  moreover have "whole = take (length whole) whole" by simp
  with any have "\<exists>j. drop (length (sent c)) (sent c') = take j whole" by (metis append_eq_conv_conj)
  ultimately show ?thesis unfolding whole_def by blast
qed

text \<open>What a section does to the rest: the others see the new log, and records stay true.\<close>

lemma thread_ok_change:
  assumes "rep (sh', g) log' q" and "thread_ok rep sh log c"
  shows "thread_ok rep sh' log' c"
  using assms rep_other unfolding thread_ok_def by blast

lemma inv_change:
  assumes inv: "inv S" and new: "rep (sh', g) (held h') q" and h': "h' = history S \<or> h' = history S @ [x]"
  shows "rep (sh', fresh) (held h') (position fresh)"
    and "\<And>t c. clients S t = Some c \<Longrightarrow> thread_ok rep sh' (held h') c"
    and "\<And>t n own. owes S t = Some (n, own) \<Longrightarrow> n \<le> length h' \<and> (\<exists>c. clients S t = Some c
          \<and> (own \<longrightarrow> own_place put held h' n (position (snd (log_file c)))))"
    and "\<And>r. r \<in> set (replies S) \<Longrightarrow> reply_ok put held h' r"
proof -
  note i = inv [unfolded server_inv_def]
  show "rep (sh', fresh) (held h') (position fresh)" using new i rep_other by blast
  show "thread_ok rep sh' (held h') c" if "clients S t = Some c" for t c
    using thread_ok_change [OF new] i that by blast
  show "n \<le> length h' \<and> (\<exists>c. clients S t = Some c \<and> (own \<longrightarrow> own_place put held h' n (position (snd (log_file c)))))"
    if "owes S t = Some (n, own)" for t n own
  proof -
    have o: "n \<le> length (history S)" "\<exists>c. clients S t = Some c
        \<and> (own \<longrightarrow> own_place put held (history S) n (position (snd (log_file c))))"
      using i that by blast+
    from h' show ?thesis
    proof
      assume "h' = history S @ [x]"
      then show ?thesis using o own_place_append [OF _ o(1)] by auto
    qed (use o in simp)
  qed
  show "reply_ok put held h' r" if "r \<in> set (replies S)" for r
    using h' i that reply_ok_append by blast
qed

lemma thread_okI: "\<not> log_locked c \<Longrightarrow> rep (log_file c) log p \<Longrightarrow> thread_ok rep (fst (log_file c)) log c"
  by (auto simp: thread_ok_def)

lemma step_inv_store:
  assumes inv: "inv S" and c: "clients S t = Some c" and x: "is_command x" "length x < BUFFER_SIZE"
    and run: "store_packet ops x (view S c) = Some c'"
  shows "inv ((put_client t c' S)
    \<lparr>history := history S @ [x], owes := (owes S)(t \<mapsto> (length (history S) + 1, True))\<rparr>)"
proof -
  have "thread_ok rep (shared S) (held (history S)) c" using inv c by (simp add: server_inv_def)
  note s = store_section [OF this x run]
  have "rep (fst (log_file c'), snd (log_file c')) (held (history S @ [x])) (position (snd (log_file c')))"
    using s(2) by simp
  note ch = inv_change [OF inv this disjI2 [OF refl]]
  have mine: "thread_ok rep (fst (log_file c')) (held (history S @ [x])) c'" using thread_okI [OF s(1,2)] .
  have place: "own_place put held (history S @ [x]) (length (history S) + 1) (position (snd (log_file c')))"
    using s(3) by (auto simp: own_place_def nth_append)
  show ?thesis unfolding server_inv_def put_client_def
    using ch mine place by (auto split: if_splits)
qed

lemma step_inv_seek:
  assumes inv: "inv S" and c: "clients S t = Some c" and run: "seek_log ops args (view S c) = Some c'"
  shows "inv ((put_client t c' S)\<lparr>owes := (owes S)(t \<mapsto> (length (history S), False))\<rparr>)"
proof -
  have "thread_ok rep (shared S) (held (history S)) c" using inv c by (simp add: server_inv_def)
  note s = seek_section [OF this run]
  have "rep (fst (log_file c'), snd (log_file c')) (held (history S)) (position (snd (log_file c')))"
    using s(2) by simp
  note ch = inv_change [OF inv this disjI1 [OF refl]]
  have "thread_ok rep (fst (log_file c')) (held (history S)) c'" using thread_okI [OF s(1,2)] .
  then show ?thesis unfolding server_inv_def put_client_def using ch by (auto split: if_splits)
qed

lemma step_inv_reply:
  assumes inv: "inv S" and c: "clients S t = Some c" and n: "owes S t = Some n"
    and plan: "complete \<longrightarrow> productive plan" and run: "send_back ops plan (view S c) = Some c'"
  shows "inv ((put_client t c' S)
    \<lparr>owes := (owes S)(t := None), replies := replies S @ [reply_of position t n complete S c c']\<rparr>)"
proof -
  have "thread_ok rep (shared S) (held (history S)) c" using inv c by (simp add: server_inv_def)
  note s = reply_section [OF this plan run]
  then obtain q where q: "rep (log_file c') (held (history S)) q" "\<not> log_locked c'" by blast
  then have "rep (fst (log_file c'), snd (log_file c')) (held (history S)) q" by simp
  note ch = inv_change [OF inv this disjI1 [OF refl]]
  have mine: "thread_ok rep (fst (log_file c')) (held (history S)) c'" using thread_okI [OF q(2,1)] .
  have "fst n \<le> length (history S)"
    "snd n \<longrightarrow> own_place put held (history S) (fst n) (position (snd (log_file c)))"
    using inv n c unfolding server_inv_def by (metis option.inject prod.collapse)+
  then have "reply_ok put held (history S) (reply_of position t n complete S c c')"
    using s by (simp add: reply_ok_def reply_of_def)
  then show ?thesis unfolding server_inv_def put_client_def using ch mine by (auto split: if_splits)
qed

lemma step_inv_others:
  assumes inv: "inv S"
  shows "clients S t = None \<Longrightarrow> \<not> log_locked c \<Longrightarrow> snd (log_file c) = fresh \<Longrightarrow>
      inv (S\<lparr>clients := (clients S)(t \<mapsto> c)\<rparr>)"
    and "clients S t = Some c \<Longrightarrow> owes S t = None \<Longrightarrow>
      inv (S\<lparr>owes := (owes S)(t \<mapsto> (length (history S), False))\<rparr>)"
    and "clients S t = Some c \<Longrightarrow> owes S t = None \<Longrightarrow> inv (S\<lparr>clients := (clients S)(t := None)\<rparr>)"
proof -
  show "inv (S\<lparr>clients := (clients S)(t \<mapsto> c)\<rparr>)"
    if "clients S t = None" "\<not> log_locked c" "snd (log_file c) = fresh"
  proof -
    have "thread_ok rep (shared S) (held (history S)) c"
      using inv that(2,3) by (auto simp: server_inv_def thread_ok_def)
    then show ?thesis using inv that(1) unfolding server_inv_def by (auto split: if_splits) fastforce
  qed
  show "inv (S\<lparr>owes := (owes S)(t \<mapsto> (length (history S), False))\<rparr>)"
    if "clients S t = Some c" "owes S t = None"
    using inv that unfolding server_inv_def by auto
  show "inv (S\<lparr>clients := (clients S)(t := None)\<rparr>)" if "clients S t = Some c" "owes S t = None"
    using inv that unfolding server_inv_def by (auto split: if_splits)
qed

lemma server_step_inv:
  assumes inv: "inv S" and step: "server_step ops fresh position S T"
  shows "inv T"
  using step
proof (cases rule: server_step.cases)
  case (connect t c)
  then show ?thesis using step_inv_others(1) [OF inv] by simp
next
  case (store t c x c')
  then show ?thesis using step_inv_store [OF inv] by simp
next
  case (seek t c x args c')
  then show ?thesis using step_inv_seek [OF inv] by simp
next
  case (no_seek t c x)
  then show ?thesis using step_inv_others(2) [OF inv] by simp
next
  case (reply t c n complete plan c')
  then show ?thesis using step_inv_reply [OF inv] by simp
next
  case (disconnect t c)
  then show ?thesis using step_inv_others(3) [OF inv] by simp
qed

end

sublocale shared_log < system: invariant_of "server_start rep held fresh position"
  "server_step ops fresh position" "server_inv rep put held fresh position"
proof (unfold_locales, goal_cases)
  case (1 S)
  then show ?case by (simp add: server_start_def server_inv_def)
next
  case (2 S T)
  then show ?case by (rule server_step_inv)
qed

end
