(* ===== verification/ServerOnDriver.thy ===== *)
theory ServerOnDriver
  imports ServerThreads DriverUse
begin

text \<open>
  The server on the driver: an open file of \<open>/dev/aesdchar\<close> as the system calls present it, and
  the proof that it meets the contract the server relies on.
\<close>

section \<open>The device as an open file\<close>

text \<open>
  A negative result of a file operation becomes an error number. The driver has no \<open>fsync\<close>
  operation, so that call fails. The write position is not used, so \<open>O_APPEND\<close> changes nothing.
\<close>

definition sys_result :: "64 word \<Rightarrow> 'a \<Rightarrow> 'a sys" where
  "sys_result ret v = (if sint ret < 0 then Inl (nat (- sint ret)) else Inr v)"

definition dev_read :: "kstate \<times> file \<Rightarrow> nat \<Rightarrow> (char list sys \<times> (kstate \<times> file)) option" where
  "dev_read d n = do {
     (ret, ubuf, pos, s) \<leftarrow> aesd_read 0 (snd d) (word_of_nat n) (f_pos (snd d)) (fst d);
     Some (sys_result ret ubuf, (s, (snd d)\<lparr>f_pos := pos\<rparr>))
   }"

definition dev_write ::
  "write_env \<Rightarrow> kstate \<times> file \<Rightarrow> char list \<Rightarrow> (nat sys \<times> (kstate \<times> file)) option" where
  "dev_write wenv d bytes = do {
     (ret, pos, s) \<leftarrow> aesd_write wenv (snd d) bytes (word_of_nat (length bytes)) (f_pos (snd d)) (fst d);
     Some (sys_result ret (unat ret), (s, (snd d)\<lparr>f_pos := pos\<rparr>))
   }"

definition dev_lseek ::
  "llseek_fn \<Rightarrow> kstate \<times> file \<Rightarrow> int \<Rightarrow> u32 \<Rightarrow> (int sys \<times> (kstate \<times> file)) option" where
  "dev_lseek fsl d off whence = do {
     (ret, filp, s) \<leftarrow> aesd_llseek fsl (snd d) (word_of_int off) whence (fst d);
     Some (sys_result ret (sint ret), (s, filp))
   }"

definition dev_ioctl ::
  "llseek_fn \<Rightarrow> kstate \<times> file \<Rightarrow> u32 \<Rightarrow> aesd_seekto \<Rightarrow> (loff_t sys \<times> (kstate \<times> file)) option" where
  "dev_ioctl fsl d cmd args = do {
     (ret, filp, s) \<leftarrow> aesd_ioctl fsl (snd d) cmd (0, args) (fst d);
     Some (sys_result ret ret, (s, filp))
   }"

definition dev_ops :: "llseek_fn \<Rightarrow> write_env \<Rightarrow> (kstate \<times> file) file_ops" where
  "dev_ops fsl wenv = \<lparr>op_read = dev_read, op_write = dev_write wenv, op_lseek = dev_lseek fsl,
     op_ioctl = dev_ioctl fsl, op_fsync = (\<lambda>d. Some (Inl 22, d))\<rparr>"

section \<open>The representation\<close>

text \<open>
  What the kernel documents for \<open>fixed_size_llseek\<close>: an absolute offset inside the file is taken,
  one past the end is an error that leaves the position, and asking for the current position by
  \<open>SEEK_CUR\<close> with offset 0 gives it.
\<close>

definition llseek_documented :: "llseek_fn \<Rightarrow> bool" where
  "llseek_documented fsl \<longleftrightarrow> seeks_inside fsl
     \<and> (\<forall>pos off size. unat size < unat off \<longrightarrow> snd (fsl pos off SEEK_SET size) = pos)
     \<and> (\<forall>pos size. fsl pos 0 SEEK_CUR size = (pos, pos))"

text \<open>The answers a \<open>write\<close> gets when nothing fails.\<close>

definition write_succeeds :: "write_env \<Rightarrow> bool" where
  "write_succeeds wenv \<longleftrightarrow> kmalloc_ok wenv \<and> user_left wenv = 0 \<and> krealloc_ans wenv \<noteq> Realloc_fails"

definition dev_rep ::
  "llseek_fn \<Rightarrow> write_env \<Rightarrow> kstate \<times> file \<Rightarrow> char list list \<Rightarrow> nat \<Rightarrow> bool" where
  "dev_rep fsl wenv d log p \<longleftrightarrow> llseek_documented fsl \<and> write_succeeds wenv
     \<and> (\<exists>L. driver_rel 1 (fst d) log [] L) \<and> BUFFER_SIZE \<le> kmalloc_max (fst d)
     \<and> (\<forall>x \<in> set log. length x \<le> BUFFER_SIZE)
     \<and> private_data (snd d) = Some Aesd_device \<and> f_pos (snd d) = word_of_nat p \<and> p < 10 * 2 ^ 31"

definition dev_jump :: "char list list \<Rightarrow> nat \<Rightarrow> aesd_seekto \<Rightarrow> nat" where
  "dev_jump log p args =
     (let q = spec_seek_bytes log (unat (write_cmd args)) (unat (write_cmd_offset args))
      in if unat (write_cmd args) < MAXW \<and> q \<le> length (concat log) then q else p)"

lemma dev_repE:
  assumes "dev_rep fsl wenv (s, f) log p"
  obtains L where "driver_rel 1 s log [] L" "private_data f = Some Aesd_device"
    "f_pos f = word_of_nat p" "unat (f_pos f) = p" "p < 10 * 2 ^ 31" "length (concat log) < 10 * 2 ^ 31"
    "\<forall>x \<in> set log. length x \<le> BUFFER_SIZE" "BUFFER_SIZE \<le> kmalloc_max s"
    "llseek_documented fsl" "write_succeeds wenv" "kmalloc_max s < 2 ^ 31"
proof -
  obtain L where rel: "driver_rel 1 s log [] L" using assms by (auto simp: dev_rep_def)
  have "unat (f_pos f) = p" using assms by (auto simp: dev_rep_def intro!: unat_of_nat_small)
  moreover have "kmalloc_max s < 2 ^ 31" using rel by (auto simp: driver_rel_def driver_core_def)
  ultimately show ?thesis using that [OF rel] total_fits [OF rel] assms by (auto simp: dev_rep_def)
qed

lemma sint_of_nat_nonneg: "n < 2 ^ 63 \<Longrightarrow> \<not> sint (word_of_nat n :: 64 word) < 0"
  by (simp add: signed_of_nat signed_take_bit_int_eq_self)

lemma sint_word_of_nat: "n < 2 ^ 63 \<Longrightarrow> sint (word_of_nat n :: 64 word) = int n"
  by (simp add: signed_of_nat signed_take_bit_int_eq_self)

lemma sys_result_nat: "n < 2 ^ 63 \<Longrightarrow> sys_result (word_of_nat n) v = Inr v"
  by (simp add: sys_result_def sint_of_nat_nonneg)

lemma locate_drop:
  assumes "locate (map length xs) n = Some (k, d)"
  shows "drop n (concat xs) = drop d (xs ! k) @ concat (drop (Suc k) xs)"
proof -
  have k: "k < length xs" "d < length (xs ! k)" "n = length (concat (take k xs)) + d"
    using assms by (auto simp: locate_Some_iff length_concat take_map)
  have "concat xs = concat (take k xs) @ xs ! k @ concat (drop (Suc k) xs)"
    by (metis append_take_drop_id Cons_nth_drop_Suc concat.simps(2) concat_append k(1))
  then have "drop n (concat xs) = drop d (xs ! k @ concat (drop (Suc k) xs))"
    unfolding k(3) by (metis add_diff_cancel_left' append_Nil drop_all drop_append le_add1)
  then show ?thesis using k(2) by simp
qed

text \<open>Packets that are written go to the end of the log; the position does not change.\<close>

definition dev_put :: "char list list \<Rightarrow> nat \<Rightarrow> char list \<Rightarrow> char list list \<times> nat" where
  "dev_put log p x = (keep_recent MAXW log x, p)"

section \<open>The laws\<close>

lemma dev_read_law:
  assumes "dev_rep fsl wenv d log p"
  shows "\<exists>chunk d'. op_read (dev_ops fsl wenv) d BUFFER_SIZE = Some (Inr chunk, d')
    \<and> length chunk \<le> BUFFER_SIZE \<and> (\<exists>rest. drop p (concat log) = chunk @ rest)
    \<and> (chunk = [] \<longrightarrow> length (concat log) \<le> p) \<and> dev_rep fsl wenv d' log (p + length chunk)"
proof -
  obtain s f where d: "d = (s, f)" by (cases d)
  from assms [unfolded d] show ?thesis
  proof (rule dev_repE, goal_cases)
    case (1 L)
    note h = this
    show ?case
    proof (cases "locate (map length log) p")
      case None
      then have "spec_read 0 log (f_pos f) = (0, [], f_pos f)" using h(4) by (simp add: spec_read_def)
      from aesd_read_spec [OF h(1,2) this] None assms show ?thesis
        by (simp add: d dev_ops_def dev_read_def sys_result_def locate_None_iff length_concat)
    next
      case (Some kd)
      then obtain k e where loc: "locate (map length log) p = Some (k, e)" by (cases kd) auto
      let ?c = "drop e (log ! k)"
      have k: "k < length log" "e < length (log ! k)" "p = length (concat (take k log)) + e"
        using loc by (auto simp: locate_Some_iff length_concat take_map)
      have len: "length ?c \<le> BUFFER_SIZE" using h(7) nth_mem [OF k(1)] by fastforce
      have "p + length ?c \<le> length (concat log)"
        using k(2) arg_cong [OF locate_drop [OF loc], of length]
        unfolding length_append length_drop by linarith
      then have pos: "p + length ?c < 10 * 2 ^ 31" using h(6) by simp
      have "spec_read 0 log (f_pos f) = (word_of_nat (length ?c), ?c, word_of_nat (p + length ?c))"
        using loc h(3,4) by (simp add: spec_read_def)
      from aesd_read_spec [OF h(1,2) this] have run: "dev_read (s, f) BUFFER_SIZE =
          Some (Inr ?c, (s, f\<lparr>f_pos := word_of_nat (p + length ?c)\<rparr>))"
        using len by (simp add: dev_read_def sys_result_nat BUFFER_SIZE_def del: length_drop)
      have "dev_rep fsl wenv (s, f\<lparr>f_pos := word_of_nat (p + length ?c)\<rparr>) log (p + length ?c)"
        using assms pos by (simp add: dev_rep_def d)
      then show ?thesis
        using run len k(2) locate_drop [OF loc] by (auto simp: d dev_ops_def)
    qed
  qed
qed

lemma dev_write_law:
  assumes "dev_rep fsl wenv d log p" and x: "is_command x" "length x \<le> BUFFER_SIZE"
  shows "\<exists>d'. op_write (dev_ops fsl wenv) d x = Some (Inr (length x), d')
    \<and> dev_rep fsl wenv d' (keep_recent MAXW log x) p"
proof -
  obtain s f where d: "d = (s, f)" by (cases d)
  from assms(1) [unfolded d] show ?thesis
  proof (rule dev_repE, goal_cases)
    case (1 L)
    note h = this
    have n: "unat (word_of_nat (length x) :: size_t) = length x"
      using x by (intro unat_of_nat_small) (simp add: BUFFER_SIZE_def)
    have nl: "newline \<in> set x" using x(1) last_in_set [of x] by (auto simp: is_command_def)
    have "spec_write (kmalloc_max s) wenv x (length x) (log, []) =
        (word_of_nat (length x), (keep_recent MAXW log x, []))"
      using h(8,10) x nl accepted_command [OF x(1)]
      by (simp add: write_succeeds_def copy_from_user_def grow_ok_def Let_def)
    with aesd_write_refines_leak [OF h(1,2), of wenv x "word_of_nat (length x)" "f_pos f"] n
    obtain s' L' where w: "aesd_write wenv f x (word_of_nat (length x)) (f_pos f) s =
        Some (word_of_nat (length x), f_pos f, s')" "driver_rel 1 s' (keep_recent MAXW log x) [] L'"
      "kmalloc_max s' = kmalloc_max s" by auto
    have "\<forall>y \<in> set (keep_recent MAXW log x). length y \<le> BUFFER_SIZE"
      using h(7) x(2) by (auto simp: keep_recent_def dest: list.set_sel(2) [rotated] split: if_splits)
    with w show ?case using assms(1) n x(2)
      by (auto simp: d dev_rep_def dev_ops_def dev_write_def sys_result_nat BUFFER_SIZE_def)
  qed
qed

lemma dev_tell_law:
  assumes "dev_rep fsl wenv d log p"
  shows "op_lseek (dev_ops fsl wenv) d 0 SEEK_CUR = Some (Inr (int p), d)"
proof -
  obtain s f where d: "d = (s, f)" by (cases d)
  from assms [unfolded d] show ?thesis
  proof (rule dev_repE, goal_cases)
    case (1 L)
    note h = this
    have same: "f\<lparr>f_pos := word_of_nat p\<rparr> = f" using h(3) by simp
    have "fsl (f_pos f) 0 SEEK_CUR (word_of_nat (length (concat log))) = (word_of_nat p, word_of_nat p)"
      using h(3,9) by (simp add: llseek_documented_def)
    from aesd_llseek_spec [where fsl = fsl, OF h(1,2) this] h(5) show ?case
      by (simp add: d dev_ops_def dev_lseek_def sys_result_nat sint_word_of_nat same)
  qed
qed

lemma word_total: "n < 10 * 2 ^ 31 \<Longrightarrow> unat (word_of_nat n :: 64 word) = n"
  by (intro unat_of_nat_small) simp

lemma dev_seek_law:
  assumes "dev_rep fsl wenv d log q" and "q = max p (length (concat log))"
  shows "\<exists>r d'. op_lseek (dev_ops fsl wenv) d (int p) SEEK_SET = Some (r, d')
    \<and> dev_rep fsl wenv d' log p"
proof -
  obtain s f where d: "d = (s, f)" by (cases d)
  from assms(1) [unfolded d] show ?thesis
  proof (rule dev_repE, goal_cases)
    case (1 L)
    note h = this
    let ?n = "word_of_nat (length (concat log)) :: 64 word"
    have p: "p < 10 * 2 ^ 31" using h(5) assms(2) by simp
    note w = word_total [OF p] word_total [OF h(6)]
    obtain r pos where fs: "fsl (f_pos f) (word_of_nat p) SEEK_SET ?n = (r, pos)" by fastforce
    have "pos = word_of_nat p"
    proof (cases "p \<le> length (concat log)")
      case True
      then have "fsl (f_pos f) (word_of_nat p) SEEK_SET ?n = (word_of_nat p, word_of_nat p)"
        using h(6,9) w unfolding llseek_documented_def seeks_inside_def by simp
      then show ?thesis using fs by simp
    next
      case False
      then have "snd (fsl (f_pos f) (word_of_nat p) SEEK_SET ?n) = f_pos f"
        using h(9) w unfolding llseek_documented_def by simp
      then show ?thesis using fs h(3) assms(2) False by simp
    qed
    with aesd_llseek_spec [where fsl = fsl, OF h(1,2) fs] assms(1) p show ?case
      by (simp add: d dev_ops_def dev_lseek_def dev_rep_def)
  qed
qed

lemma dev_ioctl_law:
  assumes "dev_rep fsl wenv d log p"
  shows "\<exists>r d'. op_ioctl (dev_ops fsl wenv) d AESDCHAR_IOCSEEKTO args = Some (r, d')
    \<and> dev_rep fsl wenv d' log (dev_jump log p args)"
proof -
  obtain s f where d: "d = (s, f)" by (cases d)
  let ?k = "unat (write_cmd args)" and ?o = "unat (write_cmd_offset args)"
  from assms [unfolded d] show ?thesis
  proof (rule dev_repE, goal_cases)
    case (1 L)
    note h = this
    obtain ret pos where sp: "spec_ioctl fsl log (f_pos f) AESDCHAR_IOCSEEKTO (0, args) = (ret, pos)"
      by fastforce
    define q where "q = spec_seek_bytes log ?k ?o"
    have "length (concat (take ?k log)) \<le> length (concat log)"
      by (metis append_take_drop_id concat_append le_add1 length_append)
    moreover have "?o < 2 ^ 32" using unsigned_less [of "write_cmd_offset args"] by simp
    ultimately have "q < 2 ^ 64" using h(6) by (simp add: q_def spec_seek_bytes_def)
    then have uq: "unat (word_of_nat q :: 64 word) = q" by (intro unat_of_nat_small) simp
    have "pos = word_of_nat (dev_jump log p args) \<and> dev_jump log p args < 10 * 2 ^ 31"
    proof (cases "?k < MAXW \<and> q \<le> length (concat log)")
      case True
      then have "fsl (f_pos f) (word_of_nat q) SEEK_SET (word_of_nat (length (concat log)))
          = (word_of_nat q, word_of_nat q)"
        using h(6,9) uq word_total [OF h(6)] unfolding llseek_documented_def seeks_inside_def by simp
      then show ?thesis using sp True h(6)
        by (auto simp: spec_ioctl_def spec_llseek_def dev_jump_def q_def)
    next
      case False
      have "snd (fsl (f_pos f) (word_of_nat q) SEEK_SET (word_of_nat (length (concat log)))) = f_pos f"
        if "?k < MAXW"
        using h(9) that False uq word_total [OF h(6)] unfolding llseek_documented_def by simp
      then have "pos = f_pos f" using sp False
        by (auto simp: spec_ioctl_def spec_llseek_def q_def [symmetric] split: if_splits)
      then show ?thesis using h(3,5) False by (auto simp: dev_jump_def q_def Let_def)
    qed
    with aesd_ioctl_spec [OF h(1,2) sp] assms show ?case
      by (simp add: d dev_ops_def dev_ioctl_def dev_rep_def)
  qed
qed

interpretation dev: log_device "dev_ops fsl wenv" "dev_rep fsl wenv" dev_put dev_jump BUFFER_SIZE
proof (unfold_locales, goal_cases)
  case (1 d log p)
  then show ?case by (rule dev_read_law)
next
  case (2 d log p x)
  then show ?case unfolding dev_put_def fst_conv snd_conv by (rule dev_write_law)
next
  case (3 d log p)
  then show ?case by (rule dev_tell_law)
next
  case (4 d log q p)
  then show ?case by (rule dev_seek_law)
next
  case (5 d log p args)
  then show ?case by (rule dev_ioctl_law)
next
  case (6 d log p)
  then show ?case by (auto simp: dev_ops_def)
qed

text \<open>The device opened by several threads: it holds the last ten entries of what was written.\<close>

definition fresh_file :: "file" where
  "fresh_file = \<lparr>f_pos = 0, private_data = Some Aesd_device\<rparr>"

lemma dev_rep_position: "dev_rep fsl wenv (s, f) log p \<Longrightarrow> unat (f_pos f) = p"
  by (erule dev_repE)

lemma keep_recent_history:
  "keep_recent MAXW (lastn MAXW hist) x = lastn MAXW (hist @ [x])"
proof -
  have "length (lastn MAXW hist) \<le> MAXW" by (simp add: lastn_def)
  then have "keep_recent MAXW (lastn MAXW hist) x = lastn MAXW (lastn MAXW hist @ [x])"
    by (rule keep_recent_lastn) simp
  then show ?thesis by (simp only: lastn_lastn_append)
qed

interpretation dev_shared: shared_log "dev_ops fsl wenv" "dev_rep fsl wenv" dev_put dev_jump BUFFER_SIZE
  "lastn MAXW" fresh_file "\<lambda>f. unat (f_pos f)"
proof (unfold_locales, goal_cases)
  case (1 sh f log p)
  then show ?case by (rule dev_rep_position)
next
  case (2 sh f log p sh0 g log0 q)
  then show ?case by (auto simp: dev_rep_def)
next
  case (3 h p x)
  then show ?case unfolding dev_put_def fst_conv by (rule keep_recent_history)
qed simp

text \<open>The packet number \<open>n\<close> is among the last ten of \<open>m\<close> packets if fewer than ten came after it.\<close>

lemma lastn_contains:
  assumes "0 < n" and "n \<le> m" and "m \<le> length hist" and "m < n + k"
  shows "\<exists>pre post. concat (lastn k (take m hist)) = pre @ hist ! (n - 1) @ post"
proof -
  let ?l = "lastn k (take m hist)"
  have "m - k \<le> n - 1" using assms by simp
  moreover have "?l = drop (m - k) (take m hist)" using assms(3) by (simp add: lastn_def)
  ultimately have "n - 1 - (m - k) < length ?l" "?l ! (n - 1 - (m - k)) = hist ! (n - 1)"
    using assms by simp_all
  then have "hist ! (n - 1) \<in> set ?l" by (metis nth_mem)
  then obtain a b where "?l = a @ hist ! (n - 1) # b" by (meson split_list)
  then show ?thesis by auto
qed

text \<open>A whole session on the driver.\<close>

lemma dev_session:
  assumes "productive plan" and "\<forall>n. realloc_ok n"
    and "dev_rep fsl wenv (log_file s) log p" and "\<not> log_locked s"
    and "\<forall>x \<in> set xs. is_command x \<and> length x < BUFFER_SIZE" and "newline \<notin> set tail"
  shows "\<exists>s'. client_handler (dev_ops fsl wenv) plan True realloc_ok args (concat xs @ tail) s = Some s'
    \<and> sent s' = sent s @ concat (fst (serve dev_put dev_jump xs log p))
    \<and> (\<exists>log' p'. snd (serve dev_put dev_jump xs log p) = (log', p')
         \<and> dev_rep fsl wenv (log_file s') log' p')
    \<and> \<not> log_locked s' \<and> blocks s' = blocks s \<and> closed s' = closed s @ [client_fd args, file_fd args]"
proof -
  have "fits (length (replicate BUFFER_SIZE (None :: char option))) xs"
    using assms(5) by (simp add: fits_short)
  moreover have "\<forall>x \<in> set xs. is_command x \<and> length x \<le> BUFFER_SIZE" using assms(5) by auto
  ultimately obtain d k e where "recv_loop (dev_ops fsl wenv) plan realloc_ok (concat xs @ tail)
      (replicate BUFFER_SIZE None) 0 (s\<lparr>blocks := blocks s + 1\<rparr>) =
      Some ((after d (concat (fst (serve dev_put dev_jump xs log p))) k e (s\<lparr>blocks := blocks s + 1\<rparr>))
        \<lparr>blocks := blocks s\<rparr>)"
    "dev_rep fsl wenv d (fst (snd (serve dev_put dev_jump xs log p)))
       (snd (snd (serve dev_put dev_jump xs log p)))"
    using dev.recv_packets [where realloc_ok = realloc_ok and s = "s\<lparr>blocks := blocks s + 1\<rparr>"
      and fsl = fsl and wenv = wenv and log = log and p = p
        and buffer = "replicate BUFFER_SIZE None" and tail = tail and xs = xs, OF assms(1)] assms(2-4,6)
    by (auto simp: BUFFER_SIZE_def)
  then show ?thesis
    using assms(4) by (auto simp: client_handler_def receivePackets_def prod_eq_iff)
qed

section \<open>Text packets\<close>

lemma serve_text:
  assumes "\<forall>x \<in> set xs. is_text x" and "length log \<le> MAXW"
  shows "fst (serve dev_put dev_jump xs log p) =
    map (\<lambda>i. drop p (concat (lastn MAXW (log @ take (Suc i) xs)))) [0..<length xs]"
  using assms
proof (induction xs arbitrary: log)
  case Nil
  then show ?case by simp
next
  case (Cons x xs)
  let ?log = "keep_recent MAXW log x"
  have upd: "after_packet dev_put dev_jump x log p = (?log, p)"
    using Cons.prems(1) by (simp add: after_packet_def is_text_def dev_put_def)
  have k: "?log = lastn MAXW (log @ [x])" using keep_recent_lastn [OF Cons.prems(2)] by simp
  have "length ?log \<le> MAXW" using Cons.prems(2) by (intro length_keep_recent) simp_all
  note IH = Cons.IH [OF _ this]
  have r: "lastn MAXW (?log @ take (Suc i) xs) = lastn MAXW (log @ x # take (Suc i) xs)" for i
    using lastn_lastn_append [of MAXW "log @ [x]" "take (Suc i) xs"] unfolding k by simp
  let ?g = "\<lambda>i. drop p (concat (lastn MAXW (log @ take (Suc i) (x # xs))))"
  have "fst (serve dev_put dev_jump (x # xs) log p)
      = drop p (concat ?log) # fst (serve dev_put dev_jump xs ?log p)"
    by (simp add: upd case_prod_beta)
  also have "fst (serve dev_put dev_jump xs ?log p) = map (\<lambda>i. ?g (Suc i)) [0..<length xs]"
    using IH Cons.prems(1) r by (simp del: MAXW_eq)
  also have "drop p (concat ?log) = ?g 0" unfolding k by simp
  also have "?g 0 # map (\<lambda>i. ?g (Suc i)) [0..<length xs] = map ?g (0 # map Suc [0..<length xs])"
    by (simp add: comp_def)
  also have "0 # map Suc [0..<length xs] = [0..<length (x # xs)]"
    by (simp add: map_Suc_upt upt_conv_Cons del: upt_Suc)
  finally show ?case .
qed

section \<open>A socket that fails\<close>

lemma sendFileToSocket_fails:
  assumes rep: "dev_rep fsl wenv (log_file s) log p" and some: "p < length (concat log)"
    and fails: "plan (sock_writes s) = Write_fails e" "e \<noteq> EINTR"
  shows "\<exists>s' q. sendFileToSocket (dev_ops fsl wenv) plan s = Some (- 1, s') \<and> sent s' = sent s
    \<and> p < q \<and> dev_rep fsl wenv (log_file s') log q"
proof -
  obtain chunk d where r: "op_read (dev_ops fsl wenv) (log_file s) BUFFER_SIZE = Some (Inr chunk, d)"
    "length chunk \<le> BUFFER_SIZE" "chunk \<noteq> []" "dev_rep fsl wenv d log (p + length chunk)"
    using dev_read_law [OF rep] some by (metis leD)
  obtain e0 where tell: "file_call (\<lambda>d. op_lseek (dev_ops fsl wenv) d 0 SEEK_CUR) s
      = Some (Inr (int p), after (log_file s) [] (sock_writes s) e0 s)"
    using file_call_after [where f = "\<lambda>d. op_lseek (dev_ops fsl wenv) d 0 SEEK_CUR",
        OF dev_tell_law [OF rep]] by blast
  let ?s = "after (log_file s) [] (sock_writes s) e0 s"
  obtain e1 where rd: "file_call (\<lambda>d. op_read (dev_ops fsl wenv) d BUFFER_SIZE) ?s
      = Some (Inr chunk, after d [] (sock_writes s) e1 s)"
    using file_call_after [where f = "\<lambda>d. op_read (dev_ops fsl wenv) d BUFFER_SIZE" and s = ?s] r(1)
    by auto
  let ?t = "after d [] (sock_writes s) e1 s"
  have "send_chunk plan chunk 0 ?t = Some (None, ?t\<lparr>sock_writes := Suc (sock_writes s), sys_errno := e\<rparr>)"
    using r(3) fails send_chunk_step [of 0 chunk plan ?t] by (simp add: sock_write_def)
  then have "send_loop (dev_ops fsl wenv) plan 0 ?s
      = Some (None, ?t\<lparr>sock_writes := Suc (sock_writes s), sys_errno := e\<rparr>)"
    using send_loop_step [of "dev_ops fsl wenv" plan 0 ?s] rd r(2,3) by simp
  then show ?thesis using tell r(3,4)
    by (intro exI [of _ "?t\<lparr>sock_writes := Suc (sock_writes s), sys_errno := e\<rparr>"]
        exI [of _ "p + length chunk"]) (simp add: sendFileToSocket_def)
qed

end
