(* ===== verification/ServerOnFile.thy ===== *)
theory ServerOnFile
  imports ServerThreads
begin

text \<open>
  The server on a regular file (\<open>USE_AESD_CHAR_DEVICE\<close> is 0): POSIX \<open>read\<close>, \<open>write\<close> and \<open>lseek\<close>
  on a file opened with \<open>O_RDWR | O_APPEND\<close>. A \<open>write\<close> appends and leaves the file offset at the
  new end; the seek command is not known to it (\<open>ENOTTY\<close>). Reads and writes of the file are taken
  to succeed in full, and its size to stay below the limit of \<open>off_t\<close>.
\<close>

text \<open>The content, which all who have opened the file share, and the offset of the open file.\<close>

type_synonym regular_file = "char list \<times> nat"

abbreviation content :: "regular_file \<Rightarrow> char list" where "content \<equiv> fst"
abbreviation file_offset :: "regular_file \<Rightarrow> nat" where "file_offset \<equiv> snd"

definition file_read :: "regular_file \<Rightarrow> nat \<Rightarrow> (char list sys \<times> regular_file) option" where
  "file_read d n =
     (let chunk = take n (drop (file_offset d) (content d))
      in Some (Inr chunk, (content d, file_offset d + length chunk)))"

definition file_append :: "regular_file \<Rightarrow> char list \<Rightarrow> (nat sys \<times> regular_file) option" where
  "file_append d bytes =
     (let c = content d @ bytes in Some (Inr (length bytes), (c, length c)))"

definition file_lseek :: "regular_file \<Rightarrow> int \<Rightarrow> u32 \<Rightarrow> (int sys \<times> regular_file) option" where
  "file_lseek d off whence =
     (let base = (if whence = SEEK_SET then 0
                  else if whence = SEEK_CUR then int (file_offset d) else int (length (content d)))
      in if base + off < 0 then Some (Inl 22, d)
         else Some (Inr (base + off), (content d, nat (base + off))))"

definition file_ops_of :: "regular_file file_ops" where
  "file_ops_of = \<lparr>op_read = file_read, op_write = file_append, op_lseek = file_lseek,
     op_ioctl = (\<lambda>d cmd args. Some (Inl 25, d)), op_fsync = (\<lambda>d. Some (Inr (), d))\<rparr>"

definition file_rep :: "regular_file \<Rightarrow> char list list \<Rightarrow> nat \<Rightarrow> bool" where
  "file_rep d log p \<longleftrightarrow> content d = concat log \<and> file_offset d = p"

definition file_put :: "char list list \<Rightarrow> nat \<Rightarrow> char list \<Rightarrow> char list list \<times> nat" where
  "file_put log p x = (log @ [x], length (concat (log @ [x])))"

definition file_jump :: "char list list \<Rightarrow> nat \<Rightarrow> aesd_seekto \<Rightarrow> nat" where
  "file_jump log p args = p"

interpretation appended: log_device file_ops_of file_rep file_put file_jump limit
proof (unfold_locales, goal_cases)
  case (1 d log p)
  have "drop p (concat log) = take BUFFER_SIZE (drop p (concat log)) @ drop BUFFER_SIZE (drop p (concat log))"
    by (rule append_take_drop_id [symmetric])
  with 1 show ?case
    by (auto simp: file_ops_of_def file_read_def file_rep_def Let_def BUFFER_SIZE_def simp del: append_take_drop_id)
next
  case (2 d log p x)
  then show ?case by (simp add: file_ops_of_def file_append_def file_rep_def file_put_def Let_def)
next
  case (3 d log p)
  then show ?case
    by (cases d) (simp add: file_ops_of_def file_lseek_def file_rep_def SEEK_CUR_def SEEK_SET_def)
next
  case (4 d log q p)
  then show ?case by (simp add: file_ops_of_def file_lseek_def file_rep_def)
next
  case (5 d log p args)
  then show ?case by (simp add: file_ops_of_def file_rep_def file_jump_def)
next
  case (6 d log p)
  then show ?case by (simp add: file_ops_of_def)
qed

text \<open>A file opened by several threads: it holds all that was ever written.\<close>

interpretation appended_shared: shared_log file_ops_of file_rep file_put file_jump BUFFER_SIZE "\<lambda>h. h" 0 "\<lambda>p. p"
proof (unfold_locales, goal_cases)
  case (1 sh f log p)
  then show ?case by (simp add: file_rep_def)
next
  case (2 sh f log p sh0 g log0 q)
  then show ?case by (simp add: file_rep_def)
next
  case (3 h p x)
  then show ?case by (simp add: file_put_def)
qed simp

lemma own_place_file:
  "own_place file_put (\<lambda>h. h) hist n p \<Longrightarrow> n \<le> length hist \<Longrightarrow> p = length (concat (take n hist))"
  by (cases n) (simp_all add: own_place_def file_put_def take_Suc_conv_app_nth)

lemma drop_concat_take:
  "n \<le> m \<Longrightarrow> drop (length (concat (take n xs))) (concat (take m xs)) = concat (drop n (take m xs))"
proof -
  assume "n \<le> m"
  then have "concat (take m xs) = concat (take n xs) @ concat (drop n (take m xs))"
    by (metis append_take_drop_id concat_append min.absorb1 take_take)
  then show ?thesis by simp
qed

text \<open>After a packet was appended nothing is left to read, so every reply is empty.\<close>

lemma file_replies_empty:
  assumes "length (concat log) \<le> p"
  shows "\<forall>r \<in> set (fst (serve file_put file_jump xs log p)). r = []"
  using assms
proof (induction xs arbitrary: log p)
  case Nil
  then show ?case by simp
next
  case (Cons x xs)
  obtain log1 p1 where upd: "after_packet file_put file_jump x log p = (log1, p1)" by fastforce
  then have "length (concat log1) \<le> p1"
    using Cons.prems by (auto simp: after_packet_def file_put_def file_jump_def split: if_splits option.splits)
  with Cons.IH [OF this] upd show ?case by (simp add: case_prod_beta)
qed

text \<open>Text packets are appended one after the other.\<close>

lemma file_serve_text:
  assumes "\<forall>x \<in> set xs. is_text x"
  shows "fst (snd (serve file_put file_jump xs log p)) = log @ xs"
  using assms
proof (induction xs arbitrary: log p)
  case Nil
  then show ?case by simp
next
  case (Cons x xs)
  then show ?case by (simp add: after_packet_def is_text_def file_put_def case_prod_beta)
qed

lemma file_session:
  assumes "productive plan" and "\<forall>n. realloc_ok n" and "\<not> log_locked s"
    and "log_file s = ([], 0)"
    and "\<forall>x \<in> set xs. is_command x \<and> length x < BUFFER_SIZE \<and> is_text x"
  shows "\<exists>s'. client_handler file_ops_of plan True realloc_ok args (concat xs) s = Some s'
    \<and> sent s' = sent s \<and> content (log_file s') = concat xs"
proof -
  have "fits (length (replicate BUFFER_SIZE (None :: char option))) xs"
    using assms(5) by (simp add: fits_short)
  moreover have "\<forall>x \<in> set xs. is_command x \<and> length x \<le> BUFFER_SIZE" using assms(5) by auto
  moreover have "file_rep (log_file s) [] 0" using assms(4) by (simp add: file_rep_def)
  ultimately obtain d k e where run: "recv_loop file_ops_of plan realloc_ok (concat xs)
      (replicate BUFFER_SIZE None) 0 (s\<lparr>blocks := blocks s + 1\<rparr>) =
      Some ((after d (concat (fst (serve file_put file_jump xs [] 0))) k e (s\<lparr>blocks := blocks s + 1\<rparr>))
        \<lparr>blocks := blocks s\<rparr>)"
    "file_rep d (fst (snd (serve file_put file_jump xs [] 0))) (snd (snd (serve file_put file_jump xs [] 0)))"
    using appended.recv_packets [where realloc_ok = realloc_ok and s = "s\<lparr>blocks := blocks s + 1\<rparr>"
        and log = "[]" and p = 0 and buffer = "replicate BUFFER_SIZE None" and tail = "[]" and xs = xs
        and limit = BUFFER_SIZE, OF assms(1)] assms(2,3)
    by (auto simp: BUFFER_SIZE_def)
  have "concat (fst (serve file_put file_jump xs [] 0)) = []"
    using file_replies_empty [of "[]" 0 xs] by auto
  moreover have "content d = concat xs"
    using run(2) file_serve_text [of xs "[]" 0] assms(5) by (simp add: file_rep_def)
  ultimately show ?thesis using run(1) by (auto simp: client_handler_def receivePackets_def)
qed

end
