(* ===== verification/ServerMain.thy ===== *)
theory ServerMain
  imports Server
begin

text \<open>
  The main thread of the socket server, \<open>server/aesdsocket.c\<close>: arguments, signals, the listening
  socket, accepting connections and starting a thread for each, and the orderly end; and, for the
  build that logs to a file (\<open>USE_AESD_CHAR_DEVICE\<close> is 0), the timer that adds a time stamp.

  The answers of the operating system are arguments. \<open>Inl\<close> is a call of \<open>exit\<close> with its status;
  \<open>None\<close> is waiting for ever, or reading a variable that was never set.
\<close>

section \<open>State\<close>

definition EXIT_FAILURE :: int where "EXIT_FAILURE = 1"
definition EXIT_SUCCESS :: int where "EXIT_SUCCESS = 0"
definition SIGINT :: int where "SIGINT = 2"
definition SIGTERM :: int where "SIGTERM = 15"

text \<open>The timer of \<open>createTimer\<close>: the descriptor its function is given, and its times in seconds.\<close>

record posix_timer =
  sival_fd :: int
  it_value_sec :: nat
  it_interval_sec :: nat

record proc =
  caught_exit_signal :: bool
  socket_fd :: int
  shut_down :: "int list"
  open_fds :: "int list"
  handlers :: "int list"
  syslogs :: "string list"
  queue :: "thread_args list"
  started :: "thread_args list"
  joined :: "thread_args list"
  items :: nat
  addrinfos :: nat
  daemonized :: bool
  timer :: "posix_timer option"
  usage_texts :: "string list"

definition initial_proc :: proc where
  "initial_proc = \<lparr>caught_exit_signal = False, socket_fd = - 1, shut_down = [], open_fds = [],
     handlers = [], syslogs = [], queue = [], started = [], joined = [], items = 0, addrinfos = 0,
     daemonized = False, timer = None, usage_texts = []\<rparr>"

definition close_fd :: "int \<Rightarrow> proc \<Rightarrow> proc" where
  "close_fd fd p = p\<lparr>open_fds := remove1 fd (open_fds p)\<rparr>"

definition open_fd :: "int \<Rightarrow> proc \<Rightarrow> proc" where
  "open_fd fd p = p\<lparr>open_fds := fd # open_fds p\<rparr>"

definition syslog :: "string \<Rightarrow> proc \<Rightarrow> proc" where
  "syslog msg p = p\<lparr>syslogs := syslogs p @ [msg]\<rparr>"

section \<open>Signals\<close>

definition signal_handler :: "int \<Rightarrow> proc \<Rightarrow> proc" where
  "signal_handler signal_number p =
     (if signal_number = SIGINT \<or> signal_number = SIGTERM then
        (let p1 = p\<lparr>caught_exit_signal := True\<rparr>
         in if socket_fd p1 \<noteq> - 1 then p1\<lparr>shut_down := socket_fd p1 # shut_down p1\<rparr> else p1)
      else p)"

text \<open>A signal reaches the handler if one was registered for it.\<close>

definition deliver :: "int option \<Rightarrow> proc \<Rightarrow> proc" where
  "deliver sig p = (case sig of None \<Rightarrow> p | Some n \<Rightarrow> if n \<in> set (handlers p) then signal_handler n p else p)"

text \<open>The arguments say whether each \<open>sigaction\<close> succeeds.\<close>

definition registerSignalHandler :: "bool \<Rightarrow> bool \<Rightarrow> proc \<Rightarrow> (int + unit) \<times> proc" where
  "registerSignalHandler ok_int ok_term p =
     (if \<not> ok_int then (Inl EXIT_FAILURE, p)
      else let p1 = p\<lparr>handlers := SIGINT # handlers p\<rparr>
           in if \<not> ok_term then (Inl EXIT_FAILURE, p1)
              else (Inr (), p1\<lparr>handlers := SIGTERM # handlers p1\<rparr>))"

section \<open>Setting up\<close>

record bind_env =
  socket_ans :: int
  getaddrinfo_ok :: bool
  bind_ok :: bool

definition bindPortToSocket :: "bind_env \<Rightarrow> proc \<Rightarrow> (int + int) \<times> proc" where
  "bindPortToSocket env p =
     (let fd = socket_ans env
      in if fd = - 1 then (Inl EXIT_FAILURE, p)
         else let p1 = open_fd fd p
              in if \<not> getaddrinfo_ok env then (Inl EXIT_FAILURE, p1)
                 else let p2 = p1\<lparr>addrinfos := addrinfos p1 + 1\<rparr>
                      in if \<not> bind_ok env
                         then (Inl EXIT_FAILURE,
                               (close_fd fd p2)\<lparr>addrinfos := addrinfos (close_fd fd p2) - 1\<rparr>)
                         else (Inr fd, p2\<lparr>addrinfos := addrinfos p2 - 1\<rparr>))"

definition Daemonize :: "bool \<Rightarrow> bool \<Rightarrow> proc \<Rightarrow> (int + unit) \<times> proc" where
  "Daemonize daemon_ok beDaemon p =
     (if beDaemon then
        (if \<not> daemon_ok then (Inl EXIT_FAILURE, p) else (Inr (), p\<lparr>daemonized := True\<rparr>))
      else (Inr (), p))"

section \<open>Accepting connections\<close>

text \<open>
  One round of waiting: a signal that is handled before the loop condition is looked at, the
  answer of \<open>accept\<close>, and a signal that is handled while \<open>accept\<close> waits. An accepted connection
  comes with the address that \<open>getnameinfo\<close> finds, if it finds one.
\<close>

datatype accept_answer = Accepted nat "string option" | Accept_fails nat

type_synonym round = "int option \<times> accept_answer \<times> int option"

text \<open>
  If \<open>getnameinfo\<close> fails, \<open>host\<close> is used without having been set. With no rounds left, the call
  waits for ever.
\<close>

fun waitForConnection :: "round list \<Rightarrow> proc \<Rightarrow> (int \<times> round list \<times> proc) option" where
  "waitForConnection [] p = (if caught_exit_signal p then Some (- 1, [], p) else None)"
| "waitForConnection ((sig1, ans, sig2) # rounds) p =
     (let p1 = deliver sig1 p
      in if caught_exit_signal p1 then Some (- 1, rounds, p1)
         else let p2 = deliver sig2 p1
              in case ans of
                   Accept_fails e \<Rightarrow>
                     if e = EINTR then
                       (if caught_exit_signal p2 then Some (- 1, rounds, p2)
                        else waitForConnection rounds p2)
                     else if e = EBADF then Some (- 1, rounds, p2)
                     else waitForConnection rounds p2
                 | Accepted fd host \<Rightarrow>
                     (case host of
                        None \<Rightarrow> None
                      | Some h \<Rightarrow>
                          Some (int fd, rounds,
                            syslog (''Closed Signal from '' @ h)
                              (syslog (''Accepted connection from '' @ h) (open_fd (int fd) p2)))))"

lemma waitForConnection_shorter:
  "waitForConnection rounds p = Some (fd, rest, p') \<Longrightarrow> fd \<noteq> - 1 \<Longrightarrow> length rest < length rounds"
  by (induction rounds p rule: waitForConnection.induct)
     (auto simp: Let_def less_Suc_eq split: if_splits accept_answer.splits option.splits)

text \<open>
  The answers in one turn of the main loop: \<open>malloc\<close>, \<open>open\<close> of the log (-1 if it fails), and
  \<open>pthread_create\<close>. \<open>n\<close> numbers the turns.
\<close>

record turn_env =
  item_ok :: bool
  log_ans :: int
  create_ok :: bool

text \<open>A queue item is allocated and the log is opened; the item is put at the end of the queue.\<close>

definition new_item :: "int \<Rightarrow> proc \<Rightarrow> proc" where
  "new_item log_fd p =
     (let p1 = p\<lparr>items := items p + 1\<rparr> in if log_fd = - 1 then p1 else open_fd log_fd p1)"

definition enqueue :: "thread_args \<Rightarrow> proc \<Rightarrow> proc" where
  "enqueue args p = p\<lparr>started := started p @ [args], queue := queue p @ [args]\<rparr>"

function accept_loop ::
  "(nat \<Rightarrow> turn_env) \<Rightarrow> nat \<Rightarrow> round list \<Rightarrow> proc \<Rightarrow> (round list \<times> proc) option"
where
  "accept_loop env n rounds p =
     (if caught_exit_signal p then Some (rounds, p)
      else (case waitForConnection rounds p of
         None \<Rightarrow> None
       | Some (client, rest, p1) \<Rightarrow>
           if client = - 1 then Some (rest, p1)
           else if \<not> item_ok (env n) then Some (rest, p1)
           else
             (let log_fd = log_ans (env n);
                  p2 = new_item log_fd p1;
                  args = \<lparr>file_fd = log_fd, client_fd = client\<rparr>
              in if \<not> create_ok (env n) then Some (rest, p2)
                 else accept_loop env (Suc n) rest (enqueue args p2))))"
  by pat_completeness auto
termination
  by (relation "measure (\<lambda>(env, n, rounds, p). length rounds)")
     (auto dest: waitForConnection_shorter)

declare accept_loop.simps [simp del]

text \<open>
  Joining the threads in the order they were started; a thread that never ends is waited for. In this
  sequential model \<open>ends\<close> says which threads end, and a thread closes its descriptors when it is joined;
  \<open>ServerProcess\<close> has the threads side by side, where they end and close by themselves.
\<close>

fun join_loop :: "(thread_args \<Rightarrow> bool) \<Rightarrow> thread_args list \<Rightarrow> proc \<Rightarrow> proc option" where
  "join_loop ends [] p = Some p"
| "join_loop ends (t # ts) p =
     (if ends t
      then join_loop ends ts
             (close_fd (file_fd t) (close_fd (client_fd t)
               (p\<lparr>joined := joined p @ [t], queue := ts, items := items p - 1\<rparr>)))
      else None)"

section \<open>The main function\<close>

record main_env =
  sigint_ok :: bool
  sigterm_ok :: bool
  bind_answers :: bind_env
  daemon_ok :: bool
  listen_ok :: bool
  mutex_ok :: bool
  turns :: "nat \<Rightarrow> turn_env"
  thread_ends :: "thread_args \<Rightarrow> bool"
  timer_log :: int
  timer_create_ok :: bool
  timer_settime_ok :: bool
  remove_ok :: bool

text \<open>
  The timer first fires after ten seconds and then every ten seconds, with the descriptor as the
  value that its function is given.
\<close>

definition createTimer :: "main_env \<Rightarrow> int \<Rightarrow> proc \<Rightarrow> (int + unit) \<times> proc" where
  "createTimer env log_fd p =
     (if \<not> timer_create_ok env then (Inl EXIT_FAILURE, p)
      else let its = \<lparr>sival_fd = log_fd, it_value_sec = 10, it_interval_sec = 10\<rparr>
           in if \<not> timer_settime_ok env then (Inl EXIT_FAILURE, p)
              else (Inr (), p\<lparr>timer := Some its\<rparr>))"

definition timer_delete :: "proc \<Rightarrow> proc" where
  "timer_delete p = p\<lparr>timer := None\<rparr>"

text \<open>From the mutex on; \<open>Inr\<close> is a return to \<open>main\<close>.\<close>

definition serve_connections ::
  "bool \<Rightarrow> main_env \<Rightarrow> round list \<Rightarrow> proc \<Rightarrow> ((int + unit) \<times> proc) option" where
  "serve_connections use_char_device env rounds p =
     (if \<not> mutex_ok env then Some (Inr (), p)
      else do {
        (rest, p1) \<leftarrow> accept_loop (turns env) 0 rounds p;
        let p2 = syslog ''Caught Signal, exiting'' p1;
        let p2' = (if use_char_device then p2 else timer_delete p2);
        p3 \<leftarrow> join_loop (thread_ends env) (queue p2') p2';
        let p4 = close_fd (socket_fd p3) p3;
        let p5 = (if use_char_device then p4 else close_fd (timer_log env) p4);
        Some (if \<not> use_char_device \<and> \<not> remove_ok env then (Inl EXIT_FAILURE, p5)
              else (Inl EXIT_SUCCESS, p5))
      })"

text \<open>Everything before the mutex.\<close>

definition set_up ::
  "bool \<Rightarrow> main_env \<Rightarrow> bool \<Rightarrow> proc \<Rightarrow> (int + unit) \<times> proc" where
  "set_up use_char_device env runAsDaemon p =
     (case registerSignalHandler (sigint_ok env) (sigterm_ok env) p of
        (Inl c, p1) \<Rightarrow> (Inl c, p1)
      | (Inr _, p1) \<Rightarrow>
          (case bindPortToSocket (bind_answers env) p1 of
             (Inl c, p2) \<Rightarrow> (Inl c, p2)
           | (Inr fd, p2) \<Rightarrow>
               (let p3 = p2\<lparr>socket_fd := fd\<rparr>
                in case Daemonize (daemon_ok env) runAsDaemon p3 of
                     (Inl c, p4) \<Rightarrow> (Inl c, p4)
                   | (Inr _, p4) \<Rightarrow>
                       if \<not> listen_ok env then (Inl EXIT_FAILURE, close_fd (socket_fd p4) p4)
                       else if use_char_device then (Inr (), p4)
                       else (let p5 = (if timer_log env = - 1 then p4 else open_fd (timer_log env) p4)
                             in createTimer env (timer_log env) p5))))"

definition socketLogger ::
  "bool \<Rightarrow> main_env \<Rightarrow> round list \<Rightarrow> bool \<Rightarrow> proc \<Rightarrow> ((int + unit) \<times> proc) option" where
  "socketLogger use_char_device env rounds runAsDaemon p =
     (case set_up use_char_device env runAsDaemon p of
        (Inl c, p1) \<Rightarrow> Some (Inl c, p1)
      | (Inr _, p1) \<Rightarrow> serve_connections use_char_device env rounds p1)"

text \<open>\<open>usage\<close> prints to the terminal and exits. The arguments include the name of the program.\<close>

definition usage :: "string \<Rightarrow> proc \<Rightarrow> ((int + unit) \<times> proc) option" where
  "usage progname p = Some (Inl EXIT_FAILURE, p\<lparr>usage_texts := usage_texts p @
     [''Usage: '' @ progname @ '' [OPTIONS]'' @ [newline, newline] @
      ''A simple example socket utility. Appends data received on port 9000 to /var/temp/aesdsocketdata'' @
      [newline, newline] @ ''Options:'' @ [newline] @
      ''  -d       Runs this application as a Daemon'' @ [newline, newline]]\<rparr>)"

definition server_main ::
  "bool \<Rightarrow> main_env \<Rightarrow> round list \<Rightarrow> string list \<Rightarrow> proc \<Rightarrow> (int \<times> proc) option" where
  "server_main use_char_device env rounds argv p =
     map_option (\<lambda>(r, p'). (case r of Inl c \<Rightarrow> c | Inr _ \<Rightarrow> 0, p'))
       (if length argv > 2 then usage (argv ! 0) p
        else if length argv = 1 then socketLogger use_char_device env rounds False p
        else if length argv = 2 \<and> argv ! 1 \<noteq> ''-d'' then usage (argv ! 0) p
        else socketLogger use_char_device env rounds True p)"

section \<open>Time stamps\<close>

text \<open>
  The function the timer runs, on the open log file. \<open>time_text\<close> is what \<open>strftime\<close> makes of the
  time, at most 499 characters. A short write closes the file and ends the process.
\<close>

definition timestamp_line :: "char list \<Rightarrow> char list" where
  "timestamp_line time_text = take 699 (''timestamp:'' @ time_text @ [newline])"

definition timestamp_handler ::
  "'d file_ops \<Rightarrow> int \<Rightarrow> char list \<Rightarrow> 'd thread_state \<Rightarrow> ((int + unit) \<times> 'd thread_state) option" where
  "timestamp_handler ops log_fd time_text s = do {
     let line = timestamp_line time_text;
     s1 \<leftarrow> pthread_mutex_lock s;
     (r, s2) \<leftarrow> file_call (\<lambda>d. op_write ops d line) s1;
     Some (if r \<noteq> Inr (length line) then (Inl EXIT_FAILURE, s2\<lparr>closed := closed s2 @ [log_fd]\<rparr>)
           else (Inr (), pthread_mutex_unlock s2))
   }"

end
