(* ===== verification/FileTimer.thy ===== *)
theory FileTimer
  imports ServerOnFile ServerMain
begin

text \<open>
  The file build with its timer. The clients open the log file with \<open>O_APPEND\<close>, but the file that
  \<open>socketLogger\<close> opens for the timer (\<open>O_RDWR | O_CREAT | O_TRUNC\<close>) is not, so its writes go to its own
  offset, over what is there.
\<close>

section \<open>The timer's open file\<close>

definition file_write :: "regular_file \<Rightarrow> char list \<Rightarrow> (nat sys \<times> regular_file) option" where
  "file_write d bytes =
     (let c = content d; p = file_offset d
      in Some (Inr (length bytes),
           (take p c @ replicate (p - length c) nul @ bytes @ drop (p + length bytes) c, p + length bytes)))"

definition timer_ops :: "regular_file file_ops" where
  "timer_ops = file_ops_of\<lparr>op_write := file_write\<rparr>"

section \<open>Packets and time stamps\<close>

text \<open>
  What is written to the file, in order: the content, and the offset of the timer's file. The offset
  of a client's file does not matter for what it writes.
\<close>

datatype file_event = Packet "char list" | Stamp "char list"

fun play :: "int \<Rightarrow> regular_file \<Rightarrow> file_event list \<Rightarrow> regular_file option" where
  "play fd (c, p) [] = Some (c, p)"
| "play fd (c, p) (Packet x # es) = do {
     s \<leftarrow> store_packet file_ops_of x (new_thread (c, 0));
     play fd (content (log_file s), p) es
   }"
| "play fd (c, p) (Stamp time_text # es) = do {
     (r, s) \<leftarrow> timestamp_handler timer_ops fd time_text (new_thread (c, p));
     (case r of Inl status \<Rightarrow> None | Inr _ \<Rightarrow> play fd (log_file s) es)
   }"

fun event_ok :: "file_event \<Rightarrow> bool" where
  "event_ok (Packet x) \<longleftrightarrow> is_command x \<and> length x < BUFFER_SIZE"
| "event_ok (Stamp time_text) \<longleftrightarrow> length time_text < 500"

fun stamps :: "file_event list \<Rightarrow> char list list" where
  "stamps [] = []"
| "stamps (Packet x # es) = stamps es"
| "stamps (Stamp time_text # es) = (''timestamp:'' @ time_text @ [newline]) # stamps es"

text \<open>The bytes of packets that are still in the file, if there were \<open>left\<close> behind the time stamps at first.\<close>

fun surviving :: "file_event list \<Rightarrow> char list \<Rightarrow> char list" where
  "surviving [] left = left"
| "surviving (Packet x # es) left = surviving es (left @ x)"
| "surviving (Stamp time_text # es) left =
     surviving es (drop (length (''timestamp:'' @ time_text @ [newline])) left)"

lemma timestamp_line_eq:
  "length time_text < 500 \<Longrightarrow> timestamp_line time_text = ''timestamp:'' @ time_text @ [newline]"
  by (simp add: timestamp_line_def)

lemma play_packet:
  assumes "is_command x" and "length x < BUFFER_SIZE"
  shows "play fd (c, p) (Packet x # es) = play fd (c @ x, p) es"
proof -
  have "file_rep (log_file (new_thread (c, 0))) [c] 0" by (simp add: file_rep_def)
  from appended.store_packet_ok [OF this _ assms(1), where limit = BUFFER_SIZE] assms(2)
  obtain d k e where "store_packet file_ops_of x (new_thread (c, 0)) = Some (after d [] k e (new_thread (c, 0)))"
    "content d = c @ x" by (auto simp: file_put_def file_rep_def)
  then show ?thesis by simp
qed

lemma play_stamp:
  assumes "length time_text < 500" and "p \<le> length c"
  shows "play fd (c, p) (Stamp time_text # es) =
    play fd (take p c @ timestamp_line time_text @ drop (p + length (timestamp_line time_text)) c,
      p + length (timestamp_line time_text)) es"
  using assms
  by (simp add: timestamp_handler_def pthread_mutex_lock_def file_call_def timer_ops_def file_write_def Let_def
      pthread_mutex_unlock_def)

text \<open>The file consists of the time stamps and what is left of the packets; a time stamp goes over what is left.\<close>

lemma play_overwrites:
  assumes "\<forall>e \<in> set es. event_ok e"
  shows "play fd (c @ rest, length c) es =
    Some (c @ concat (stamps es) @ surviving es rest, length c + length (concat (stamps es)))"
  using assms
proof (induction es arbitrary: c rest)
  case Nil
  then show ?case by simp
next
  case (Cons e es)
  show ?case
  proof (cases e)
    case (Packet x)
    with Cons.IH [of c "rest @ x"] Cons.prems show ?thesis by (simp add: play_packet del: play.simps)
  next
    case (Stamp time_text)
    let ?l = "''timestamp:'' @ time_text @ [newline]"
    have t: "length time_text < 500" "timestamp_line time_text = ?l"
      using Cons.prems by (simp_all add: Stamp timestamp_line_eq)
    have over: "take (length c) (c @ rest) = c" "drop (length c + n) (c @ rest) = drop n rest" for n by simp_all
    have "play fd (c @ rest, length c) (e # es) = play fd ((c @ ?l) @ drop (length ?l) rest, length (c @ ?l)) es"
      using play_stamp [OF t(1), of "length c" "c @ rest" fd es]
      unfolding Stamp t(2) over append_assoc length_append by simp
    with Cons.IH [of "c @ ?l" "drop (length ?l) rest"] Cons.prems Stamp show ?thesis
      by (simp add: add.assoc del: play.simps)
  qed
qed

end
