(* ===== verification/SeekCommand.thy ===== *)
theory SeekCommand
  imports ServerSession
begin

text \<open>
  The text form of a seek command, as a client writes it, and that the server reads back the
  numbers it was written with.
\<close>

definition seek_command :: "u32 \<Rightarrow> u32 \<Rightarrow> char list" where
  "seek_command a b = seek_prefix @ decimal (unat a) @ CHR '','' # decimal (unat b) @ [newline]"

lemma digit_cases: "d < 10 \<Longrightarrow> digit_value (digits ! d) = d \<and> digits ! d \<in> set digits"
proof -
  assume "d < 10"
  then have "d \<in> {0, 1, 2, 3, 4, 5, 6, 7, 8, 9}" by auto
  then show ?thesis by (auto simp: digits_def digit_value_def numeral_eq_Suc)
qed

lemma decimal_digits: "set (decimal n) \<subseteq> set digits"
proof (induction n rule: decimal.induct)
  case (1 n)
  then show ?case
    by (subst decimal.simps) (auto simp: digit_cases)
qed

lemma decimal_nonempty: "decimal n \<noteq> []"
  by (subst decimal.simps) simp

lemma decimal_value: "foldl (\<lambda>v c. v * 10 + digit_value c) 0 (decimal n) = n"
proof (induction n rule: decimal.induct)
  case (1 n)
  then show ?case
    by (subst decimal.simps) (auto simp: digit_cases)
qed

lemma digits_plain:
  "c \<in> set digits \<Longrightarrow> \<not> is_space c \<and> c \<noteq> CHR ''-'' \<and> c \<noteq> CHR ''+'' \<and> c \<noteq> nul \<and> c \<noteq> newline"
  by (auto simp: digits_def is_space_def)

lemma scan_u_decimal:
  assumes "n < 2 ^ 64" and "c \<notin> set digits"
  shows "scan_u (decimal n @ c # r) = Some (word_of_nat n, c # r)"
proof -
  obtain d ds where dec: "decimal n = d # ds" using decimal_nonempty by (cases "decimal n") auto
  have all: "\<forall>x \<in> set (d # ds). x \<in> set digits" using decimal_digits [of n] dec by auto
  note d = digits_plain [of d]
  have sp: "dropWhile is_space (d # ds @ c # r) = d # ds @ c # r" using all d by simp
  have tk: "takeWhile (\<lambda>c. c \<in> set digits) (d # ds @ c # r) = d # ds"
    "dropWhile (\<lambda>c. c \<in> set digits) (d # ds @ c # r) = c # r"
    using all assms(2) by (simp_all add: takeWhile_append dropWhile_append)
  have v: "foldl (\<lambda>v c. v * 10 + digit_value c) 0 (d # ds) = n" using decimal_value [of n] dec by simp
  have "d \<noteq> CHR ''-''" "d \<noteq> CHR ''+''" using all d by auto
  then show ?thesis
    using sp tk v assms(1) by (simp add: scan_u_def dec strtoul_value_def Let_def del: foldl_Cons)
qed

lemma length_seek_prefix: "length seek_prefix = 19"
  by (simp add: seek_prefix_def)

lemma unat_u32: "unat (x :: u32) < 2 ^ 32"
  using unsigned_less [of x] by simp

lemma scan_seek_command:
  "sscanf_seekto (seek_command a b) = Some \<lparr>write_cmd = a, write_cmd_offset = b\<rparr>"
proof -
  have lt: "unat x < 2 ^ 64" for x :: u32 using unat_u32 [of x] by simp
  have nd: "CHR '','' \<notin> set digits" "newline \<notin> set digits" by (simp_all add: digits_def)
  have "scan_u (drop 19 (seek_command a b)) = Some (a, CHR '','' # decimal (unat b) @ [newline])"
    using scan_u_decimal [OF lt nd(1), of a] by (simp add: seek_command_def length_seek_prefix)
  moreover have "take 19 (seek_command a b) = seek_prefix"
    by (simp add: seek_command_def length_seek_prefix)
  ultimately show ?thesis
    using scan_u_decimal [OF lt nd(2), of b "[]"] by (simp add: sscanf_seekto_def)
qed

lemma seek_command_plain: "c \<in> set (butlast (seek_command a b)) \<Longrightarrow> c \<noteq> newline \<and> c \<noteq> nul"
proof -
  assume "c \<in> set (butlast (seek_command a b))"
  then have "c \<in> set seek_prefix \<or> c \<in> set digits \<or> c = CHR '',''"
    using decimal_digits [of "unat a"] decimal_digits [of "unat b"]
    by (auto simp: seek_command_def butlast_append decimal_nonempty)
  then show ?thesis using digits_plain [of c] by (auto simp: seek_prefix_def)
qed

lemma seek_command_packet: "is_command (seek_command a b)" "packet_string (seek_command a b) = seek_command a b"
proof -
  have l: "last (seek_command a b) = newline" by (simp add: seek_command_def)
  show "is_command (seek_command a b)"
    using seek_command_plain [of newline a b] l by (auto simp: is_command_def seek_command_def)
  have split: "seek_command a b = butlast (seek_command a b) @ [newline]"
    using append_butlast_last_id [of "seek_command a b"] l by (simp add: seek_command_def)
  have "c \<noteq> nul" if "c \<in> set (seek_command a b)" for c
    using that seek_command_plain [of c a b] by (subst (asm) split) auto
  then show "packet_string (seek_command a b) = seek_command a b"
    by (simp add: packet_string_def)
qed

lemma after_seek_command:
  "after_packet put jump (seek_command a b) log p =
     (log, jump log p \<lparr>write_cmd = a, write_cmd_offset = b\<rparr>)"
  using scan_seek_command [of a b]
  by (simp add: after_packet_def seek_command_packet) (simp add: seek_command_def length_seek_prefix)

lemma decimal_short: "n < 10 ^ Suc k \<Longrightarrow> length (decimal n) \<le> Suc k"
proof (induction k arbitrary: n)
  case 0
  then show ?case by (subst decimal.simps) simp
next
  case (Suc k)
  have "n div 10 < 10 ^ Suc k" using Suc.prems by (simp add: less_mult_imp_div_less mult.commute)
  with Suc.IH [of "n div 10"] show ?case by (subst decimal.simps) auto
qed

lemma seek_command_short: "length (seek_command a b) < BUFFER_SIZE"
proof -
  have "length (decimal (unat x)) \<le> 10" for x :: u32
    using decimal_short [of "unat x" 9] unat_u32 [of x] by simp
  from this [of a] this [of b] show ?thesis
    by (simp add: seek_command_def length_seek_prefix BUFFER_SIZE_def)
qed

end
