(* ===== verification/ServerLife.thy ===== *)
theory ServerLife
  imports ServerMain "HOL-Library.Multiset"
begin

text \<open>
  The life of the server process: it ends when it is told to, and an orderly end gives back what
  was taken; a failure while setting up ends it before it serves anyone.
\<close>

section \<open>Being told to end\<close>

text \<open>
  A signal for which the server has a handler arrives before some round; every client that
  connects has an address that can be looked up.
\<close>

definition exit_signal :: "int option \<Rightarrow> bool" where
  "exit_signal sig \<longleftrightarrow> sig = Some SIGINT \<or> sig = Some SIGTERM"

definition signalled :: "round list \<Rightarrow> bool" where
  "signalled rounds \<longleftrightarrow> (\<exists>r \<in> set rounds. exit_signal (fst r))"

definition hosts_known :: "round list \<Rightarrow> bool" where
  "hosts_known rounds \<longleftrightarrow> (\<forall>r \<in> set rounds. \<forall>fd. fst (snd r) \<noteq> Accepted fd None)"

definition handles_signals :: "proc \<Rightarrow> bool" where
  "handles_signals p \<longleftrightarrow> SIGINT \<in> set (handlers p) \<and> SIGTERM \<in> set (handlers p)"

lemma deliver_handlers [simp]: "handlers (deliver sig p) = handlers p"
  by (simp add: deliver_def signal_handler_def Let_def split: option.split)

lemma deliver_keeps_caught: "caught_exit_signal p \<Longrightarrow> caught_exit_signal (deliver sig p)"
  by (auto simp: deliver_def signal_handler_def Let_def split: option.split)

lemma deliver_exit: "handles_signals p \<Longrightarrow> exit_signal sig \<Longrightarrow> caught_exit_signal (deliver sig p)"
  by (auto simp: deliver_def signal_handler_def handles_signals_def exit_signal_def Let_def)

lemma turn_simps [simp]:
  "handlers (new_item fd p) = handlers p" "handlers (enqueue args p) = handlers p"
  "caught_exit_signal (new_item fd p) = caught_exit_signal p"
  "caught_exit_signal (enqueue args p) = caught_exit_signal p"
  by (simp_all add: new_item_def enqueue_def open_fd_def Let_def)

lemma waitForConnection_returns:
  assumes "handles_signals p" and "hosts_known rounds" and "signalled rounds \<or> caught_exit_signal p"
  shows "\<exists>fd rest p'. waitForConnection rounds p = Some (fd, rest, p')
    \<and> (fd \<noteq> - 1 \<longrightarrow> handles_signals p' \<and> hosts_known rest \<and> (signalled rest \<or> caught_exit_signal p'))"
  using assms
proof (induction rounds p rule: waitForConnection.induct)
  case (1 p)
  then show ?case by (simp add: signalled_def)
next
  case (2 sig1 ans sig2 rounds p)
  let ?p1 = "deliver sig1 p"
  let ?p2 = "deliver sig2 ?p1"
  show ?case
  proof (cases "caught_exit_signal ?p1")
    case True
    then show ?thesis by (simp add: Let_def)
  next
    case False
    then have "\<not> exit_signal sig1" "\<not> caught_exit_signal p"
      using deliver_exit [OF 2(3)] deliver_keeps_caught by blast+
    then have rest: "signalled rounds" "hosts_known rounds" "handles_signals ?p2"
      using 2(3-5) by (auto simp: signalled_def hosts_known_def handles_signals_def)
    show ?thesis
    proof (cases ans)
      case (Accepted fd host)
      moreover obtain h where "host = Some h" using 2(4) Accepted by (cases host) (auto simp: hosts_known_def)
      ultimately show ?thesis using False rest
        by (simp add: Let_def syslog_def open_fd_def handles_signals_def)
    next
      case (Accept_fails e)
      then show ?thesis using False rest 2(1) [OF refl False refl Accept_fails] 2(2) [OF refl False refl Accept_fails]
        by (auto simp: Let_def)
    qed
  qed
qed

lemma accept_loop_returns:
  assumes "handles_signals p" and "hosts_known rounds" and "signalled rounds \<or> caught_exit_signal p"
  shows "accept_loop env n rounds p \<noteq> None"
  using assms
proof (induction env n rounds p rule: accept_loop.induct)
  case (1 env n rounds p)
  from waitForConnection_returns [OF 1(2-4)]
  obtain fd rest p' where w: "waitForConnection rounds p = Some (fd, rest, p')"
    "fd \<noteq> - 1 \<Longrightarrow> handles_signals p' \<and> hosts_known rest \<and> (signalled rest \<or> caught_exit_signal p')"
    by blast
  show ?case
  proof (cases "caught_exit_signal p \<or> fd = - 1 \<or> \<not> item_ok (env n) \<or> \<not> create_ok (env n)")
    case True
    then show ?thesis using w(1) by (subst accept_loop.simps) (auto simp: Let_def)
  next
    case False
    have "accept_loop env (Suc n) rest
        (enqueue \<lparr>file_fd = log_ans (env n), client_fd = fd\<rparr> (new_item (log_ans (env n)) p')) \<noteq> None"
      by (rule 1(1)) (use False w in \<open>auto simp: handles_signals_def\<close>)
    then show ?thesis using False w(1) by (subst accept_loop.simps) (simp add: Let_def)
  qed
qed

section \<open>The accounts\<close>

text \<open>The descriptors a thread owns, and the accounts of the process between two turns; \<open>own\<close> are the
  descriptors of the main thread.\<close>

definition thread_fds :: "thread_args \<Rightarrow> int multiset" where
  "thread_fds t = {#client_fd t#} + (if file_fd t = - 1 then {#} else {#file_fd t#})"

definition accounts :: "int multiset \<Rightarrow> proc \<Rightarrow> bool" where
  "accounts own p \<longleftrightarrow> started p = joined p @ queue p \<and> items p = length (queue p)
     \<and> mset (open_fds p) = own + (\<Sum>t \<in># mset (queue p). thread_fds t)
     \<and> - 1 \<notin> set (open_fds p)"

lemma deliver_accounts [simp]:
  "started (deliver sig p) = started p" "joined (deliver sig p) = joined p"
  "queue (deliver sig p) = queue p" "items (deliver sig p) = items p"
  "open_fds (deliver sig p) = open_fds p" "socket_fd (deliver sig p) = socket_fd p"
  by (simp_all add: deliver_def signal_handler_def Let_def split: option.split)

lemma waitForConnection_accounts:
  assumes "waitForConnection rounds p = Some (fd, rest, p')"
  shows "started p' = started p \<and> joined p' = joined p \<and> queue p' = queue p \<and> items p' = items p
    \<and> socket_fd p' = socket_fd p
    \<and> (if fd = - 1 then open_fds p' = open_fds p else 0 \<le> fd \<and> open_fds p' = fd # open_fds p)"
  using assms
proof (induction rounds p rule: waitForConnection.induct)
  case (1 p)
  then show ?case by (auto split: if_splits)
next
  case (2 sig1 ans sig2 rounds p)
  show ?case
  proof (cases "caught_exit_signal (deliver sig1 p)")
    case True
    then show ?thesis using 2(3) by (auto simp: Let_def)
  next
    case False
    show ?thesis
    proof (cases ans)
      case (Accepted fd host)
      then show ?thesis using 2(3) False
        by (auto simp: Let_def syslog_def open_fd_def split: option.splits)
    next
      case (Accept_fails e)
      then show ?thesis
        using 2(3) False 2(1) [OF refl False refl Accept_fails] 2(2) [OF refl False refl Accept_fails]
        by (auto simp: Let_def split: if_splits)
    qed
  qed
qed

lemma accounts_turn:
  assumes "started p1 = started p" "joined p1 = joined p" "queue p1 = queue p" "items p1 = items p"
    "socket_fd p1 = socket_fd p" "open_fds p1 = fd # open_fds p" "0 \<le> fd" and "accounts own p"
  shows "accounts own (enqueue \<lparr>file_fd = log_fd, client_fd = fd\<rparr> (new_item log_fd p1))
    \<and> socket_fd (enqueue \<lparr>file_fd = log_fd, client_fd = fd\<rparr> (new_item log_fd p1)) = socket_fd p"
  using assms by (auto simp: accounts_def new_item_def enqueue_def open_fd_def thread_fds_def Let_def)

lemma accept_loop_accounts:
  assumes "accept_loop env n rounds p = Some (rest, p')" and "accounts own p"
    and "\<forall>i. item_ok (env i) \<and> create_ok (env i) \<and> - 1 \<le> log_ans (env i)"
  shows "accounts own p' \<and> socket_fd p' = socket_fd p"
  using assms
proof (induction env n rounds p rule: accept_loop.induct)
  case (1 env n rounds p)
  show ?case
  proof (cases "caught_exit_signal p")
    case True
    then show ?thesis using 1(2,3) by (subst (asm) accept_loop.simps) auto
  next
    case False
    then obtain fd rest1 p1 where w: "waitForConnection rounds p = Some (fd, rest1, p1)"
      using 1(2) by (subst (asm) accept_loop.simps) (auto split: option.splits)
    note acc = waitForConnection_accounts [OF w]
    show ?thesis
    proof (cases "fd = - 1")
      case True
      then have "p' = p1" using 1(2) False w by (subst (asm) accept_loop.simps) auto
      then show ?thesis using acc True 1(3) by (simp add: accounts_def)
    next
      case fd: False
      let ?args = "\<lparr>file_fd = log_ans (env n), client_fd = fd\<rparr>"
      let ?p4 = "enqueue ?args (new_item (log_ans (env n)) p1)"
      have ok: "item_ok (env n)" "create_ok (env n)" "- 1 \<le> log_ans (env n)"
        using spec [OF 1(4), of n] by auto
      have run: "accept_loop env (Suc n) rest1 ?p4 = Some (rest, p')"
        using 1(2) False fd w ok by (subst (asm) accept_loop.simps) (simp add: Let_def)
      have "accounts own ?p4 \<and> socket_fd ?p4 = socket_fd p"
        using accounts_turn [of p1 p fd own "log_ans (env n)"] acc fd ok(3) 1(3) by simp
      with 1(1) [OF False w refl refl fd _ refl refl refl _ run _ 1(4)] ok show ?thesis by auto
    qed
  qed
qed

lemma join_loop_accounts:
  assumes "join_loop ends ts p = Some p'" and "queue p = ts" and "accounts own p"
    and "\<forall>t \<in> set ts. 0 \<le> client_fd t"
  shows "accounts own p' \<and> queue p' = [] \<and> joined p' = joined p @ ts \<and> socket_fd p' = socket_fd p
    \<and> started p' = started p \<and> timer p' = timer p"
  using assms
proof (induction ts arbitrary: p)
  case Nil
  then show ?case by auto
next
  case (Cons t ts)
  let ?p1 = "close_fd (file_fd t) (close_fd (client_fd t)
      (p\<lparr>joined := joined p @ [t], queue := ts, items := items p - 1\<rparr>))"
  have run: "ends t" "join_loop ends ts ?p1 = Some p'" using Cons.prems(1) by (simp_all split: if_splits)
  have fds: "mset (open_fds p) = thread_fds t + (own + (\<Sum>t \<in># mset ts. thread_fds t))"
    using Cons.prems(2,3) by (simp add: accounts_def)
  have no: "- 1 \<notin> set (open_fds p)" using Cons.prems(3) by (simp add: accounts_def)
  have "mset (remove1 (file_fd t) (remove1 (client_fd t) (open_fds p)))
      = own + (\<Sum>t \<in># mset ts. thread_fds t)"
    using fds no by (cases "file_fd t = - 1") (auto simp: thread_fds_def remove1_idem dest: in_set_remove1 notin_set_remove1)
  moreover have "- 1 \<notin> set (remove1 (file_fd t) (remove1 (client_fd t) (open_fds p)))"
    using no by (meson notin_set_remove1)
  ultimately have "accounts own ?p1" using Cons.prems(2,3) by (simp add: accounts_def close_fd_def)
  from Cons.IH [OF run(2) _ this] Cons.prems(4) show ?case by (simp add: close_fd_def)
qed

text \<open>The clients in the queue have real descriptors.\<close>

lemma accept_loop_clients:
  assumes "accept_loop env n rounds p = Some (rest, p')" and "\<forall>t \<in> set (queue p). 0 \<le> client_fd t"
  shows "\<forall>t \<in> set (queue p'). 0 \<le> client_fd t"
  using assms
proof (induction env n rounds p rule: accept_loop.induct)
  case (1 env n rounds p)
  show ?case
  proof (cases "caught_exit_signal p")
    case True
    then show ?thesis using 1(2,3) by (subst (asm) accept_loop.simps) auto
  next
    case False
    then obtain fd rest1 p1 where w: "waitForConnection rounds p = Some (fd, rest1, p1)"
      using 1(2) by (subst (asm) accept_loop.simps) (auto split: option.splits)
    note acc = waitForConnection_accounts [OF w]
    have q: "queue (new_item l p1) = queue p" for l
      using acc by (simp add: new_item_def open_fd_def Let_def)
    show ?thesis
    proof (cases "fd = - 1 \<or> \<not> item_ok (env n) \<or> \<not> create_ok (env n)")
      case True
      then have "queue p' = queue p"
        using 1(2) False w acc q by (subst (asm) accept_loop.simps) (auto simp: Let_def split: if_splits)
      then show ?thesis using 1(3) by simp
    next
      case go: False
      let ?p4 = "enqueue \<lparr>file_fd = log_ans (env n), client_fd = fd\<rparr> (new_item (log_ans (env n)) p1)"
      have run: "accept_loop env (Suc n) rest1 ?p4 = Some (rest, p')"
        using 1(2) False go w by (subst (asm) accept_loop.simps) (simp add: Let_def)
      have "\<forall>t \<in> set (queue ?p4). 0 \<le> client_fd t"
        using 1(3) acc go q by (auto simp: enqueue_def)
      with 1(1) [OF False w refl refl _ _ refl refl refl _ run] go show ?thesis by blast
    qed
  qed
qed

text \<open>The descriptors of the main thread: the listening socket, and the log of the timer.\<close>

definition main_fds :: "bool \<Rightarrow> main_env \<Rightarrow> int \<Rightarrow> int multiset" where
  "main_fds use_char_device env sock =
     {#sock#} + (if use_char_device \<or> timer_log env = - 1 then {#} else {#timer_log env#})"

lemma close_main_fds:
  assumes "mset (open_fds p) = main_fds use_char_device env sock"
  shows "use_char_device \<Longrightarrow> open_fds (close_fd sock p) = []"
    and "\<not> use_char_device \<Longrightarrow> open_fds (close_fd (timer_log env) (close_fd sock p)) = []"
proof -
  have one: "mset (open_fds (close_fd fd q)) = mset (open_fds q) - {#fd#}" for fd q
    by (simp add: close_fd_def)
  show "open_fds (close_fd sock p) = []" if use_char_device
    using that assms one [of sock p] by (simp add: main_fds_def)
  show "open_fds (close_fd (timer_log env) (close_fd sock p)) = []" if "\<not> use_char_device"
    using that assms one [of sock p] one [of "timer_log env" "close_fd sock p"]
    by (simp add: main_fds_def split: if_splits)
qed

lemma serve_connections_end:
  assumes run: "serve_connections use_char_device env rounds p = Some (Inl c, p')"
    and acc: "accounts (main_fds use_char_device env (socket_fd p)) p" and q: "queue p = []"
    and ok: "\<And>i. item_ok (turns env i) \<and> create_ok (turns env i) \<and> - 1 \<le> log_ans (turns env i)"
  shows "c = (if use_char_device \<or> remove_ok env then EXIT_SUCCESS else EXIT_FAILURE)
    \<and> joined p' = started p' \<and> queue p' = [] \<and> items p' = 0 \<and> open_fds p' = []
    \<and> (\<not> use_char_device \<longrightarrow> timer p' = None)"
proof -
  let ?own = "main_fds use_char_device env (socket_fd p)"
  have m: "mutex_ok env" using run by (auto simp: serve_connections_def split: if_splits)
  then obtain rest p1 where a: "accept_loop (turns env) 0 rounds p = Some (rest, p1)"
    using run by (auto simp: serve_connections_def bind_eq_Some_conv)
  let ?p2 = "syslog ''Caught Signal, exiting'' p1"
  define p2 where "p2 = (if use_char_device then ?p2 else timer_delete ?p2)"
  obtain p3 where j: "join_loop (thread_ends env) (queue p2) p2 = Some p3"
    and c: "c = (if use_char_device \<or> remove_ok env then EXIT_SUCCESS else EXIT_FAILURE)"
      "p' = (if use_char_device then close_fd (socket_fd p3) p3
             else close_fd (timer_log env) (close_fd (socket_fd p3) p3))"
    using run m a unfolding p2_def by (auto simp: serve_connections_def bind_eq_Some_conv Let_def split: if_splits)
  note acc1 = accept_loop_accounts [OF a acc]
  have p2: "accounts ?own p2" "queue p2 = queue p1" "socket_fd p2 = socket_fd p"
    using acc1 ok by (auto simp: accounts_def syslog_def p2_def timer_delete_def)
  have "\<forall>t \<in> set (queue p2). 0 \<le> client_fd t" using accept_loop_clients [OF a] q p2(2) by simp
  from join_loop_accounts [OF j refl p2(1) this] p2(3)
  have e: "accounts ?own p3" "queue p3 = []" "socket_fd p3 = socket_fd p" "timer p3 = timer p2" by simp_all
  then have "mset (open_fds p3) = main_fds use_char_device env (socket_fd p3)" by (simp add: accounts_def)
  from close_main_fds [OF this] have "open_fds p' = []" by (simp add: c(2))
  then show ?thesis using e c
    by (auto simp: accounts_def close_fd_def p2_def timer_delete_def)
qed

section \<open>Failures while setting up\<close>

text \<open>When nothing fails, the main loop starts with the descriptors of the main thread.\<close>

definition setup_ok :: "bool \<Rightarrow> bool \<Rightarrow> main_env \<Rightarrow> bool" where
  "setup_ok use_char_device as_daemon env \<longleftrightarrow>
     sigint_ok env \<and> sigterm_ok env \<and> socket_ans (bind_answers env) \<noteq> - 1
     \<and> getaddrinfo_ok (bind_answers env) \<and> bind_ok (bind_answers env) \<and> (as_daemon \<longrightarrow> daemon_ok env)
     \<and> listen_ok env \<and> mutex_ok env \<and> (use_char_device \<or> timer_create_ok env \<and> timer_settime_ok env)"

definition command_line :: "string \<Rightarrow> bool \<Rightarrow> string list" where
  "command_line progname as_daemon = (if as_daemon then [progname, ''-d''] else [progname])"

lemma server_main_command_line:
  "server_main use_char_device env rounds (command_line progname d) p =
     map_option (\<lambda>(r, p'). (case r of Inl c \<Rightarrow> c | Inr _ \<Rightarrow> 0, p')) (socketLogger use_char_device env rounds d p)"
  by (simp add: server_main_def command_line_def)

lemma setup_succeeds:
  assumes "setup_ok use_char_device d env"
  shows "\<exists>p. set_up use_char_device env d initial_proc = (Inr (), p)
    \<and> socketLogger use_char_device env rounds d initial_proc = serve_connections use_char_device env rounds p
    \<and> accounts (main_fds use_char_device env (socket_fd p)) p \<and> queue p = [] \<and> started p = [] \<and> handles_signals p
    \<and> timer p = (if use_char_device then None
        else Some \<lparr>sival_fd = timer_log env, it_value_sec = 10, it_interval_sec = 10\<rparr>)"
  using assms
  by (auto simp: socketLogger_def set_up_def registerSignalHandler_def bindPortToSocket_def Daemonize_def createTimer_def
      initial_proc_def Let_def open_fd_def accounts_def main_fds_def handles_signals_def setup_ok_def)

lemma accept_loop_queue:
  assumes "accept_loop env n rounds p = Some (rest, p')" and "queue p = started p"
  shows "queue p' = started p'"
  using assms
proof (induction env n rounds p rule: accept_loop.induct)
  case (1 env n rounds p)
  show ?case
  proof (cases "caught_exit_signal p")
    case True
    then show ?thesis using 1(2,3) by (subst (asm) accept_loop.simps) auto
  next
    case False
    then obtain fd rest1 p1 where w: "waitForConnection rounds p = Some (fd, rest1, p1)"
      using 1(2) by (subst (asm) accept_loop.simps) (auto split: option.splits)
    note acc = waitForConnection_accounts [OF w]
    have q: "queue (new_item l p1) = started (new_item l p1)" for l
      using acc 1(3) by (simp add: new_item_def open_fd_def Let_def)
    show ?thesis
    proof (cases "fd = - 1 \<or> \<not> item_ok (env n) \<or> \<not> create_ok (env n)")
      case True
      then have "p' \<in> {p1, new_item (log_ans (env n)) p1}"
        using 1(2) False w by (subst (asm) accept_loop.simps) (auto simp: Let_def split: if_splits)
      then show ?thesis using q acc 1(3) by auto
    next
      case go: False
      let ?p4 = "enqueue \<lparr>file_fd = log_ans (env n), client_fd = fd\<rparr> (new_item (log_ans (env n)) p1)"
      have run: "accept_loop env (Suc n) rest1 ?p4 = Some (rest, p')"
        using 1(2) False go w by (subst (asm) accept_loop.simps) (simp add: Let_def)
      have "queue ?p4 = started ?p4" using q by (simp add: enqueue_def)
      with 1(1) [OF False w refl refl _ _ refl refl refl _ run] go show ?thesis by blast
    qed
  qed
qed

lemma join_loop_iff: "(\<exists>p'. join_loop ends ts p = Some p') \<longleftrightarrow> (\<forall>t \<in> set ts. ends t)"
  by (induction ts arbitrary: p) auto

text \<open>After the loop, the process exits if all threads end, and waits for ever otherwise.\<close>

lemma serve_connections_joins:
  assumes "mutex_ok env" and "accept_loop (turns env) 0 rounds p = Some (rest, p1)"
  shows "\<exists>p'. serve_connections use_char_device env rounds p =
    (if \<forall>t \<in> set (queue p1). thread_ends env t
     then Some (Inl (if use_char_device \<or> remove_ok env then EXIT_SUCCESS else EXIT_FAILURE), p')
     else None)"
proof -
  let ?p2 = "syslog ''Caught Signal, exiting'' p1"
  let ?p2' = "if use_char_device then ?p2 else timer_delete ?p2"
  have q: "queue ?p2' = queue p1" by (simp add: syslog_def timer_delete_def)
  show ?thesis
  proof (cases "\<forall>t \<in> set (queue p1). thread_ends env t")
    case True
    then obtain p3 where "join_loop (thread_ends env) (queue ?p2') ?p2' = Some p3"
      using join_loop_iff [of "thread_ends env" "queue p1" ?p2'] unfolding q by blast
    with assms True show ?thesis by (simp add: serve_connections_def Let_def)
  next
    case False
    then have "join_loop (thread_ends env) (queue ?p2') ?p2' = None"
      using join_loop_iff [of "thread_ends env" "queue p1" ?p2'] unfolding q by (meson not_None_eq)
    with assms show ?thesis unfolding if_not_P [OF False] by (simp add: serve_connections_def Let_def)
  qed
qed

text \<open>The first step of the setup that fails, and what it leaves open.\<close>

lemma setup_fails:
  assumes "\<not> setup_ok use_char_device d env" and b_def: "b = bind_answers env"
    and no_socket_def: "no_socket \<longleftrightarrow> \<not> (sigint_ok env \<and> sigterm_ok env) \<or> socket_ans b = - 1"
    and listening_def: "listening \<longleftrightarrow> getaddrinfo_ok b \<and> bind_ok b \<and> (d \<longrightarrow> daemon_ok env) \<and> listen_ok env"
    and timer_ok_def: "timer_ok \<longleftrightarrow> use_char_device \<or> timer_create_ok env \<and> timer_settime_ok env"
  shows "\<exists>r p'. socketLogger use_char_device env rounds d initial_proc = Some (r, p')
    \<and> r = (if no_socket \<or> \<not> listening \<or> \<not> timer_ok then Inl EXIT_FAILURE else Inr ())
    \<and> started p' = [] \<and> addrinfos p' = 0
    \<and> timer p' = (if no_socket \<or> \<not> listening \<or> \<not> timer_ok \<or> use_char_device then None
        else Some \<lparr>sival_fd = timer_log env, it_value_sec = 10, it_interval_sec = 10\<rparr>)
    \<and> open_fds p' =
       (if no_socket then []
        else if \<not> getaddrinfo_ok b then [socket_ans b]
        else if \<not> bind_ok b then []
        else if d \<and> \<not> daemon_ok env then [socket_ans b]
        else if \<not> listen_ok env then []
        else if use_char_device \<or> timer_log env = - 1 then [socket_ans b]
        else [timer_log env, socket_ans b])"
proof -
  note defs = socketLogger_def set_up_def registerSignalHandler_def bindPortToSocket_def Daemonize_def createTimer_def
    initial_proc_def Let_def open_fd_def close_fd_def serve_connections_def
  consider (signals) "\<not> (sigint_ok env \<and> sigterm_ok env)"
    | (socket) "sigint_ok env" "sigterm_ok env" "socket_ans b = - 1"
    | (listening) "\<not> no_socket" "\<not> listening" | (served) "\<not> no_socket" "listening"
    unfolding no_socket_def by blast
  then show ?thesis
  proof cases
    case signals
    then show ?thesis by (auto simp: no_socket_def defs)
  next
    case socket
    then show ?thesis by (simp add: no_socket_def b_def defs)
  next
    case listening
    then show ?thesis unfolding no_socket_def listening_def by (auto simp: b_def defs)
  next
    case served
    show ?thesis
    proof (cases timer_ok)
      case False
      then show ?thesis using served unfolding no_socket_def listening_def timer_ok_def by (auto simp: b_def defs)
    next
      case True
      then have "\<not> mutex_ok env" using served assms(1)
        by (auto simp: setup_ok_def no_socket_def listening_def timer_ok_def b_def)
      then show ?thesis using served True unfolding no_socket_def listening_def timer_ok_def by (auto simp: b_def defs)
    qed
  qed
qed

end
