(* ===== verification/ServerPieces.thy ===== *)
theory ServerPieces
  imports ServerLife ServerThreads
begin

text \<open>
  The threads of the server cut into pieces, for running them side by side: a client thread stops
  after each byte received and before each section under the log lock, the main thread stops after
  each connection. Uninterrupted, the pieces are the whole functions of \<open>Server\<close> and \<open>ServerMain\<close>.
\<close>

section \<open>A client thread\<close>

text \<open>
  Where a client thread stands: about to allocate its buffer, receiving (what the client will still
  send, the buffer and the number of bytes in it), about to send the log back, or at its end.
\<close>

datatype client_point =
    Starting "char list"
  | Receiving "char list" "char option list" nat
  | Replying "char list" "char option list"
  | Ended

definition close_both :: "thread_args \<Rightarrow> 'd thread_state \<Rightarrow> 'd thread_state" where
  "close_both args s = s\<lparr>closed := closed s @ [client_fd args, file_fd args]\<rparr>"

definition free_buffer :: "'d thread_state \<Rightarrow> 'd thread_state" where
  "free_buffer s = s\<lparr>blocks := blocks s - 1\<rparr>"

text \<open>The first section for a packet.\<close>

definition take_packet ::
  "'d file_ops \<Rightarrow> char option list \<Rightarrow> nat \<Rightarrow> 'd thread_state \<Rightarrow> 'd thread_state option" where
  "take_packet ops buffer len s = do {
     str \<leftarrow> c_string buffer;
     packet \<leftarrow> those (take len buffer);
     (if take 19 str = seek_prefix
      then (case sscanf_seekto str of None \<Rightarrow> Some s | Some args \<Rightarrow> seek_log ops args s)
      else store_packet ops packet s)
   }"

text \<open>
  What the environment of a thread answers. The client sends the bytes of \<open>client_input\<close>; then it closes
  the connection, or receiving fails; or it keeps the connection open and sends nothing more, and
  \<open>recv\<close> waits for ever.
\<close>

record client_env =
  client_input :: "char list"
  client_hangs_up :: bool
  client_plan :: "nat \<Rightarrow> write_answer"
  malloc_grants :: bool
  realloc_grants :: "nat \<Rightarrow> bool"

fun client_resume ::
  "'d file_ops \<Rightarrow> client_env \<Rightarrow> thread_args \<Rightarrow> client_point \<Rightarrow> 'd thread_state
   \<Rightarrow> (client_point \<times> 'd thread_state) option"
where
  "client_resume ops env args (Starting input) s =
     (if malloc_grants env
      then Some (Receiving input (replicate BUFFER_SIZE None) 0, s\<lparr>blocks := blocks s + 1\<rparr>)
      else Some (Ended, close_both args s))"
| "client_resume ops env args (Receiving [] buffer len) s =
     (if client_hangs_up env then Some (Ended, close_both args (free_buffer s)) else None)"
| "client_resume ops env args (Receiving (ch # input) buffer len) s =
     (let grows = (len \<ge> length buffer)
      in if grows \<and> \<not> realloc_grants env (length buffer * 2)
         then Some (Ended, close_both args (free_buffer s))
         else do {
           let b0 = (if grows then buffer @ replicate (length buffer) None else buffer);
           b1 \<leftarrow> buf_store len ch b0;
           if ch = newline then do {
             b2 \<leftarrow> buf_store (len + 1) nul b1;
             s1 \<leftarrow> take_packet ops b2 (len + 1) s;
             Some (Replying input b2, s1)
           }
           else Some (Receiving input b1 (len + 1), s)
         })"
| "client_resume ops env args (Replying input buffer) s = do {
     s1 \<leftarrow> send_back ops (client_plan env) s;
     Some (Receiving input buffer 0, s1)
   }"
| "client_resume ops env args Ended s = None"

text \<open>A thread that waits for a client that sends nothing more.\<close>

fun waits_for_client :: "client_env \<Rightarrow> client_point \<Rightarrow> bool" where
  "waits_for_client env (Receiving [] buffer len) = (\<not> client_hangs_up env)"
| "waits_for_client env pt = False"

text \<open>How many more pieces a thread has at most; each piece takes at least one away.\<close>

fun pieces_left :: "client_point \<Rightarrow> nat" where
  "pieces_left (Starting input) = 2 * length input + 2"
| "pieces_left (Receiving input buffer len) = 2 * length input + 1"
| "pieces_left (Replying input buffer) = 2 * length input + 2"
| "pieces_left Ended = 0"

lemma pieces_decrease:
  "client_resume ops env args pt s = Some (pt', s') \<Longrightarrow> pieces_left pt' < pieces_left pt"
  by (cases "(ops, env, args, pt, s)" rule: client_resume.cases)
     (auto simp: Let_def bind_eq_Some_conv split: if_splits)

text \<open>A thread that runs its pieces one after the other.\<close>

fun client_finish ::
  "'d file_ops \<Rightarrow> client_env \<Rightarrow> thread_args \<Rightarrow> nat \<Rightarrow> client_point \<times> 'd thread_state \<Rightarrow> 'd thread_state option"
where
  "client_finish ops env args n (Ended, s) = Some s"
| "client_finish ops env args 0 (pt, s) = None"
| "client_finish ops env args (Suc n) (pt, s) =
     Option.bind (client_resume ops env args pt s) (client_finish ops env args n)"

lemma client_finish_Suc:
  "pt \<noteq> Ended \<Longrightarrow> client_finish ops env args (Suc n) (pt, s) =
     Option.bind (client_resume ops env args pt s) (client_finish ops env args n)"
  by (cases pt) simp_all

lemma process_packet_cut:
  "process_packet ops plan buffer len s = Option.bind (take_packet ops buffer len s) (send_back ops plan)"
  by (simp add: process_packet_def take_packet_def)

lemma recv_loop_pieces:
  "client_hangs_up env \<Longrightarrow> 2 * length input + 1 \<le> n \<Longrightarrow>
   client_finish ops env args n (Receiving input buffer len, s) =
     map_option (close_both args) (recv_loop ops (client_plan env) (realloc_grants env) input buffer len s)"
proof (induction ops "client_plan env" "realloc_grants env" input buffer len s arbitrary: n rule: recv_loop.induct)
  case (1 ops buffer len s)
  then obtain m where "n = Suc m" by (cases n) auto
  then show ?case using 1 by (simp add: free_buffer_def)
next
  case (2 ops ch input buffer len s)
  then obtain m where n: "n = Suc (Suc m)" "2 * length input + 1 \<le> m" by (cases n; cases "n - 1") auto
  let ?grows = "len \<ge> length buffer"
  show ?case
  proof (cases "?grows \<and> \<not> realloc_grants env (length buffer * 2)")
    case True
    then show ?thesis using n by (simp add: client_finish_Suc free_buffer_def)
  next
    case room: False
    let ?b0 = "if ?grows then buffer @ replicate (length buffer) None else buffer"
    show ?thesis
    proof (cases "buf_store len ch ?b0")
      case None
      then show ?thesis using room n by (auto simp: client_finish_Suc Let_def)
    next
      case (Some b1)
      note b1 = this
      show ?thesis
      proof (cases "ch = newline")
        case False
        then show ?thesis
          using 2(2) [OF refl refl room refl b1 False 2(3), of "Suc m"] room b1 n
          by (auto simp: client_finish_Suc Let_def)
      next
        case True
        have "client_finish ops env args m (Receiving input b2 0, s1) =
            map_option (close_both args) (recv_loop ops (client_plan env) (realloc_grants env) input b2 0 s1)"
          if "buf_store (len + 1) nul b1 = Some b2"
            and "process_packet ops (client_plan env) b2 (len + 1) s = Some s1" for b2 s1
          using 2(1) [OF refl refl room refl b1 True that 2(3) n(2)] .
        then show ?thesis using room b1 n True
          by (auto simp: client_finish_Suc Let_def process_packet_cut map_option_bind
              split: Option.bind_split)
      qed
    qed
  qed
qed

lemma client_handler_pieces:
  assumes "client_hangs_up env" and "2 * length input + 2 \<le> n"
  shows "client_finish ops env args n (Starting input, s) =
    client_handler ops (client_plan env) (malloc_grants env) (realloc_grants env) args input s"
proof -
  obtain m where n: "n = Suc m" "2 * length input + 1 \<le> m" using assms(2) by (cases n) auto
  show ?thesis
    using recv_loop_pieces [OF assms(1) n(2), of ops args "replicate BUFFER_SIZE None" 0 "s\<lparr>blocks := blocks s + 1\<rparr>"] n(1)
    by (simp add: client_finish_Suc client_handler_def receivePackets_def map_conv_bind_option comp_def close_both_def)
qed

section \<open>The main thread\<close>

text \<open>Accepting (the number of the turn and the rounds to come), joining the threads, or at its end.\<close>

datatype main_point = Accepting nat "round list" | Joining | Exited int

text \<open>One turn of the main loop: it ends the loop, or it has started one more thread.\<close>

definition accept_turn ::
  "(nat \<Rightarrow> turn_env) \<Rightarrow> nat \<Rightarrow> round list \<Rightarrow> proc
   \<Rightarrow> ((round list \<times> proc) + (round list \<times> thread_args \<times> proc)) option"
where
  "accept_turn env n rounds p =
     (if caught_exit_signal p then Some (Inl (rounds, p))
      else do {
        (client, rest, p1) \<leftarrow> waitForConnection rounds p;
        if client = - 1 then Some (Inl (rest, p1))
        else if \<not> item_ok (env n) then Some (Inl (rest, p1))
        else
          (let log_fd = log_ans (env n);
               p2 = new_item log_fd p1;
               args = \<lparr>file_fd = log_fd, client_fd = client\<rparr>
           in if \<not> create_ok (env n) then Some (Inl (rest, p2))
              else Some (Inr (rest, args, enqueue args p2)))
      })"

text \<open>Leaving the loop, joining the first thread of the queue, and the end, on the driver.\<close>

definition leave_loop :: "proc \<Rightarrow> proc" where
  "leave_loop p = syslog ''Caught Signal, exiting'' p"

definition join_first :: "proc \<Rightarrow> proc" where
  "join_first p = p\<lparr>joined := joined p @ [hd (queue p)], queue := tl (queue p), items := items p - 1\<rparr>"

definition close_server :: "proc \<Rightarrow> proc" where
  "close_server p = close_fd (socket_fd p) p"

text \<open>What a thread that has ended has done to the descriptors of the process.\<close>

definition close_thread :: "thread_args \<Rightarrow> proc \<Rightarrow> proc" where
  "close_thread t p = close_fd (file_fd t) (close_fd (client_fd t) p)"

lemma accept_loop_turn:
  "accept_loop env n rounds p = Option.bind (accept_turn env n rounds p) (\<lambda>r. case r of
     Inl (rest, p1) \<Rightarrow> Some (rest, p1)
   | Inr (rest, args, p1) \<Rightarrow> accept_loop env (Suc n) rest p1)"
  by (subst accept_loop.simps) (auto simp: accept_turn_def Let_def split: option.split)

lemma join_loop_turn:
  "join_loop ends (t # ts) p =
     (if ends t then join_loop ends ts (close_thread t (join_first (p\<lparr>queue := t # ts\<rparr>))) else None)"
  by (simp add: join_first_def close_thread_def)

lemma serve_connections_pieces:
  "serve_connections True env rounds p =
     (if \<not> mutex_ok env then Some (Inr (), p)
      else do {
        (rest, p1) \<leftarrow> accept_loop (turns env) 0 rounds p;
        p2 \<leftarrow> join_loop (thread_ends env) (queue (leave_loop p1)) (leave_loop p1);
        Some (Inl EXIT_SUCCESS, close_server p2)
      })"
  by (simp add: serve_connections_def leave_loop_def close_server_def Let_def)

end
