(* ===== verification/ServerSections.thy ===== *)
theory ServerSections
  imports ServerPieces
begin

text \<open>
  The sections of a client thread under the log lock, one system call at a time: storing a packet,
  seeking, and sending the log back. Run to its end, a section is the whole function; and if the whole
  function returns, the section comes to its end after finitely many calls.
\<close>

section \<open>Single calls\<close>

text \<open>
  Where a thread stands that holds the lock: before a \<open>write\<close> of what is left of a packet, before the
  \<open>fsync\<close>, before the \<open>ioctl\<close>; before the first \<open>lseek\<close> of \<open>sendFileToSocket\<close>, before a \<open>read\<close>, before
  a \<open>write\<close> of what is left of the buffer to the socket, before the second \<open>lseek\<close>; or before it
  releases the lock.
\<close>

datatype section_point =
    Storing "char list" nat
  | Syncing
  | Seeking aesd_seekto
  | Telling
  | Reading int nat
  | Sending int nat "char list" nat
  | Restoring int nat
  | Unlocking

text \<open>The calls inside the loops, with what they lead to.\<close>

definition packet_write :: "'d file_ops \<Rightarrow> char list \<Rightarrow> nat \<Rightarrow> 'd thread_state \<Rightarrow> (section_point \<times> 'd thread_state) option" where
  "packet_write ops packet total_written s =
     (if total_written < length packet then do {
        (r, s1) \<leftarrow> file_call (\<lambda>d. op_write ops d (drop total_written packet)) s;
        let written = (case r of Inl e \<Rightarrow> 0 | Inr n \<Rightarrow> n);
        Some (if written = 0 then (if sys_errno s1 = EINTR then Storing packet total_written else Syncing)
              else Storing packet (total_written + written), s1)
      }
      else Some (Syncing, s))"

definition reply_read :: "'d file_ops \<Rightarrow> int \<Rightarrow> nat \<Rightarrow> 'd thread_state \<Rightarrow> (section_point \<times> 'd thread_state) option" where
  "reply_read ops ExternalPosition total_bytes s = do {
     (r, s1) \<leftarrow> file_call (\<lambda>d. op_read ops d BUFFER_SIZE) s;
     (case r of
        Inl e \<Rightarrow> Some (Unlocking, s1)
      | Inr chunk \<Rightarrow>
          if length chunk > BUFFER_SIZE then None
          else Some (if chunk = [] then Restoring ExternalPosition total_bytes
                     else Sending ExternalPosition total_bytes chunk 0, s1))
   }"

definition reply_write ::
  "(nat \<Rightarrow> write_answer) \<Rightarrow> int \<Rightarrow> nat \<Rightarrow> char list \<Rightarrow> nat \<Rightarrow> 'd thread_state \<Rightarrow> section_point \<times> 'd thread_state" where
  "reply_write plan ExternalPosition total_bytes chunk bytes_written s =
     (if bytes_written < length chunk then
        (case sock_write plan (drop bytes_written chunk) s of
           (Inl e, s1) \<Rightarrow>
             (if e = EINTR then Sending ExternalPosition total_bytes chunk bytes_written else Unlocking, s1)
         | (Inr n, s1) \<Rightarrow> (Sending ExternalPosition total_bytes chunk (bytes_written + n), s1))
      else (Reading ExternalPosition (total_bytes + bytes_written), s))"

lemmas call_defs [simp] = packet_write_def reply_read_def reply_write_def

fun section_step ::
  "'d file_ops \<Rightarrow> (nat \<Rightarrow> write_answer) \<Rightarrow> section_point \<Rightarrow> 'd thread_state
   \<Rightarrow> (section_point \<times> 'd thread_state) option"
where
  "section_step ops plan (Storing packet total_written) s = packet_write ops packet total_written s"
| "section_step ops plan Syncing s = do {
     (r, s1) \<leftarrow> file_call (op_fsync ops) s;
     Some (Unlocking, s1)
   }"
| "section_step ops plan (Seeking args) s = do {
     (r, s1) \<leftarrow> file_call (\<lambda>d. op_ioctl ops d AESDCHAR_IOCSEEKTO args) s;
     Some (Unlocking, s1)
   }"
| "section_step ops plan Telling s = do {
     (r, s1) \<leftarrow> file_call (\<lambda>d. op_lseek ops d 0 SEEK_CUR) s;
     Some (Reading (case r of Inl e \<Rightarrow> - 1 | Inr p \<Rightarrow> p) 0, s1)
   }"
| "section_step ops plan (Reading ExternalPosition total_bytes) s = reply_read ops ExternalPosition total_bytes s"
| "section_step ops plan (Sending ExternalPosition total_bytes chunk bytes_written) s =
     Some (reply_write plan ExternalPosition total_bytes chunk bytes_written s)"
| "section_step ops plan (Restoring ExternalPosition total_bytes) s = do {
     (r, s1) \<leftarrow> file_call (\<lambda>d. op_lseek ops d ExternalPosition SEEK_SET) s;
     Some (Unlocking, s1)
   }"
| "section_step ops plan Unlocking s = None"

section \<open>The rest of a section\<close>

text \<open>What is left of the function, from a point on, including the release of the lock.\<close>

definition restore_position :: "'d file_ops \<Rightarrow> int \<Rightarrow> 'd thread_state \<Rightarrow> 'd thread_state option" where
  "restore_position ops p s = do {
     (r, s1) \<leftarrow> file_call (\<lambda>d. op_lseek ops d p SEEK_SET) s;
     Some (pthread_mutex_unlock s1)
   }"

definition read_rest ::
  "'d file_ops \<Rightarrow> (nat \<Rightarrow> write_answer) \<Rightarrow> int \<Rightarrow> nat \<Rightarrow> 'd thread_state \<Rightarrow> 'd thread_state option" where
  "read_rest ops plan p total_bytes s = do {
     (w, s1) \<leftarrow> send_loop ops plan total_bytes s;
     (case w of None \<Rightarrow> Some (pthread_mutex_unlock s1) | Some n \<Rightarrow> restore_position ops p s1)
   }"

fun section_rest ::
  "'d file_ops \<Rightarrow> (nat \<Rightarrow> write_answer) \<Rightarrow> section_point \<Rightarrow> 'd thread_state \<Rightarrow> 'd thread_state option"
where
  "section_rest ops plan (Storing packet w) s = do {
     s1 \<leftarrow> write_loop ops packet w s;
     (r, s2) \<leftarrow> file_call (op_fsync ops) s1;
     Some (pthread_mutex_unlock s2)
   }"
| "section_rest ops plan Syncing s = do {
     (r, s1) \<leftarrow> file_call (op_fsync ops) s;
     Some (pthread_mutex_unlock s1)
   }"
| "section_rest ops plan (Seeking args) s = do {
     (r, s1) \<leftarrow> file_call (\<lambda>d. op_ioctl ops d AESDCHAR_IOCSEEKTO args) s;
     Some (pthread_mutex_unlock s1)
   }"
| "section_rest ops plan Telling s = do {
     (r, s1) \<leftarrow> sendFileToSocket ops plan s;
     Some (pthread_mutex_unlock s1)
   }"
| "section_rest ops plan (Reading p total_bytes) s = read_rest ops plan p total_bytes s"
| "section_rest ops plan (Sending p total_bytes chunk w) s = do {
     (r, s1) \<leftarrow> send_chunk plan chunk w s;
     (case r of None \<Rightarrow> Some (pthread_mutex_unlock s1) | Some n \<Rightarrow> read_rest ops plan p (total_bytes + n) s1)
   }"
| "section_rest ops plan (Restoring p total_bytes) s = restore_position ops p s"
| "section_rest ops plan Unlocking s = Some (pthread_mutex_unlock s)"

lemma section_start:
  "store_packet ops packet s = Option.bind (pthread_mutex_lock s) (section_rest ops plan (Storing packet 0))"
  "seek_log ops args s = Option.bind (pthread_mutex_lock s) (section_rest ops plan (Seeking args))"
  "send_back ops plan s = Option.bind (pthread_mutex_lock s) (section_rest ops plan Telling)"
  by (simp_all add: store_packet_def seek_log_def send_back_def split: Option.bind_split)

text \<open>Each call leaves the rest of the section as it was.\<close>

lemma section_step_rest:
  "section_step ops plan q s = Some (q', s') \<Longrightarrow> section_rest ops plan q s = section_rest ops plan q' s'"
proof (induction ops plan q s rule: section_step.induct)
  case (1 ops plan packet w s)
  then show ?case
    by (subst section_rest.simps(1), subst write_loop_step) (auto simp: Let_def bind_eq_Some_conv split: if_splits)
next
  case (4 ops plan s)
  then show ?case
    by (auto simp: sendFileToSocket_def read_rest_def restore_position_def bind_eq_Some_conv split: prod.splits
        option.split Option.bind_split)
next
  case (5 ops plan p n s)
  then obtain r s1 where r: "file_call (\<lambda>d. op_read ops d BUFFER_SIZE) s = Some (r, s1)"
    by (auto simp: bind_eq_Some_conv)
  have start: "section_rest ops plan (Reading p n) s = Option.bind (send_loop ops plan n s)
      (\<lambda>(w, s1). case w of None \<Rightarrow> Some (pthread_mutex_unlock s1) | Some n \<Rightarrow> restore_position ops p s1)"
    by (simp add: read_rest_def)
  show ?case
  proof (cases r)
    case (Inl e)
    then show ?thesis using 5 r unfolding start by (auto simp: send_loop_step [of ops plan n s])
  next
    case (Inr chunk)
    then show ?thesis
    proof (cases "chunk = []")
      case True
      then show ?thesis using 5 r Inr unfolding start by (auto simp: send_loop_step [of ops plan n s])
    next
      case False
      then have q: "q' = Sending p n chunk 0" "s' = s1" "\<not> length chunk > BUFFER_SIZE"
        using 5 r Inr by (auto split: if_splits)
      show ?thesis using q r Inr False unfolding start send_loop_step [of ops plan n s]
        by (cases "send_chunk plan chunk 0 s1") (auto simp: read_rest_def split: option.split)
    qed
  qed
next
  case (6 ops plan p n chunk w s)
  show ?case
  proof (cases "w < length chunk")
    case True
    show ?thesis
    proof (cases "sock_write plan (drop w chunk) s")
      case (Pair r s1)
      then show ?thesis using 6 True unfolding section_rest.simps(6) send_chunk_step [OF True, of plan s]
        by (cases r) (auto split: if_splits)
    qed
  next
    case False
    then show ?thesis using 6 send_chunk_done [of chunk w plan s] by auto
  qed
qed (auto simp: bind_eq_Some_conv restore_position_def)

section \<open>Sections that end\<close>

inductive section_ends ::
  "'d file_ops \<Rightarrow> (nat \<Rightarrow> write_answer) \<Rightarrow> nat \<Rightarrow> section_point \<Rightarrow> 'd thread_state \<Rightarrow> bool"
  for ops plan where
  ends_now: "section_ends ops plan 0 Unlocking s"
| ends_later: "section_step ops plan q s = Some (q', s') \<Longrightarrow> section_ends ops plan n q' s' \<Longrightarrow>
    section_ends ops plan (Suc n) q s"

inductive_cases section_endsE: "section_ends ops plan n q s"

text \<open>There is one way to go on, so the number of calls is known.\<close>

lemma section_ends_unique: "section_ends ops plan n q s \<Longrightarrow> section_ends ops plan m q s \<Longrightarrow> m = n"
proof (induction arbitrary: m rule: section_ends.induct)
  case (ends_now s)
  then show ?case by (auto elim: section_endsE)
next
  case (ends_later q s q' s' n)
  from ends_later(4) ends_later(1,3) show ?case by (auto elim: section_ends.cases)
qed

definition section_left ::
  "'d file_ops \<Rightarrow> (nat \<Rightarrow> write_answer) \<Rightarrow> section_point \<Rightarrow> 'd thread_state \<Rightarrow> nat" where
  "section_left ops plan q s = (THE n. section_ends ops plan n q s)"

lemma section_left_eq: "section_ends ops plan n q s \<Longrightarrow> section_left ops plan q s = n"
  unfolding section_left_def using section_ends_unique by blast

lemma section_left_decreases:
  assumes "section_step ops plan q s = Some (q', s')" and "section_ends ops plan n q s"
  shows "section_left ops plan q' s' < section_left ops plan q s"
  using assms(2,1) by cases (auto simp: section_left_eq [OF assms(2)] section_left_eq)

abbreviation section_ends_some :: "'d file_ops \<Rightarrow> (nat \<Rightarrow> write_answer) \<Rightarrow> section_point \<Rightarrow> 'd thread_state \<Rightarrow> bool" where
  "section_ends_some ops plan q s \<equiv> \<exists>n. section_ends ops plan n q s"

lemma ends_step: "section_step ops plan q s = Some (q', s') \<Longrightarrow> section_ends_some ops plan q' s' \<Longrightarrow>
    section_ends_some ops plan q s"
  by (blast intro: ends_later)

lemma ends_unlocking: "section_ends_some ops plan Unlocking s"
  by (blast intro: ends_now)

lemma ends_last: "section_step ops plan q s = Some (Unlocking, s') \<Longrightarrow> section_ends_some ops plan q s"
  using ends_step ends_unlocking by blast

lemma ends_syncing: "file_call (op_fsync ops) s = Some r \<Longrightarrow> section_ends_some ops plan Syncing s"
  by (cases r) (rule ends_last, simp)

lemma ends_seeking:
  "file_call (\<lambda>d. op_ioctl ops d AESDCHAR_IOCSEEKTO args) s = Some r \<Longrightarrow> section_ends_some ops plan (Seeking args) s"
  by (cases r) (rule ends_last, simp)

lemma ends_restoring: "restore_position ops p s = Some t \<Longrightarrow> section_ends_some ops plan (Restoring p n) s"
  by (cases "file_call (\<lambda>d. op_lseek ops d p SEEK_SET) s") (auto simp: restore_position_def intro: ends_last)

lemma ends_storing:
  assumes "write_loop ops packet w s = Some t" and "section_ends_some ops plan Syncing t"
  shows "section_ends_some ops plan (Storing packet w) s"
  using assms
proof (induction rule: write_loop.raw_induct [rotated, consumes 1, case_names step])
  case (step rec ops packet w s t)
  show ?case
  proof (cases "w < length packet")
    case True
    then obtain r s1 where r: "file_call (\<lambda>d. op_write ops d (drop w packet)) s = Some (r, s1)"
      using step(2) by (auto simp: bind_eq_Some_conv)
    let ?n = "case r of Inl e \<Rightarrow> 0 | Inr n \<Rightarrow> n"
    have "section_step ops plan (Storing packet w) s = Some (if ?n = 0 then (if sys_errno s1 = EINTR
        then Storing packet w else Syncing) else Storing packet (w + ?n), s1)" using True r by (simp add: Let_def)
    then show ?thesis
    proof (rule ends_step)
      show "section_ends_some ops plan (if ?n = 0 then (if sys_errno s1 = EINTR then Storing packet w else Syncing)
          else Storing packet (w + ?n)) s1"
        using step(1) [OF _ step(3)] step(2) True r by (simp add: Let_def split: if_split_asm) (use step(3) in simp)
    qed
  next
    case False
    then have "section_step ops plan (Storing packet w) s = Some (Syncing, s)" "t = s" using step(2) by auto
    then show ?thesis using ends_step step(3) by blast
  qed
qed

lemma ends_sending:
  assumes "send_chunk plan chunk w s = Some y"
    and "\<And>n. fst y = Some n \<Longrightarrow> section_ends_some ops plan (Reading p (m + n)) (snd y)"
  shows "section_ends_some ops plan (Sending p m chunk w) s"
  using assms
proof (induction rule: send_chunk.raw_induct [rotated, consumes 1, case_names step])
  case (step rec plan chunk w s y)
  show ?case
  proof (cases "w < length chunk")
    case True
    obtain r s1 where r: "sock_write plan (drop w chunk) s = (r, s1)" by fastforce
    show ?thesis
    proof (cases r)
      case (Inl e)
      then have "section_step ops plan (Sending p m chunk w) s
          = Some (if e = EINTR then Sending p m chunk w else Unlocking, s1)" using True r by simp
      then show ?thesis
        by (rule ends_step) (use step True r Inl in \<open>auto split: if_splits intro: ends_unlocking\<close>)
    next
      case (Inr n)
      then have "section_step ops plan (Sending p m chunk w) s = Some (Sending p m chunk (w + n), s1)"
        using True r by simp
      then show ?thesis by (rule ends_step) (use step True r Inr in auto)
    qed
  next
    case False
    then have "section_step ops plan (Sending p m chunk w) s = Some (Reading p (m + w), s)" "y = (Some w, s)"
      using step(2) by auto
    then show ?thesis using ends_step step(3) by (metis fst_conv snd_conv)
  qed
qed

lemma ends_reading:
  assumes "send_loop ops plan n s = Some y"
    and "\<And>m. fst y \<noteq> None \<Longrightarrow> section_ends_some ops plan (Restoring p m) (snd y)"
  shows "section_ends_some ops plan (Reading p n) s"
  using assms
proof (induction rule: send_loop.raw_induct [rotated, consumes 1, case_names step])
  case (step rec ops plan n s y)
  then obtain r s1 where r: "file_call (\<lambda>d. op_read ops d BUFFER_SIZE) s = Some (r, s1)"
    by (auto simp: bind_eq_Some_conv)
  show ?case
  proof (cases r)
    case (Inl e)
    then have "section_step ops plan (Reading p n) s = Some (Unlocking, s1)" using r by simp
    then show ?thesis using ends_step ends_unlocking by blast
  next
    case (Inr chunk)
    have fits: "\<not> length chunk > BUFFER_SIZE" using step(2) r Inr by (auto split: if_splits)
    show ?thesis
    proof (cases "chunk = []")
      case True
      then have "section_step ops plan (Reading p n) s = Some (Restoring p n, s1)" "y = (Some n, s1)"
        using step(2) r Inr fits by auto
      then show ?thesis using ends_step step(3) by (metis fst_conv option.distinct(1) snd_conv)
    next
      case False
      then obtain w s2 where sc: "send_chunk plan chunk 0 s1 = Some (w, s2)"
        "(case w of None \<Rightarrow> Some (None, s2) | Some m \<Rightarrow> rec ops plan (n + m) s2) = Some y"
        using step(2) r Inr fits by (auto simp: bind_eq_Some_conv)
      have "section_step ops plan (Reading p n) s = Some (Sending p n chunk 0, s1)" using r Inr fits False by simp
      then show ?thesis
        by (rule ends_step, intro ends_sending [OF sc(1)]) (use step sc(2) in auto)
    qed
  qed
qed

lemma section_rest_ends:
  assumes "section_rest ops plan q s = Some t"
  shows "section_ends_some ops plan q s"
proof -
  have reading: "section_ends_some ops plan (Reading p n) s" if rest: "read_rest ops plan p n s = Some t" for p n s t
  proof -
    obtain w s1 where y: "send_loop ops plan n s = Some (w, s1)"
      "(case w of None \<Rightarrow> Some (pthread_mutex_unlock s1) | Some n \<Rightarrow> restore_position ops p s1) = Some t"
      using rest by (auto simp: read_rest_def bind_eq_Some_conv)
    have "section_ends_some ops plan (Restoring p m) (snd (w, s1))" if "fst (w, s1) \<noteq> None" for m
      using y(2) that ends_restoring by auto
    with y(1) show ?thesis by (rule ends_reading)
  qed
  show ?thesis
  proof (cases q)
    case (Storing packet w)
    from assms show ?thesis unfolding Storing section_rest.simps bind_eq_Some_conv
      using ends_storing ends_syncing by blast
  next
    case Telling
    then obtain r s1 where r: "file_call (\<lambda>d. op_lseek ops d 0 SEEK_CUR) s = Some (r, s1)"
      using assms by (auto simp: sendFileToSocket_def bind_eq_Some_conv)
    then have st: "section_step ops plan Telling s = Some (Reading (case r of Inl e \<Rightarrow> - 1 | Inr p \<Rightarrow> p) 0, s1)" by simp
    then have "read_rest ops plan (case r of Inl e \<Rightarrow> - 1 | Inr p \<Rightarrow> p) 0 s1 = Some t"
      using section_step_rest [OF st] assms Telling by simp
    then show ?thesis using ends_step [OF st] reading Telling by blast
  next
    case (Sending p n chunk w)
    then obtain r s1 where r: "send_chunk plan chunk w s = Some (r, s1)"
      "(case r of None \<Rightarrow> Some (pthread_mutex_unlock s1) | Some m \<Rightarrow> read_rest ops plan p (n + m) s1) = Some t"
      using assms by (auto simp: bind_eq_Some_conv)
    have "section_ends_some ops plan (Reading p (n + m)) (snd (r, s1))" if "fst (r, s1) = Some m" for m
      using r(2) reading that by auto
    then show ?thesis using ends_sending [OF r(1)] Sending by blast
  next
    case Unlocking
    then show ?thesis by (simp add: ends_unlocking)
    next
    case Syncing
    then show ?thesis using assms ends_syncing by (auto simp: bind_eq_Some_conv)
  next
    case (Seeking args)
    then show ?thesis using assms ends_seeking by (auto simp: bind_eq_Some_conv)
  next
    case (Reading p n)
    then show ?thesis using assms reading by simp
  next
    case (Restoring p n)
    then show ?thesis using assms ends_restoring by simp
  qed
qed

end
