(* ===== verification/ServerOverrun.thy ===== *)
theory ServerOverrun
  imports ServerOnDriver ServerSections
begin

text \<open>
  Packets that do not fit into the server's buffers. A packet that exactly fills the receive buffer is
  received up to the point where its terminating zero goes past the end. Any other packet of more than
  1024 bytes is stored, and if more than 1024 bytes of the log come after the position of the file, the
  reply comes to a \<open>read\<close> for which the driver, which does not look at the size asked for, copies more than
  the 1024 bytes on the stack of \<open>sendFileToSocket\<close>.
\<close>

section \<open>Runs of a thread\<close>

text \<open>A thread on its own, from piece to piece; and a section, from call to call.\<close>

definition client_goes ::
  "'d file_ops \<Rightarrow> client_env \<Rightarrow> thread_args \<Rightarrow> client_point \<times> 'd thread_state \<Rightarrow> client_point \<times> 'd thread_state \<Rightarrow> bool"
where
  "client_goes ops env args x y \<longleftrightarrow> client_resume ops env args (fst x) (snd x) = Some y"

definition section_goes ::
  "'d file_ops \<Rightarrow> (nat \<Rightarrow> write_answer) \<Rightarrow> section_point \<times> 'd thread_state \<Rightarrow> section_point \<times> 'd thread_state \<Rightarrow> bool"
where
  "section_goes ops plan x y \<longleftrightarrow> section_step ops plan (fst x) (snd x) = Some y"

abbreviation client_run ::
  "'d file_ops \<Rightarrow> client_env \<Rightarrow> thread_args \<Rightarrow> client_point \<times> 'd thread_state \<Rightarrow> client_point \<times> 'd thread_state \<Rightarrow> bool"
where
  "client_run ops env args \<equiv> (client_goes ops env args)\<^sup>*\<^sup>*"

abbreviation section_run ::
  "'d file_ops \<Rightarrow> (nat \<Rightarrow> write_answer) \<Rightarrow> section_point \<times> 'd thread_state \<Rightarrow> section_point \<times> 'd thread_state \<Rightarrow> bool"
where
  "section_run ops plan \<equiv> (section_goes ops plan)\<^sup>*\<^sup>*"

lemma client_run_step:
  "client_resume ops env args pt s = Some y \<Longrightarrow> client_run ops env args y z \<Longrightarrow> client_run ops env args (pt, s) z"
  by (rule converse_rtranclp_into_rtranclp) (simp add: client_goes_def)

lemma section_run_step:
  "section_step ops plan q s = Some y \<Longrightarrow> section_run ops plan y z \<Longrightarrow> section_run ops plan (q, s) z"
  by (rule converse_rtranclp_into_rtranclp) (simp add: section_goes_def)

text \<open>A chunk that is sent.\<close>

lemma sending_run:
  assumes "send_chunk plan chunk w s = Some (Some m, t)"
  shows "section_run ops plan (Sending p n chunk w, s) (Reading p (n + m), t)"
proof -
  have "\<forall>m. fst y = Some m \<longrightarrow> section_run ops plan (Sending p n chunk w, s) (Reading p (n + m), snd y)"
    if "send_chunk plan chunk w s = Some y" for y
    using that
  proof (induction rule: send_chunk.raw_induct [rotated, consumes 1, case_names step])
    case (step rec plan chunk w s y)
    show ?case
    proof (cases "w < length chunk")
      case True
      obtain r s1 where r: "sock_write plan (drop w chunk) s = (r, s1)" by fastforce
      show ?thesis
      proof (cases r)
        case (Inl e)
        have "section_run ops plan (Sending p n chunk w, s) (Reading p (n + m), snd y)" if "fst y = Some m" for m
        proof -
          have e: "e = EINTR" "rec plan chunk w s1 = Some y" using step(2) True r Inl that by (auto split: if_splits)
          have "section_step ops plan (Sending p n chunk w) s = Some (Sending p n chunk w, s1)"
            using True r Inl e(1) by simp
          then show ?thesis using step(1) [OF e(2)] that by (blast intro: section_run_step)
        qed
        then show ?thesis by blast
      next
        case (Inr k)
        then have "rec plan chunk (w + k) s1 = Some y" using step(2) True r by auto
        moreover have "section_step ops plan (Sending p n chunk w) s = Some (Sending p n chunk (w + k), s1)"
          using True r Inr by simp
        ultimately show ?thesis using step(1) by (blast intro: section_run_step)
      qed
    next
      case False
      then have "section_step ops plan (Sending p n chunk w) s = Some (Reading p (n + w), s)" "y = (Some w, s)"
        using step(2) by auto
      then show ?thesis by (auto intro: section_run_step)
    qed
  qed
  from this [OF assms] show ?thesis by simp
qed

text \<open>Bytes that are received before the newline.\<close>

lemma receive_run:
  assumes "\<And>n. realloc_grants env n" and "newline \<notin> set y"
    and "take len buffer = map Some z" and "length z = len" and "0 < length buffer"
  shows "\<exists>b. client_run ops env args (Receiving (y @ rest) buffer len, s) (Receiving rest b (len + length y), s)
    \<and> take (len + length y) b = map Some (z @ y) \<and> length b = grown (length buffer) (len + length y)"
  using assms(2-)
proof (induction y arbitrary: buffer len z)
  case Nil
  then have "len \<le> length buffer" by (metis length_map length_take min.cobounded1 nat_le_linear take_all)
  with Nil show ?case by (auto simp: grown_small)
next
  case (Cons c y)
  obtain b1 where b1: "buf_store len c (if len \<ge> length buffer
        then buffer @ replicate (length buffer) None else buffer) = Some b1"
      "take (len + 1) b1 = map Some (z @ [c])" "length b1 = grown (length buffer) (len + 1)"
    using buffer_push [OF Cons.prems(2-4)] by blast
  have step: "client_resume ops env args (Receiving ((c # y) @ rest) buffer len) s
      = Some (Receiving (y @ rest) b1 (len + 1), s)"
    using b1(1) assms(1) Cons.prems(1) by (auto simp: Let_def)
  have "0 < length b1" using b1(3) grown_ge [OF Cons.prems(4), of "len + 1"] by simp
  from Cons.IH [OF _ b1(2) _ this] Cons.prems
  obtain b where b: "client_run ops env args (Receiving (y @ rest) b1 (len + 1), s)
      (Receiving rest b (len + 1 + length y), s)"
    "take (len + 1 + length y) b = map Some ((z @ [c]) @ y)"
    "length b = grown (length b1) (len + 1 + length y)" by auto
  have "grown (length b1) (len + 1 + length y) = grown (length buffer) (len + 1 + length y)"
    unfolding b1(3) by (rule grown_grown) (use Cons.prems in auto)
  with b client_run_step [OF step b(1)] show ?case
    by (intro exI [of _ b]) (simp add: add.commute add.left_commute)
qed

section \<open>Packets that fill the buffer\<close>

lemma grown_power: "0 < b \<Longrightarrow> \<exists>k. grown b n = b * 2 ^ k"
proof (induction b n rule: grown.induct)
  case (1 b n)
  show ?case
  proof (cases "n \<le> b")
    case True
    then show ?thesis by (intro exI [of _ 0]) (simp add: grown_small)
  next
    case False
    then obtain k where "grown (b * 2) n = b * 2 * 2 ^ k" using 1 by auto
    then show ?thesis using False 1(2) by (subst grown.simps) (auto intro!: exI [of _ "Suc k"])
  qed
qed

lemma grown_exact: "0 < b \<Longrightarrow> grown b (b * 2 ^ k) = b * 2 ^ k"
proof (induction k arbitrary: b)
  case 0
  then show ?case by (simp add: grown_small)
next
  case (Suc k)
  have "b * 1 \<le> b * 2 ^ k" by (intro mult_le_mono) simp_all
  then have "\<not> b * 2 ^ Suc k \<le> b" using Suc.prems unfolding power_Suc by linarith
  then have "grown b (b * 2 ^ Suc k) = grown (b * 2) (b * 2 * 2 ^ k)"
    using Suc.prems by (subst grown.simps) (simp add: mult.assoc)
  then show ?case using Suc.IH [of "b * 2"] Suc.prems by (simp add: mult.assoc)
qed

lemma full_buffer_iff: "n = grown BUFFER_SIZE n \<longleftrightarrow> (\<exists>k. n = BUFFER_SIZE * 2 ^ k)"
  using grown_power [of BUFFER_SIZE n] grown_exact [of BUFFER_SIZE] by (auto simp: BUFFER_SIZE_def)

lemma grown_before:
  assumes "1 < b" and "b \<le> n" and "n = grown b n"
  shows "grown b (n - 1) = n"
proof -
  have pos: "0 < b" using assms(1) by simp
  have ge: "n - 1 \<le> grown b (n - 1)" "b \<le> grown b (n - 1)" using grown_ge [OF pos] by blast+
  have twice: "grown (grown b (n - 1)) n = n" using grown_grown [OF pos, of "n - 1" n] assms(3) by simp
  show ?thesis
  proof (cases "n \<le> grown b (n - 1)")
    case True
    then show ?thesis using twice by (simp add: grown_small)
  next
    case False
    then have eq: "grown b (n - 1) = n - 1" using ge by linarith
    have "grown (n - 1) n = (n - 1) * 2" using False eq ge assms(1)
      by (subst grown.simps) (auto simp: grown_small)
    then show ?thesis using twice eq ge assms(1) by simp
  qed
qed

section \<open>Receiving a long packet\<close>

lemma receive_run_start:
  assumes "\<And>n. realloc_grants env n" and "malloc_grants env" and "newline \<notin> set y"
  shows "\<exists>b. client_run ops env args (Starting (y @ rest), s)
        (Receiving rest b (length y), s\<lparr>blocks := blocks s + 1\<rparr>)
    \<and> take (length y) b = map Some y \<and> length b = grown BUFFER_SIZE (length y)"
proof -
  let ?b = "replicate BUFFER_SIZE None :: char option list"
  have "client_resume ops env args (Starting (y @ rest)) s
      = Some (Receiving (y @ rest) ?b 0, s\<lparr>blocks := blocks s + 1\<rparr>)" using assms(2) by simp
  moreover obtain b where "client_run ops env args (Receiving (y @ rest) ?b 0, s\<lparr>blocks := blocks s + 1\<rparr>)
      (Receiving rest b (length y), s\<lparr>blocks := blocks s + 1\<rparr>)"
    "take (length y) b = map Some y" "length b = grown BUFFER_SIZE (length y)"
    using receive_run [where buffer = ?b and len = 0 and z = "[]" and ops = ops and args = args and rest = rest
        and s = "s\<lparr>blocks := blocks s + 1\<rparr>", OF assms(1,3)] by (auto simp: BUFFER_SIZE_def)
  ultimately show ?thesis by (blast intro: client_run_step)
qed

text \<open>The newline, and the zero after it, if there is room for it.\<close>

lemma newline_stored:
  assumes "take (length y) b = map Some y" "length b = grown BUFFER_SIZE (length y)"
  defines "b0 \<equiv> (if length y \<ge> length b then b @ replicate (length b) None else b)"
    and "x \<equiv> y @ [newline]"
  shows "\<exists>b1. buf_store (length y) newline b0 = Some b1 \<and> take (length x) b1 = map Some x
    \<and> length b1 = grown BUFFER_SIZE (length x)"
proof -
  have pos: "0 < BUFFER_SIZE" by (simp add: BUFFER_SIZE_def)
  have "0 < length b" unfolding assms(2) using grown_ge [OF pos, of "length y"] pos by linarith
  from buffer_push [OF assms(1) refl this, of newline] obtain b1 where
    b1: "buf_store (length y) newline b0 = Some b1" "take (length x) b1 = map Some x"
      "length b1 = grown (length b) (length x)" by (auto simp: b0_def x_def)
  have "length b1 = grown BUFFER_SIZE (length x)"
    unfolding b1(3) assms(2) by (rule grown_grown) (use pos x_def in auto)
  with b1 show ?thesis by blast
qed

text \<open>A packet that exactly fills the buffer.\<close>

lemma full_buffer_run:
  assumes ok: "\<And>n. realloc_grants env n" "malloc_grants env" and x: "is_command x" "BUFFER_SIZE \<le> length x"
    and full: "length x = grown BUFFER_SIZE (length x)"
  shows "\<exists>b b1. client_run ops env args (Starting (x @ rest), s)
        (Receiving (newline # rest) b (length x - 1), s\<lparr>blocks := blocks s + 1\<rparr>)
    \<and> length b = length x \<and> buf_store (length x - 1) newline b = Some b1 \<and> buf_store (length x) nul b1 = None"
proof -
  obtain y where y: "x = y @ [newline]" "newline \<notin> set y"
    using x by (cases x rule: rev_cases) (auto simp: is_command_def)
  obtain b where b: "client_run ops env args (Starting (y @ newline # rest), s)
        (Receiving (newline # rest) b (length y), s\<lparr>blocks := blocks s + 1\<rparr>)"
      "take (length y) b = map Some y" "length b = grown BUFFER_SIZE (length y)"
    using receive_run_start [OF ok y(2)] by blast
  have len: "length b = length x"
    using grown_before [OF _ x(2) full] b(3) y(1) by (simp add: BUFFER_SIZE_def)
  then have "\<not> length y \<ge> length b" using y(1) by simp
  with newline_stored [OF b(2,3)] full obtain b1 where
    "buf_store (length y) newline b = Some b1" "length b1 = length x" by (auto simp: y(1))
  with b(1) len show ?thesis
    by (intro exI [of _ b] exI [of _ b1]) (simp add: y(1) buf_store_def)
qed

text \<open>Any other packet is stored.\<close>

lemma long_packet_run:
  assumes ok: "\<And>n. realloc_grants env n" "malloc_grants env" and x: "is_command x" "is_text x"
    and room: "length x \<noteq> grown BUFFER_SIZE (length x)"
    and store: "store_packet ops x (s\<lparr>blocks := blocks s + 1\<rparr>) = Some t"
  shows "\<exists>b. client_run ops env args (Starting (x @ rest), s) (Replying rest b, t)"
proof -
  obtain y where y: "x = y @ [newline]" "newline \<notin> set y"
    using x by (cases x rule: rev_cases) (auto simp: is_command_def)
  obtain b where b: "client_run ops env args (Starting (y @ newline # rest), s)
        (Receiving (newline # rest) b (length y), s\<lparr>blocks := blocks s + 1\<rparr>)"
      "take (length y) b = map Some y" "length b = grown BUFFER_SIZE (length y)"
    using receive_run_start [OF ok y(2)] by blast
  obtain b1 where b1: "buf_store (length y) newline
        (if length y \<ge> length b then b @ replicate (length b) None else b) = Some b1"
      "take (length x) b1 = map Some x" "length b1 = grown BUFFER_SIZE (length x)"
    using newline_stored [OF b(2,3)] by (auto simp: y(1))
  have lt: "length x < length b1"
    using room b1(3) grown_ge [of BUFFER_SIZE "length x"] by (simp add: BUFFER_SIZE_def)
  define b2 where "b2 = b1[length x := Some nul]"
  have shape: "b2 = map Some x @ Some nul # drop (Suc (length x)) b1"
    using lt b1(2) by (simp add: b2_def upd_conv_take_nth_drop)
  then have str: "c_string b2 = Some (packet_string x)" by (simp only: c_string_packet)
  have "take (length x) b2 = map Some x" using shape by simp
  then have "those (take (length x) b2) = Some x" by (simp only: those_map_Some)
  then have "take_packet ops b2 (length x) (s\<lparr>blocks := blocks s + 1\<rparr>) = Some t"
    using str store x(2) by (simp add: take_packet_def is_text_def)
  moreover have "buf_store (length y + 1) nul b1 = Some b2" using lt by (simp add: buf_store_def b2_def y(1))
  ultimately have "client_resume ops env args (Receiving (newline # rest) b (length y)) (s\<lparr>blocks := blocks s + 1\<rparr>)
      = Some (Replying rest b2, t)"
    using b1(1) ok(1) by (simp add: y(1) Let_def)
  then have "client_run ops env args (Receiving (newline # rest) b (length y), s\<lparr>blocks := blocks s + 1\<rparr>)
      (Replying rest b2, t)" by (blast intro: client_run_step)
  with b(1) show ?thesis using y(1) by (auto intro: rtranclp_trans)
qed

section \<open>Storing a long packet\<close>

lemma store_packet_long:
  assumes rep: "dev_rep fsl wenv (log_file s) log p" and free: "\<not> log_locked s"
    and x: "is_command x" "length x \<le> kmalloc_max (fst (log_file s))"
  shows "\<exists>t k L. store_packet (dev_ops fsl wenv) x s = Some t \<and> \<not> log_locked t
    \<and> log_file t = (k, snd (log_file s)) \<and> driver_rel 1 k (lastn MAXW (log @ [x])) [] L"
proof -
  let ?s = "s\<lparr>log_locked := True\<rparr>"
  obtain k f where logf: "log_file s = (k, f)" by (cases "log_file s")
  obtain L where h: "driver_rel 1 k log [] L" "private_data f = Some Aesd_device" "kmalloc_max k < 2 ^ 31"
    "write_succeeds wenv" "f_pos f = word_of_nat p"
    using rep [unfolded logf] by (rule dev_repE)
  have "length log \<le> MAXW" using total_fits(3) [OF h(1)] by simp
  then have recent: "keep_recent MAXW log x = lastn MAXW (log @ [x])" by (rule keep_recent_lastn) simp
  have n: "unat (word_of_nat (length x) :: size_t) = length x" "length x < 2 ^ 31"
    using x(2) h(3) by (auto simp: logf intro: unat_of_nat_small)
  have nl: "newline \<in> set x" using x(1) last_in_set [of x] by (auto simp: is_command_def)
  have "spec_write (kmalloc_max k) wenv x (length x) (log, [])
      = (word_of_nat (length x), (keep_recent MAXW log x, []))"
    using x h(4) nl accepted_command [OF x(1)]
    by (simp add: logf write_succeeds_def copy_from_user_def grow_ok_def Let_def)
  with aesd_write_refines_leak [OF h(1,2), of wenv x "word_of_nat (length x)" "f_pos f"] n
  obtain k' L' where w: "aesd_write wenv f x (word_of_nat (length x)) (f_pos f) k =
      Some (word_of_nat (length x), f_pos f, k')" "driver_rel 1 k' (lastn MAXW (log @ [x])) [] L'"
    unfolding recent by auto
  have "op_write (dev_ops fsl wenv) (log_file ?s) x = Some (Inr (length x), (k', f))"
    using w(1) n by (simp add: dev_ops_def dev_write_def logf sys_result_nat)
  then obtain e where wr: "file_call (\<lambda>d. op_write (dev_ops fsl wenv) d x) ?s
      = Some (Inr (length x), after (k', f) [] (sock_writes s) e ?s)"
    using file_call_after [where f = "\<lambda>d. op_write (dev_ops fsl wenv) d x" and s = ?s] by fastforce
  let ?t = "after (k', f) [] (sock_writes s) e ?s"
  have "x \<noteq> []" using x(1) by (simp add: is_command_def)
  then have "write_loop (dev_ops fsl wenv) x 0 ?s = Some ?t"
    using wr write_loop_step [of "dev_ops fsl wenv" x 0 ?s] write_loop_step [of "dev_ops fsl wenv" x "length x" ?t]
    by (simp add: Let_def)
  moreover obtain e' where "file_call (op_fsync (dev_ops fsl wenv)) ?t = Some (Inl 22, after (k', f) [] (sock_writes ?t) e' ?t)"
    using file_call_after [where f = "op_fsync (dev_ops fsl wenv)" and s = ?t] by (fastforce simp: dev_ops_def)
  ultimately show ?thesis using w(2) free
    by (auto simp: store_packet_def lock_unlocked logf pthread_mutex_unlock_def)
qed

section \<open>Sending it back\<close>

text \<open>One \<open>read\<close> of the device.\<close>

lemma long_log_read:
  assumes rel: "driver_rel 1 k log [] L" and opened: "private_data f = Some Aesd_device"
    and loc: "locate (map length log) (unat (f_pos f)) = Some (i, e)"
  defines "f' \<equiv> f\<lparr>f_pos := word_of_nat (unat (f_pos f) + (length (log ! i) - e))\<rparr>"
  shows "op_read (dev_ops fsl wenv) (k, f) BUFFER_SIZE = Some (Inr (drop e (log ! i)), (k, f'))"
    and "unat (f_pos f') = length (concat (take (Suc i) log))"
proof -
  obtain rc te lk cb t where core: "driver_core k rc te lk cb t 1 log [] L" using rel by (rule driver_relE)
  have i: "i < length log" "e < length (log ! i)" "unat (f_pos f) = length (concat (take i log)) + e"
    using loc by (auto simp: locate_Some_iff length_concat take_map)
  have "spec_read 0 log (f_pos f) = (word_of_nat (length (log ! i) - e), drop e (log ! i), f_pos f')"
    using loc by (simp add: spec_read_def f'_def)
  from aesd_read_spec [OF rel opened this] core_entry(2) [OF core i(1)]
  show "op_read (dev_ops fsl wenv) (k, f) BUFFER_SIZE = Some (Inr (drop e (log ! i)), (k, f'))"
    by (simp add: dev_ops_def dev_read_def sys_result_nat f'_def)
  have to: "unat (f_pos f) + (length (log ! i) - e) = length (concat (take (Suc i) log))"
    using i by (simp add: take_Suc_conv_app_nth)
  have "length (concat (take (Suc i) log)) \<le> length (concat log)"
    by (metis append_take_drop_id concat_append le_add1 length_append)
  then show "unat (f_pos f') = length (concat (take (Suc i) log))"
    using total_fits(1) [OF rel] unfolding f'_def to by (simp add: word_total)
qed

text \<open>
  Entry after entry is sent, until the last one is read, of which more is left than the buffer holds.
\<close>

lemma reading_overruns:
  assumes rel: "driver_rel 1 k log [] L" and plan: "productive plan"
    and log: "log = front @ [x]" "\<forall>y \<in> set front. length y \<le> BUFFER_SIZE" "BUFFER_SIZE < length x"
    and "private_data f = Some Aesd_device" and "log_file u = (k, f)"
    and "unat (f_pos f) + BUFFER_SIZE < length (concat log)"
  shows "\<exists>n' u' chunk d. section_run (dev_ops fsl wenv) plan (Reading p n, u) (Reading p n', u')
    \<and> op_read (dev_ops fsl wenv) (log_file u') BUFFER_SIZE = Some (Inr chunk, d) \<and> BUFFER_SIZE < length chunk"
  using assms(6-)
proof (induction "length (concat log) - unat (f_pos f)" arbitrary: f u n rule: less_induct)
  case less
  note opened = less.prems(1) and logf = less.prems(2) and pos = less.prems(3)
  obtain i e where loc: "locate (map length log) (unat (f_pos f)) = Some (i, e)"
    using pos locate_None_iff [of "map length log" "unat (f_pos f)"] by (fastforce simp: length_concat)
  have i: "i < length log" "e < length (log ! i)" "unat (f_pos f) = length (concat (take i log)) + e"
    using loc by (auto simp: locate_Some_iff length_concat take_map)
  let ?c = "drop e (log ! i)"
  define f' where "f' = f\<lparr>f_pos := word_of_nat (unat (f_pos f) + (length (log ! i) - e))\<rparr>"
  have f': "op_read (dev_ops fsl wenv) (log_file u) BUFFER_SIZE = Some (Inr ?c, (k, f'))"
    "unat (f_pos f') = length (concat (take (Suc i) log))" "private_data f' = Some Aesd_device"
    using long_log_read(1) [OF rel opened loc, of fsl wenv] long_log_read(2) [OF rel opened loc] opened
    by (simp_all only: logf f'_def [symmetric]) (simp add: f'_def)
  show ?case
  proof (cases "BUFFER_SIZE < length ?c")
    case True
    with f'(1) show ?thesis by blast
  next
    case False
    have "i < length front"
    proof (rule ccontr)
      assume "\<not> i < length front"
      then have "i = length front" using i(1) log(1) by simp
      then show False using False pos i(3) log(1) by simp
    qed
    then have below: "unat (f_pos f') \<le> length (concat front)" unfolding f'(2) log(1)
      by (simp add: Suc_le_eq) (metis append_take_drop_id concat_append le_add1 length_append)
    then have pos': "unat (f_pos f') + BUFFER_SIZE < length (concat log)" using log(1,3) by simp
    have "unat (f_pos f) < unat (f_pos f')" using i f'(2) by (simp add: take_Suc_conv_app_nth)
    then have m: "length (concat log) - unat (f_pos f') < length (concat log) - unat (f_pos f)" using pos by linarith
    obtain er where rd: "file_call (\<lambda>d. op_read (dev_ops fsl wenv) d BUFFER_SIZE) u
        = Some (Inr ?c, after (k, f') [] (sock_writes u) er u)"
      using file_call_after [where f = "\<lambda>d. op_read (dev_ops fsl wenv) d BUFFER_SIZE" and s = u, OF f'(1)] by blast
    let ?v = "after (k, f') [] (sock_writes u) er u"
    obtain j es where "send_chunk plan ?c 0 ?v = Some (Some (length ?c), after (k, f') ?c j es ?v)"
      using send_chunk_all [OF plan, of 0 ?c ?v] by auto
    from sending_run [OF this] have "section_run (dev_ops fsl wenv) plan (Sending p n ?c 0, ?v)
        (Reading p (n + length ?c), after (k, f') ?c j es ?v)" .
    moreover have "section_step (dev_ops fsl wenv) plan (Reading p n) u = Some (Sending p n ?c 0, ?v)"
      using rd False i(2) by simp
    ultimately have run: "section_run (dev_ops fsl wenv) plan (Reading p n, u)
        (Reading p (n + length ?c), after (k, f') ?c j es ?v)" by (blast intro: section_run_step)
    have "log_file (after (k, f') ?c j es ?v) = (k, f')" by simp
    from less.hyps [OF m f'(3) this pos', of "n + length ?c"] run show ?thesis
      by (meson rtranclp_trans)
  qed
qed

text \<open>The whole run: the packet is received and stored, and the reply overruns the buffer on the stack.\<close>

lemma stored_packet_overruns:
  assumes rep: "dev_rep fsl wenv (log_file s) log p" and free: "\<not> log_locked s"
    and ok: "\<And>n. realloc_grants env n" "malloc_grants env" and plan: "productive (client_plan env)"
    and x: "is_command x" "is_text x" "BUFFER_SIZE < length x" "length x \<le> kmalloc_max (fst (log_file s))"
    and room: "length x \<noteq> grown BUFFER_SIZE (length x)"
    and far: "p + BUFFER_SIZE < length (concat (lastn MAXW (log @ [x])))"
  shows "\<exists>b t t1 q n u chunk d.
      client_run (dev_ops fsl wenv) env args (Starting (x @ rest), s) (Replying rest b, t)
    \<and> pthread_mutex_lock t = Some t1
    \<and> section_run (dev_ops fsl wenv) (client_plan env) (Telling, t1) (Reading q n, u)
    \<and> op_read (dev_ops fsl wenv) (log_file u) BUFFER_SIZE = Some (Inr chunk, d) \<and> BUFFER_SIZE < length chunk"
proof -
  obtain t k L where t: "store_packet (dev_ops fsl wenv) x (s\<lparr>blocks := blocks s + 1\<rparr>) = Some t"
    "\<not> log_locked t" "log_file t = (k, snd (log_file s))" "driver_rel 1 k (lastn MAXW (log @ [x])) [] L"
    using store_packet_long [of fsl wenv "s\<lparr>blocks := blocks s + 1\<rparr>" log p x] rep free x(1,4) by auto
  obtain b where run: "client_run (dev_ops fsl wenv) env args (Starting (x @ rest), s) (Replying rest b, t)"
    using long_packet_run [OF ok x(1,2) room t(1)] by blast
  obtain k0 f where logf: "log_file s = (k0, f)" by (cases "log_file s")
  obtain L0 where h: "private_data f = Some Aesd_device" "unat (f_pos f) = p" "llseek_documented fsl"
    "\<forall>y \<in> set log. length y \<le> BUFFER_SIZE"
    using rep [unfolded logf] by (rule dev_repE)
  let ?log = "lastn MAXW (log @ [x])" and ?t = "t\<lparr>log_locked := True\<rparr>"
  have front: "?log = lastn 9 log @ [x]" "\<forall>y \<in> set (lastn 9 log). length y \<le> BUFFER_SIZE"
    using h(4) by (auto simp: lastn_def dest: in_set_dropD)
  have lf: "log_file ?t = (k, f)" using t(3) logf by simp
  have "fsl (f_pos f) 0 SEEK_CUR (word_of_nat (length (concat ?log))) = (f_pos f, f_pos f)"
    using h(3) by (simp add: llseek_documented_def)
  from aesd_llseek_spec [where fsl = fsl, OF t(4) h(1) this] have
    "op_lseek (dev_ops fsl wenv) (log_file ?t) 0 SEEK_CUR = Some (sys_result (f_pos f) (sint (f_pos f)), (k, f))"
    unfolding lf by (simp add: dev_ops_def dev_lseek_def)
  then obtain e where tell: "file_call (\<lambda>d. op_lseek (dev_ops fsl wenv) d 0 SEEK_CUR) ?t
      = Some (sys_result (f_pos f) (sint (f_pos f)), after (k, f) [] (sock_writes ?t) e ?t)"
    using file_call_after [where f = "\<lambda>d. op_lseek (dev_ops fsl wenv) d 0 SEEK_CUR" and s = ?t] by blast
  let ?u = "after (k, f) [] (sock_writes ?t) e ?t"
  have "\<exists>q. section_step (dev_ops fsl wenv) (client_plan env) Telling ?t = Some (Reading q 0, ?u)"
    using tell by auto
  moreover have "log_file ?u = (k, f)" by simp
  note reading_overruns [OF t(4) plan front x(3) h(1) this, unfolded h(2), OF far]
  ultimately obtain q n u chunk d where
    "section_run (dev_ops fsl wenv) (client_plan env) (Telling, ?t) (Reading q n, u)"
    "op_read (dev_ops fsl wenv) (log_file u) BUFFER_SIZE = Some (Inr chunk, d)" "BUFFER_SIZE < length chunk"
    by (meson section_run_step)
  with run lock_unlocked [OF t(2)] show ?thesis by blast
qed

end
