(* ===== verification/ServerProperties.thy ===== *)
theory ServerProperties
  imports DriverProperties ServerOnDriver FileTimer SeekCommand ServerOverrun ServerLife
begin

text \<open>
  The properties of the socket server, each with an instance: a thread that serves a client whose
  socket takes two bytes at a time and is interrupted every other time, on a device just loaded.
\<close>

section \<open>Instances\<close>

definition doc_fsl :: llseek_fn where
  "doc_fsl pos off whence sz =
     (if whence = SEEK_SET \<and> unat off \<le> unat sz then (off, off)
      else if whence = SEEK_CUR \<and> off = 0 then (pos, pos) else (- EINVAL, pos))"

lemma doc_fsl_documented: "llseek_documented doc_fsl"
  by (simp add: llseek_documented_def seeks_inside_def doc_fsl_def SEEK_SET_def SEEK_CUR_def)

definition slow_socket :: "nat \<Rightarrow> write_answer" where
  "slow_socket i = (if even i then Takes 2 else Write_fails EINTR)"

lemma slow_socket_productive: "productive slow_socket"
proof -
  have "\<exists>j \<ge> i. \<exists>n > 0. slow_socket j = Takes n" for i
    by (rule exI [of _ "2 * i"]) (simp add: slow_socket_def)
  then show ?thesis by (auto simp: productive_def slow_socket_def)
qed

definition sample_args :: thread_args where
  "sample_args = \<lparr>file_fd = 5, client_fd = 4\<rparr>"

lemma loaded_dev_rep: "dev_rep doc_fsl good_env (loaded_state, open_file) [] 0"
  using loaded_rel doc_fsl_documented
  by (auto simp: dev_rep_def write_succeeds_def good_env_def loaded_state_def BUFFER_SIZE_def)

section \<open>Sessions\<close>

text \<open>
  C2: A client thread on the driver serves a whole session: for any packets the client sends,
  split over any number of bytes received and of partial or interrupted writes on its socket, it
  ends, the client is sent exactly the replies that the packets mean on the log (each packet is
  stored, or is a seek command, and is answered with the log from the position of the file on), the
  log ends as the packets make it, an unfinished packet at the end is dropped, and the thread gives
  back the lock and its buffer and closes both of its descriptors.
\<close>

theorem client_session_on_driver:
  assumes "productive plan" and "\<forall>n. realloc_ok n"
    and "dev_rep fsl wenv (log_file s) log p" and "\<not> log_locked s"
    and "\<forall>x \<in> set xs. is_command x \<and> length x < BUFFER_SIZE" and "newline \<notin> set tail"
  shows "\<exists>s'. client_handler (dev_ops fsl wenv) plan True realloc_ok args (concat xs @ tail) s = Some s'
    \<and> sent s' = sent s @ concat (fst (serve dev_put dev_jump xs log p))
    \<and> (\<exists>log' p'. snd (serve dev_put dev_jump xs log p) = (log', p')
         \<and> dev_rep fsl wenv (log_file s') log' p')
    \<and> \<not> log_locked s' \<and> blocks s' = blocks s \<and> closed s' = closed s @ [client_fd args, file_fd args]"
  using dev_session [OF assms] .

theorem client_session_on_driver_witness:
  "\<exists>s'. client_handler (dev_ops doc_fsl good_env) slow_socket True (\<lambda>n. True) sample_args
      (''x'' @ [newline] @ ''yy'' @ [newline] @ ''z'') (new_thread (loaded_state, open_file)) = Some s'
    \<and> sent s' = ''x'' @ [newline] @ ''x'' @ [newline] @ ''yy'' @ [newline] \<and> closed s' = [4, 5]"
  using client_session_on_driver [where xs = "[''x'' @ [newline], ''yy'' @ [newline]]" and tail = "''z''"
      and s = "new_thread (loaded_state, open_file)" and realloc_ok = "\<lambda>n. True" and args = sample_args
      and log = "[]" and p = 0, OF slow_socket_productive _ _ _ _ _, of doc_fsl good_env]
    loaded_dev_rep
  by (auto simp: is_command_def BUFFER_SIZE_def after_packet_def packet_string_def dev_put_def
      keep_recent_def seek_prefix_def sample_args_def)

text \<open>
  C14: A client that sends text packets to a server on an empty device is answered, after each packet,
  with the last ten packets sent so far, oldest first.
\<close>

theorem server_echoes_last_ten:
  assumes "productive plan" and "\<forall>n. realloc_ok n"
    and "dev_rep fsl wenv (log_file s) [] 0" and "\<not> log_locked s"
    and "\<forall>x \<in> set xs. is_command x \<and> length x < BUFFER_SIZE \<and> is_text x"
  shows "\<exists>s'. client_handler (dev_ops fsl wenv) plan True realloc_ok args (concat xs) s = Some s'
    \<and> sent s' = sent s @ concat (map (\<lambda>i. concat (lastn AESDCHAR_MAX_WRITE_OPERATIONS_SUPPORTED
        (take (Suc i) xs))) [0..<length xs])"
proof -
  have "fst (serve dev_put dev_jump xs [] 0) =
      map (\<lambda>i. concat (lastn MAXW (take (Suc i) xs))) [0..<length xs]"
    using serve_text [of xs "[]" 0] assms(5) by simp
  then show ?thesis
    using dev_session [where tail = "[]", OF assms(1,2,3,4)] assms(5) by fastforce
qed

theorem server_echoes_last_ten_witness:
  "\<exists>s'. client_handler (dev_ops doc_fsl good_env) slow_socket True (\<lambda>n. True) sample_args
      (''x'' @ [newline] @ ''yy'' @ [newline]) (new_thread (loaded_state, open_file)) = Some s'
    \<and> sent s' = ''x'' @ [newline] @ ''x'' @ [newline] @ ''yy'' @ [newline]"
  using server_echoes_last_ten [where xs = "[''x'' @ [newline], ''yy'' @ [newline]]"
      and s = "new_thread (loaded_state, open_file)" and realloc_ok = "\<lambda>n. True" and args = sample_args,
      OF slow_socket_productive _ _ _ _, of doc_fsl good_env] loaded_dev_rep
  by (simp add: is_command_def BUFFER_SIZE_def is_text_def packet_string_def seek_prefix_def lastn_def)


lemma stored_dev_rep:
  "\<exists>d. dev_rep doc_fsl good_env d [''ab'' @ [newline], ''c'' @ [newline]] 0"
proof -
  have x: "is_command (''ab'' @ [newline])" "is_command (''c'' @ [newline])" by (simp_all add: is_command_def)
  obtain d where "dev_rep doc_fsl good_env d [''ab'' @ [newline]] 0"
    using dev_write_law [OF loaded_dev_rep x(1)] by (auto simp: BUFFER_SIZE_def keep_recent_def)
  from dev_write_law [OF this x(2)] show ?thesis by (auto simp: BUFFER_SIZE_def keep_recent_def)
qed


text \<open>
  C30: The numbers of a seek command written in decimal are read back as they were, for all pairs of
  32-bit numbers.
\<close>

theorem seek_command_roundtrip:
  "sscanf_seekto (seek_command a b) = Some \<lparr>write_cmd = a, write_cmd_offset = b\<rparr>"
  by (rule scan_seek_command)

text \<open>
  C21: Whatever the log file and the socket do and whatever the client sends, a client thread that
  ends has given back the log lock and its buffer, and closed its two descriptors, once each.
\<close>

theorem client_handler_balanced:
  assumes "client_handler ops plan malloc_ok realloc_ok args input s = Some s'"
  shows "log_locked s' = log_locked s \<and> blocks s' = blocks s
    \<and> closed s' = closed s @ [client_fd args, file_fd args] \<and> (\<exists>bytes. sent s' = sent s @ bytes)"
  using frame_client_handler [OF assms] .

theorem client_handler_balanced_witness:
  "\<exists>s'. client_handler file_ops_of slow_socket True (\<lambda>n. False) sample_args ''xyz''
      (new_thread ([], 0)) = Some s' \<and> blocks s' = 0 \<and> closed s' = [4, 5]"
proof -
  have "client_handler file_ops_of slow_socket True (\<lambda>n. False) sample_args ''xyz''
      (new_thread ([], 0)) \<noteq> None"
    by (simp add: client_handler_def receivePackets_def buf_store_def BUFFER_SIZE_def)
  then obtain s' where "client_handler file_ops_of slow_socket True (\<lambda>n. False) sample_args ''xyz''
      (new_thread ([], 0)) = Some s'" by blast
  with client_handler_balanced [OF this] show ?thesis by (simp add: sample_args_def)
qed

text \<open>
  C32: A packet that is not a seek command makes the server write outside its buffers when it has 1024
  bytes or more, memory is granted and the socket takes the reply. If its length is 1024, 2048 and so
  on, the thread comes to its newline with a buffer of exactly that many bytes, and the terminating
  zero does not fit. Otherwise the packet is stored, and if more than 1024 bytes of the log come after
  the position of the file, the reply comes to a \<open>read\<close> of 1024 bytes for which the driver, which does
  not look at the size asked for, gives more than the buffer on the stack of \<open>sendFileToSocket\<close> holds.
\<close>

theorem long_packet_overruns_buffer:
  assumes "dev_rep fsl wenv (log_file s) log p" and "\<not> log_locked s"
    and "malloc_grants env" and "\<forall>n. realloc_grants env n" and "productive (client_plan env)"
    and "is_command x" and "is_text x" and "BUFFER_SIZE \<le> length x"
    and "length x \<le> kmalloc_max (fst (log_file s))"
    and "(\<exists>k. length x = BUFFER_SIZE * 2 ^ k) \<or>
      p + BUFFER_SIZE < length (concat (lastn AESDCHAR_MAX_WRITE_OPERATIONS_SUPPORTED (log @ [x])))"
  shows "if \<exists>k. length x = BUFFER_SIZE * 2 ^ k
    then \<exists>b b1. client_run (dev_ops fsl wenv) env args (Starting (x @ rest), s)
           (Receiving (newline # rest) b (length x - 1), s\<lparr>blocks := blocks s + 1\<rparr>)
         \<and> length b = length x \<and> buf_store (length x - 1) newline b = Some b1 \<and> buf_store (length x) nul b1 = None
    else \<exists>b t t1 q n u chunk d.
           client_run (dev_ops fsl wenv) env args (Starting (x @ rest), s) (Replying rest b, t)
         \<and> pthread_mutex_lock t = Some t1
         \<and> section_run (dev_ops fsl wenv) (client_plan env) (Telling, t1) (Reading q n, u)
         \<and> op_read (dev_ops fsl wenv) (log_file u) BUFFER_SIZE = Some (Inr chunk, d)
         \<and> BUFFER_SIZE < length chunk"
proof (cases "\<exists>k. length x = BUFFER_SIZE * 2 ^ k")
  case True
  then have "length x = grown BUFFER_SIZE (length x)" using full_buffer_iff by blast
  from full_buffer_run [OF assms(4) [rule_format] assms(3,6,8) this] True show ?thesis by simp
next
  case False
  then have "length x \<noteq> grown BUFFER_SIZE (length x)" using full_buffer_iff by blast
  moreover have "length x \<noteq> BUFFER_SIZE * 2 ^ 0" using False by blast
  then have "BUFFER_SIZE < length x" using assms(8) by simp
  ultimately show ?thesis using stored_packet_overruns [of fsl wenv s log p env x args rest] assms False by simp
qed

definition overrun_client :: client_env where
  "overrun_client = \<lparr>client_input = replicate 1500 CHR ''x'' @ [newline], client_hangs_up = False,
     client_plan = slow_socket, malloc_grants = True, realloc_grants = (\<lambda>n. True)\<rparr>"

lemma overrun_client_simps [simp]:
  "client_plan overrun_client = slow_socket" "malloc_grants overrun_client" "realloc_grants overrun_client n"
  by (simp_all add: overrun_client_def)

lemma not_a_power: "\<not> (\<exists>k. 1501 = BUFFER_SIZE * 2 ^ k)"
proof
  assume "\<exists>k. 1501 = BUFFER_SIZE * 2 ^ k"
  then obtain k where "(1501 :: nat) = 1024 * 2 ^ k" by (auto simp: BUFFER_SIZE_def)
  then have "(1024 :: nat) dvd 1501" by (metis dvd_triv_left)
  then show False by simp
qed

theorem long_packet_overruns_buffer_witness:
  "\<exists>b t t1 q n u chunk d. client_run (dev_ops doc_fsl good_env) overrun_client sample_args
       (Starting (replicate 1500 CHR ''x'' @ [newline]), new_thread (loaded_state, open_file)) (Replying [] b, t)
     \<and> pthread_mutex_lock t = Some t1
     \<and> section_run (dev_ops doc_fsl good_env) slow_socket (Telling, t1) (Reading q n, u)
     \<and> op_read (dev_ops doc_fsl good_env) (log_file u) BUFFER_SIZE = Some (Inr chunk, d)
     \<and> BUFFER_SIZE < length chunk"
proof -
  let ?x = "replicate 1500 CHR ''x'' @ [newline]" and ?s = "new_thread (loaded_state, open_file)"
  have "takeWhile (\<lambda>c. c \<noteq> nul) ?x = ?x" by (rule takeWhile_eq_all_conv [THEN iffD2]) auto
  moreover have "hd (take 19 ?x) \<noteq> hd seek_prefix" by (simp add: seek_prefix_def hd_append hd_replicate)
  ultimately have plain: "is_text ?x" unfolding is_text_def packet_string_def by metis
  have len: "length ?x = 1501" by simp
  have "0 + BUFFER_SIZE < length (concat (lastn AESDCHAR_MAX_WRITE_OPERATIONS_SUPPORTED ([] @ [?x])))"
    by (simp add: lastn_short BUFFER_SIZE_def)
  from long_packet_overruns_buffer [where s = ?s and log = "[]" and p = 0 and x = ?x and rest = "[]"
      and env = overrun_client and args = sample_args, OF _ _ _ _ _ _ plain _ _ disjI2 [OF this],
      of doc_fsl good_env] loaded_dev_rep slow_socket_productive
  show ?thesis unfolding len if_not_P [OF not_a_power]
    by (simp add: is_command_def BUFFER_SIZE_def loaded_state_def)
qed

text \<open>
  C33: When the socket fails while the log is sent back, the thread does not restore the position of
  the log file: it stays after what was read, so later replies on this connection start there.
\<close>

theorem failed_reply_moves_position:
  assumes "dev_rep fsl wenv (log_file s) log p" and "p < length (concat log)"
    and "plan (sock_writes s) = Write_fails e" and "e \<noteq> EINTR"
  shows "\<exists>s' q. sendFileToSocket (dev_ops fsl wenv) plan s = Some (- 1, s') \<and> sent s' = sent s
    \<and> p < q \<and> dev_rep fsl wenv (log_file s') log q"
  using sendFileToSocket_fails [where plan = plan, OF assms] .

theorem failed_reply_moves_position_witness:
  "\<exists>d s' q. sendFileToSocket (dev_ops doc_fsl good_env) (\<lambda>i. Write_fails 104) (new_thread d) = Some (- 1, s')
    \<and> 0 < q \<and> dev_rep doc_fsl good_env (log_file s') [''ab'' @ [newline], ''c'' @ [newline]] q"
proof -
  obtain k f where "dev_rep doc_fsl good_env (k, f) [''ab'' @ [newline], ''c'' @ [newline]] 0"
    using stored_dev_rep by auto
  with failed_reply_moves_position [of doc_fsl good_env "new_thread (k, f)"
      "[''ab'' @ [newline], ''c'' @ [newline]]" 0 "\<lambda>i. Write_fails 104" 104]
  show ?thesis by (auto simp: EINTR_def)
qed

section \<open>Several clients\<close>

text \<open>The servers on the device and on a file, with any number of clients.\<close>

abbreviation dev_reachable :: "llseek_fn \<Rightarrow> write_env \<Rightarrow> (kstate, file) server_system \<Rightarrow> bool" where
  "dev_reachable fsl wenv \<equiv> reachable
     (server_start (dev_rep fsl wenv) (lastn AESDCHAR_MAX_WRITE_OPERATIONS_SUPPORTED) fresh_file (\<lambda>f. unat (f_pos f)))
     (server_step (dev_ops fsl wenv) fresh_file (\<lambda>f. unat (f_pos f)))"

abbreviation file_reachable :: "(char list, nat) server_system \<Rightarrow> bool" where
  "file_reachable \<equiv> reachable (server_start file_rep (\<lambda>h. h) 0 (\<lambda>p. p)) (server_step file_ops_of 0 (\<lambda>p. p))"

lemma dev_system_inv:
  "dev_reachable fsl wenv S \<Longrightarrow>
   server_inv (dev_rep fsl wenv) dev_put (lastn MAXW) fresh_file (\<lambda>f. unat (f_pos f)) S"
  by (rule dev_shared.system.reachable_inv)

text \<open>
  C6: With any number of clients whose sections interleave in any order, and whatever their sockets do,
  the device always holds the last ten packets stored by any of them. Every reply consists of the last
  ten packets at the time it is sent, from the position of the file of its thread on, or a prefix of
  that if the socket failed; a complete reply from the start, to a packet that was stored, contains
  that packet unless ten others were stored in between.
\<close>

theorem concurrent_replies:
  assumes "dev_reachable fsl wenv S"
  shows "(\<exists>L. driver_rel 1 (shared S) (lastn AESDCHAR_MAX_WRITE_OPERATIONS_SUPPORTED (history S)) [] L)
    \<and> (\<forall>r \<in> set (replies S). r_stored r \<le> r_at r \<and> r_at r \<le> length (history S)
         \<and> (\<exists>j. r_text r = take j (drop (r_from r)
               (concat (lastn AESDCHAR_MAX_WRITE_OPERATIONS_SUPPORTED (take (r_at r) (history S))))))
         \<and> (r_complete r \<longrightarrow> r_text r = drop (r_from r)
               (concat (lastn AESDCHAR_MAX_WRITE_OPERATIONS_SUPPORTED (take (r_at r) (history S)))))
         \<and> (r_complete r \<and> r_own r \<and> r_from r = 0
               \<and> r_at r < r_stored r + AESDCHAR_MAX_WRITE_OPERATIONS_SUPPORTED \<longrightarrow>
             (\<exists>pre post. r_text r = pre @ history S ! (r_stored r - 1) @ post)))"
proof -
  note inv = dev_system_inv [OF assms]
  then have ok: "\<forall>r \<in> set (replies S). reply_ok dev_put (lastn MAXW) (history S) r"
    by (simp add: server_inv_def)
  have "\<exists>pre post. r_text r = pre @ history S ! (r_stored r - 1) @ post"
    if "reply_ok dev_put (lastn MAXW) (history S) r" "r_complete r" "r_own r" "r_from r = 0"
      "r_at r < r_stored r + MAXW" for r
    using lastn_contains [of "r_stored r" "r_at r" "history S" MAXW] that
    unfolding reply_ok_def own_place_def by simp
  with ok have "\<forall>r \<in> set (replies S). r_complete r \<and> r_own r \<and> r_from r = 0
      \<and> r_at r < r_stored r + MAXW \<longrightarrow> (\<exists>pre post. r_text r = pre @ history S ! (r_stored r - 1) @ post)"
    by blast
  moreover have "\<exists>L. driver_rel 1 (shared S) (lastn MAXW (history S)) [] L"
    using inv by (simp add: server_inv_def dev_rep_def)
  ultimately show ?thesis using ok unfolding reply_ok_def by blast
qed

definition start_system :: "'s \<Rightarrow> ('s, 'f) server_system" where
  "start_system sh = \<lparr>shared = sh, clients = (\<lambda>t. None), history = [], owes = (\<lambda>t. None), replies = []\<rparr>"

lemma sample_inst:
  "dev_rep doc_fsl good_env (loaded_state, fresh_file) [] 0"
  using loaded_dev_rep by (simp add: open_file_def fresh_file_def)

text \<open>One client that connects, stores a packet and gets its reply, on any shared log.\<close>

context shared_log
begin

abbreviation reached :: "('s, 'f) server_system \<Rightarrow> bool" where
  "reached \<equiv> reachable (server_start rep held fresh position) (server_step ops fresh position)"

lemma connected_reachable:
  assumes "rep (sh, fresh) (held []) (position fresh)"
  shows "reached ((start_system sh)\<lparr>clients := [1 \<mapsto> new_thread (sh, fresh)]\<rparr>)"
proof -
  have "reached (start_system sh)"
    using assms by (intro reach_start) (simp add: server_start_def start_system_def)
  from reach_step [OF this connect [of "start_system sh" 1 "new_thread (sh, fresh)"]]
  show ?thesis by (simp add: start_system_def)
qed

lemma replied_reachable:
  assumes rep: "rep (sh, fresh) (held []) (position fresh)"
  shows "\<exists>S r. reached S \<and> replies S = [r] \<and> r_complete r \<and> r_own r \<and> r_stored r = 1 \<and> r_at r = 1
     \<and> history S = [[newline]] \<and> r_from r = snd (put (held []) (position fresh) [newline])"
proof -
  let ?c = "new_thread (sh, fresh)"
  define S1 where "S1 = (start_system sh)\<lparr>clients := [1 \<mapsto> ?c]\<rparr>"
  have r1: "reached S1" using connected_reachable [OF rep] by (simp add: S1_def)
  have v1: "view S1 ?c = ?c" by (simp add: view_def S1_def start_system_def new_thread_def)
  have x: "is_command [newline]" "is_text [newline]" "length [newline] \<le> limit"
    using limit_ok by (simp_all add: is_command_def is_text_def packet_string_def seek_prefix_def BUFFER_SIZE_def)
  have rep0: "rep (log_file ?c) (held []) (position fresh)" "\<not> log_locked ?c" using rep by simp_all
  obtain d k e where st: "store_packet ops [newline] ?c = Some (after d [] k e ?c)"
    "rep d (fst (put (held []) (position fresh) [newline])) (snd (put (held []) (position fresh) [newline]))"
    using store_packet_ok [OF rep0 x(1,3)] by auto
  define c2 where "c2 = after d [] k e ?c"
  define S2 where "S2 = (put_client 1 c2 S1)\<lparr>history := [[newline]], owes := [1 \<mapsto> (1, True)]\<rparr>"
  have "server_step ops fresh position S1 S2"
    using store [of S1 1 ?c "[newline]" ops c2] st(1) v1 x
    by (simp add: S1_def S2_def start_system_def BUFFER_SIZE_def c2_def put_client_def)
  with r1 have r2: "reached S2" by (rule reach_step)
  have v2: "view S2 c2 = c2" by (simp add: view_def S2_def put_client_def c2_def after_def)
  obtain c3 where sb: "send_back ops slow_socket c2 = Some c3"
    using send_back_all [OF slow_socket_productive, of c2] st(2) rep0(2) by (auto simp: c2_def)
  have "server_step ops fresh position S2 ((put_client 1 c3 S2)
      \<lparr>owes := (owes S2)(1 := None), replies := replies S2 @ [reply_of position 1 (1, True) True S2 c2 c3]\<rparr>)"
    by (rule reply [where c = c2 and plan = slow_socket])
      (use sb v2 in \<open>simp_all add: S2_def put_client_def slow_socket_productive\<close>)
  from reach_step [OF r2 this]
  have "reached ((put_client 1 c3 S2)
      \<lparr>owes := (owes S2)(1 := None), replies := replies S2 @ [reply_of position 1 (1, True) True S2 c2 c3]\<rparr>)" .
  moreover have "position (snd (log_file c2)) = snd (put (held []) (position fresh) [newline])"
    using st(2) rep_position [of "fst d" "snd d"] by (simp add: c2_def)
  ultimately show ?thesis
    by (intro exI conjI) (assumption, simp_all add: S2_def S1_def put_client_def start_system_def reply_of_def, simp_all)
qed

end

theorem concurrent_replies_witness:
  "\<exists>S r. dev_reachable doc_fsl good_env S \<and> replies S = [r] \<and> history S = [[newline]] \<and> r_text r = [newline]"
proof -
  obtain S r where S: "dev_reachable doc_fsl good_env S" "replies S = [r]" "r_complete r"
    "r_at r = 1" "history S = [[newline]]" "r_from r = 0"
    using dev_shared.replied_reachable [of doc_fsl good_env loaded_state] sample_inst
    by (auto simp: dev_put_def lastn_def fresh_file_def simp del: MAXW_eq)
  then have "r_text r = drop (r_from r) (concat (lastn AESDCHAR_MAX_WRITE_OPERATIONS_SUPPORTED (take (r_at r) [[newline]])))"
    using concurrent_replies [OF S(1)] by simp
  then have "r_text r = [newline]" using S by (simp add: lastn_def)
  with S show ?thesis by blast
qed

text \<open>
  No section waits for ever: in every state that the threads can reach, storing a packet, seeking
  and sending the log back all end, for every client, if its socket goes on taking bytes; and a seek
  leaves the file of its thread at the byte the command names, if there is one.
\<close>

lemma concurrent_sections_end:
  assumes "dev_reachable fsl wenv S" and "clients S t = Some c"
    and "is_command x" and "length x < BUFFER_SIZE" and "productive plan"
  shows "store_packet (dev_ops fsl wenv) x (view S c) \<noteq> None
    \<and> send_back (dev_ops fsl wenv) plan (view S c) \<noteq> None
    \<and> (\<exists>c'. seek_log (dev_ops fsl wenv) args (view S c) = Some c' \<and> unat (f_pos (snd (log_file c'))) =
        dev_jump (lastn AESDCHAR_MAX_WRITE_OPERATIONS_SUPPORTED (history S)) (unat (f_pos (snd (log_file c)))) args)"
proof -
  have ok: "thread_ok (dev_rep fsl wenv) (shared S) (lastn MAXW (history S)) c"
    using dev_system_inv [OF assms(1)] assms(2) by (simp add: server_inv_def del: MAXW_eq)
  note v = dev_shared.thread_view [OF ok]
  obtain c' where sk: "seek_log (dev_ops fsl wenv) args (view S c) = Some c'"
    using dev.seek_log_ok [OF v(2,1), of args] by blast
  with dev_shared.seek_section(3) [OF ok sk] dev.store_packet_ok [OF v(2,1) assms(3)]
    dev.send_back_all [OF assms(5) v(2,1)] assms(4)
  show ?thesis by auto
qed

lemma concurrent_sections_end_witness:
  "\<exists>S t c. dev_reachable doc_fsl good_env S \<and> clients S t = Some c
     \<and> send_back (dev_ops doc_fsl good_env) slow_socket (view S c) \<noteq> None"
proof -
  let ?c = "new_thread (loaded_state, fresh_file)"
  let ?S = "(start_system loaded_state)\<lparr>clients := [1 \<mapsto> ?c]\<rparr>"
  have c: "clients ?S 1 = Some ?c" by simp
  have r: "dev_reachable doc_fsl good_env ?S"
    using dev_shared.connected_reachable [of doc_fsl good_env loaded_state] sample_inst
    by (simp add: lastn_def fresh_file_def del: MAXW_eq)
  from concurrent_sections_end [OF r c, of "[newline]" slow_socket] r c
  show ?thesis
    by (intro exI [of _ ?S] exI [of _ 1] exI [of _ ?c])
      (simp add: is_command_def BUFFER_SIZE_def slow_socket_productive)
qed

section \<open>The log in a file\<close>

text \<open>
  C38: In the build that logs to a file, with any number of clients and as long as the timer has not
  fired, the file holds all packets in the order in which they were stored; but appending leaves the offset of a
  client's file behind its packet, so the reply to a stored packet is only what others stored since
  then: if there was nothing, the client is sent nothing.
\<close>

theorem file_clients_replies:
  assumes "file_reachable S"
  shows "shared S = concat (history S)
    \<and> (\<forall>r \<in> set (replies S). r_complete r \<and> r_own r \<longrightarrow>
         r_text r = concat (drop (r_stored r) (take (r_at r) (history S))))
    \<and> (\<forall>r \<in> set (replies S). r_complete r \<and> r_own r \<and> r_at r = r_stored r \<longrightarrow> r_text r = [])"
proof -
  have inv: "server_inv file_rep file_put (\<lambda>h. h) 0 (\<lambda>p. p) S"
    using assms by (rule appended_shared.system.reachable_inv)
  have "r_text r = concat (drop (r_stored r) (take (r_at r) (history S)))"
    if "r \<in> set (replies S)" "r_complete r" "r_own r" for r
  proof -
    have ok: "reply_ok file_put (\<lambda>h. h) (history S) r" using inv that(1) by (simp add: server_inv_def)
    then have "r_from r = length (concat (take (r_stored r) (history S)))"
      using that(3) by (auto simp: reply_ok_def intro!: own_place_file)
    then show ?thesis using ok that(2) by (simp add: reply_ok_def drop_concat_take)
  qed
  moreover have "shared S = concat (history S)" using inv by (simp add: server_inv_def file_rep_def)
  ultimately show ?thesis by simp
qed

theorem file_clients_replies_witness:
  "\<exists>S r. file_reachable S \<and> shared S = [newline] \<and> replies S = [r] \<and> r_text r = []"
proof -
  obtain S r where S: "file_reachable S" "replies S = [r]" "r_complete r" "r_own r" "r_stored r = 1" "r_at r = 1"
    "history S = [[newline]]"
    using appended_shared.replied_reachable [of "[]"] by (auto simp: file_rep_def)
  with file_clients_replies [OF S(1)] show ?thesis by (intro exI [of _ S] exI [of _ r]) simp
qed

text \<open>
  C39: The time stamps are written over the log: the timer's file is not opened for appending, so the
  file always consists of all time stamps so far, followed by what is left of the packets: each time stamp
  takes the place of as many of the oldest bytes of packets that were still there, and they are lost.
\<close>

theorem timestamps_overwrite:
  assumes "\<forall>e \<in> set es. event_ok e"
  shows "play fd ([], 0) es = Some (concat (stamps es) @ surviving es [], length (concat (stamps es)))"
  using play_overwrites [OF assms, of fd "[]" "[]"] by simp

theorem timestamps_overwrite_witness:
  "play 9 ([], 0) [Packet (''hello world 123'' @ [newline]), Stamp ''Mon''] =
    Some (''timestamp:Mon'' @ [newline] @ ''3'' @ [newline], 14)"
  using timestamps_overwrite [of "[Packet (''hello world 123'' @ [newline]), Stamp ''Mon'']" 9]
  by (simp add: is_command_def BUFFER_SIZE_def del: play.simps)

section \<open>The main thread\<close>


definition sample_main :: main_env where
  "sample_main = \<lparr>sigint_ok = True, sigterm_ok = True,
     bind_answers = \<lparr>socket_ans = 3, getaddrinfo_ok = True, bind_ok = True\<rparr>, daemon_ok = True,
     listen_ok = True, mutex_ok = True,
     turns = (\<lambda>n. \<lparr>item_ok = True, log_ans = 10 + int n, create_ok = True\<rparr>),
     thread_ends = (\<lambda>t. True), timer_log = 9, timer_create_ok = True, timer_settime_ok = True,
     remove_ok = True\<rparr>"

definition sample_rounds :: "round list" where
  "sample_rounds = [(None, Accepted 4 (Some ''::1''), None), (None, Accept_fails EINTR, None),
     (None, Accepted 5 (Some ''::1''), None), (Some SIGTERM, Accept_fails 22, None)]"

lemma sample_rounds_ok: "signalled sample_rounds" "hosts_known sample_rounds"
  by (simp_all add: signalled_def hosts_known_def sample_rounds_def exit_signal_def)


text \<open>
  C18: When the server exits from its main loop, and memory and threads could be had for every
  connection, every thread that was started has been joined, all queue items are released, the timer
  of the file build is gone, and no descriptor is left open: neither a client's, nor a log file's, nor
  the listening socket. The status tells whether the log file could be removed.
\<close>

theorem orderly_end:
  assumes "server_main use_char_device env rounds (command_line progname d) initial_proc = Some (c, p')"
    and "setup_ok use_char_device d env"
    and "\<forall>i. item_ok (turns env i) \<and> create_ok (turns env i) \<and> - 1 \<le> log_ans (turns env i)"
  shows "c = (if use_char_device \<or> remove_ok env then EXIT_SUCCESS else EXIT_FAILURE)
    \<and> joined p' = started p' \<and> queue p' = [] \<and> items p' = 0 \<and> open_fds p' = []
    \<and> (\<not> use_char_device \<longrightarrow> timer p' = None)"
proof -
  obtain p where p: "socketLogger use_char_device env rounds d initial_proc
      = serve_connections use_char_device env rounds p"
    "accounts (main_fds use_char_device env (socket_fd p)) p" "queue p = []"
    using setup_succeeds [OF assms(2)] by blast
  have "mutex_ok env" using assms(2) by (simp add: setup_ok_def)
  then have "serve_connections use_char_device env rounds p = Some (Inl c, p')"
    using assms(1) p(1)
    by (auto simp: server_main_command_line serve_connections_def bind_eq_Some_conv Let_def split: if_splits)
  from serve_connections_end [OF this p(2,3)] assms(3) show ?thesis by blast
qed

theorem orderly_end_witness:
  "\<exists>p'. server_main False sample_main sample_rounds [''aesdsocket''] initial_proc = Some (EXIT_SUCCESS, p')
    \<and> open_fds p' = [] \<and> joined p' = [\<lparr>file_fd = 10, client_fd = 4\<rparr>, \<lparr>file_fd = 11, client_fd = 5\<rparr>]"
proof -
  have ok: "setup_ok False False sample_main" by (simp add: setup_ok_def sample_main_def)
  have "\<exists>p'. server_main False sample_main sample_rounds [''aesdsocket''] initial_proc = Some (EXIT_SUCCESS, p')
    \<and> started p' = [\<lparr>file_fd = 10, client_fd = 4\<rparr>, \<lparr>file_fd = 11, client_fd = 5\<rparr>]"
    by (simp add: server_main_def socketLogger_def set_up_def registerSignalHandler_def bindPortToSocket_def
        Daemonize_def createTimer_def timer_delete_def serve_connections_def sample_main_def
        sample_rounds_def initial_proc_def accept_loop.simps deliver_def syslog_def open_fd_def
        new_item_def enqueue_def signal_handler_def EINTR_def Let_def close_fd_def)
  then obtain p' where p': "server_main False sample_main sample_rounds (command_line ''aesdsocket'' False)
      initial_proc = Some (EXIT_SUCCESS, p')"
    "started p' = [\<lparr>file_fd = 10, client_fd = 4\<rparr>, \<lparr>file_fd = 11, client_fd = 5\<rparr>]"
    by (auto simp: command_line_def)
  from orderly_end [OF p'(1) ok] p' show ?thesis
    by (simp add: sample_main_def command_line_def)
qed

text \<open>
  C31: If any call of the setup fails (installing a handler, creating, binding or listening on the
  socket, becoming a daemon, arming the timer of the file build, or initialising the mutex), the process
  ends before it accepts a connection, and every address list it got is released. The status is 1,
  except for the mutex, where it is 0. What is left open, and armed, depends on the step that fails: nothing
  up to the socket and when the socket cannot be bound or listened on; the socket when the address
  cannot be found or \<open>daemon\<close> fails; the socket and the log file of the timer after that.
\<close>

theorem setup_failure_exits:
  assumes "\<not> setup_ok use_char_device d env" and "b = bind_answers env"
    and "no_socket \<longleftrightarrow> \<not> (sigint_ok env \<and> sigterm_ok env) \<or> socket_ans b = - 1"
    and "listening \<longleftrightarrow> getaddrinfo_ok b \<and> bind_ok b \<and> (d \<longrightarrow> daemon_ok env) \<and> listen_ok env"
    and "timer_ok \<longleftrightarrow> use_char_device \<or> timer_create_ok env \<and> timer_settime_ok env"
  shows "\<exists>c p'. server_main use_char_device env rounds (command_line progname d) initial_proc = Some (c, p')
    \<and> c = (if no_socket \<or> \<not> listening \<or> \<not> timer_ok then EXIT_FAILURE else 0)
    \<and> started p' = [] \<and> addrinfos p' = 0
    \<and> timer p' = (if no_socket \<or> \<not> listening \<or> \<not> timer_ok \<or> use_char_device then None
        else Some \<lparr>sival_fd = timer_log env, it_value_sec = 10, it_interval_sec = 10\<rparr>)
    \<and> open_fds p' =
       (if no_socket then []
        else if \<not> getaddrinfo_ok b then [socket_ans b]
        else if \<not> bind_ok b then []
        else if d \<and> \<not> daemon_ok env then [socket_ans b]
        else if \<not> listen_ok env then []
        else if use_char_device \<or> timer_log env = - 1 then [socket_ans b]
        else [timer_log env, socket_ans b])"
proof -
  from setup_fails [OF assms, of rounds] obtain r p' where
    r: "socketLogger use_char_device env rounds d initial_proc = Some (r, p')"
      "r = (if no_socket \<or> \<not> listening \<or> \<not> timer_ok then Inl EXIT_FAILURE else Inr ())" and
    p': "started p' = []" "addrinfos p' = 0"
      "timer p' = (if no_socket \<or> \<not> listening \<or> \<not> timer_ok \<or> use_char_device then None
        else Some \<lparr>sival_fd = timer_log env, it_value_sec = 10, it_interval_sec = 10\<rparr>)"
      "open_fds p' = (if no_socket then [] else if \<not> getaddrinfo_ok b then [socket_ans b]
        else if \<not> bind_ok b then [] else if d \<and> \<not> daemon_ok env then [socket_ans b]
        else if \<not> listen_ok env then []
        else if use_char_device \<or> timer_log env = - 1 then [socket_ans b]
        else [timer_log env, socket_ans b])" by blast
  have "server_main use_char_device env rounds (command_line progname d) initial_proc =
      Some (if no_socket \<or> \<not> listening \<or> \<not> timer_ok then EXIT_FAILURE else 0, p')"
    by (simp add: server_main_command_line r)
  with p' show ?thesis by blast
qed

theorem setup_failure_exits_witness:
  "\<exists>p'. server_main False (sample_main\<lparr>mutex_ok := False\<rparr>) sample_rounds [''aesdsocket'', ''-d''] initial_proc
      = Some (0, p') \<and> started p' = [] \<and> open_fds p' = [9, 3] \<and> timer p' \<noteq> None"
  using setup_failure_exits [of False True "sample_main\<lparr>mutex_ok := False\<rparr>" _ False True True sample_rounds
      "''aesdsocket''", OF _ refl]
  by (auto simp: setup_ok_def sample_main_def command_line_def)

end
