(* ===== verification/ServerProcess.thy ===== *)
theory ServerProcess
  imports ServerPieces ServerOnDriver
begin

text \<open>
  The whole server process on the driver: the main thread and any number of client threads side by
  side, in the pieces of \<open>ServerPieces\<close>, on one log. The process is a system of client threads in the
  sense of \<open>ServerThreads\<close>, and a client has been sent exactly the replies recorded there.
\<close>

section \<open>The process\<close>

text \<open>
  Client threads are numbered in the order in which they are started. \<open>process_of\<close> has the data of the
  main thread and the descriptors of the process; \<open>log_now\<close> is what all open log files share.
\<close>

record ('s, 'f) server_process =
  main_at :: main_point
  process_of :: proc
  log_now :: 's
  workers :: "nat \<Rightarrow> (thread_args \<times> client_point \<times> ('s \<times> 'f) thread_state) option"

definition see_log :: "'s \<Rightarrow> ('s \<times> 'f) thread_state \<Rightarrow> ('s \<times> 'f) thread_state" where
  "see_log sh c = c\<lparr>log_file := (sh, snd (log_file c))\<rparr>"

text \<open>The environment: \<open>env\<close> answers the main thread, \<open>cenv t\<close> the client thread \<open>t\<close>.\<close>

inductive main_step ::
  "'f \<Rightarrow> main_env \<Rightarrow> (nat \<Rightarrow> client_env) \<Rightarrow> ('s, 'f) server_process \<Rightarrow> ('s, 'f) server_process \<Rightarrow> bool"
  for fresh env cenv where
  run_accept: "main_at P = Accepting n rounds \<Longrightarrow>
    accept_turn (turns env) n rounds (process_of P) = Some (Inr (rest, args, p)) \<Longrightarrow>
    main_step fresh env cenv P (P\<lparr>main_at := Accepting (Suc n) rest, process_of := p,
      workers := (workers P)(n \<mapsto> (args, Starting (client_input (cenv n)), new_thread (log_now P, fresh)))\<rparr>)"
| run_leave: "main_at P = Accepting n rounds \<Longrightarrow>
    accept_turn (turns env) n rounds (process_of P) = Some (Inl (rest, p)) \<Longrightarrow>
    main_step fresh env cenv P (P\<lparr>main_at := Joining, process_of := leave_loop p\<rparr>)"
| run_join: "main_at P = Joining \<Longrightarrow> queue (process_of P) \<noteq> [] \<Longrightarrow>
    workers P (length (joined (process_of P))) = Some (args, Ended, c) \<Longrightarrow>
    main_step fresh env cenv P (P\<lparr>process_of := join_first (process_of P)\<rparr>)"
| run_exit: "main_at P = Joining \<Longrightarrow> queue (process_of P) = [] \<Longrightarrow>
    main_step fresh env cenv P
      (P\<lparr>main_at := Exited EXIT_SUCCESS, process_of := close_server (process_of P)\<rparr>)"

text \<open>A thread \<open>t\<close> has gone on to \<open>pt\<close> with the state \<open>c\<close>.\<close>

definition client_moved ::
  "nat \<Rightarrow> thread_args \<Rightarrow> client_point \<Rightarrow> ('s \<times> 'f) thread_state \<Rightarrow> ('s, 'f) server_process \<Rightarrow> ('s, 'f) server_process"
where
  "client_moved t args pt c P = P\<lparr>log_now := fst (log_file c), workers := (workers P)(t \<mapsto> (args, pt, c)),
     process_of := (if pt = Ended then close_thread args (process_of P) else process_of P)\<rparr>"

inductive process_step ::
  "('s \<times> 'f) file_ops \<Rightarrow> 'f \<Rightarrow> main_env \<Rightarrow> (nat \<Rightarrow> client_env)
   \<Rightarrow> ('s, 'f) server_process \<Rightarrow> ('s, 'f) server_process \<Rightarrow> bool"
  for ops fresh env cenv where
  run_main: "main_step fresh env cenv P Q \<Longrightarrow> process_step ops fresh env cenv P Q"
| run_client: "workers P t = Some (args, pt, c) \<Longrightarrow>
    client_resume ops (cenv t) args pt (see_log (log_now P) c) = Some (pt', c') \<Longrightarrow>
    process_step ops fresh env cenv P (client_moved t args pt' c' P)"

lemma process_step_cases [consumes 1, case_names run_accept run_leave run_join run_exit run_client]:
  assumes "process_step ops fresh env cenv P Q"
  obtains n rounds rest args p where
    "Q = P\<lparr>main_at := Accepting (Suc n) rest, process_of := p,
      workers := (workers P)(n \<mapsto> (args, Starting (client_input (cenv n)), new_thread (log_now P, fresh)))\<rparr>"
    "main_at P = Accepting n rounds"
    "accept_turn (turns env) n rounds (process_of P) = Some (Inr (rest, args, p))"
  | n rounds rest p where "Q = P\<lparr>main_at := Joining, process_of := leave_loop p\<rparr>" "main_at P = Accepting n rounds"
    "accept_turn (turns env) n rounds (process_of P) = Some (Inl (rest, p))"
  | args c where "Q = P\<lparr>process_of := join_first (process_of P)\<rparr>" "main_at P = Joining" "queue (process_of P) \<noteq> []"
    "workers P (length (joined (process_of P))) = Some (args, Ended, c)"
  | "Q = P\<lparr>main_at := Exited EXIT_SUCCESS, process_of := close_server (process_of P)\<rparr>" "main_at P = Joining"
    "queue (process_of P) = []"
  | t args pt c pt' c' where "Q = P\<lparr>log_now := fst (log_file c'), workers := (workers P)(t \<mapsto> (args, pt', c')),
      process_of := (if pt' = Ended then close_thread args (process_of P) else process_of P)\<rparr>"
    "workers P t = Some (args, pt, c)"
    "client_resume ops (cenv t) args pt (see_log (log_now P) c) = Some (pt', c')"
  using assms
proof (cases rule: process_step.cases)
  case run_main
  from run_main(1) show ?thesis by (cases rule: main_step.cases) (fact that(1-4))+
next
  case (run_client t args pt c pt' c')
  then show ?thesis by (intro that(5)) (simp_all add: client_moved_def)
qed

text \<open>The setup has succeeded, the log holds nothing yet; it can be opened for every connection.\<close>

definition process_start ::
  "('s, 'f) log_rep \<Rightarrow> log_held \<Rightarrow> 'f \<Rightarrow> ('f \<Rightarrow> nat) \<Rightarrow> bool \<Rightarrow> main_env \<Rightarrow> round list
   \<Rightarrow> ('s, 'f) server_process \<Rightarrow> bool"
where
  "process_start rep held fresh position d env rounds P \<longleftrightarrow>
     rep (log_now P, fresh) (held []) (position fresh)
     \<and> set_up True env d initial_proc = (Inr (), process_of P) \<and> mutex_ok env
     \<and> (\<forall>i. 0 \<le> log_ans (turns env i))
     \<and> main_at P = Accepting 0 rounds \<and> workers P = (\<lambda>t. None)"

section \<open>The packets of the clients\<close>

text \<open>Every line a client completes is shorter than the buffer; \<open>n\<close> bytes of the first are already there.\<close>

fun lines_ok :: "nat \<Rightarrow> char list \<Rightarrow> bool" where
  "lines_ok n [] = True"
| "lines_ok n (ch # input) =
     (if ch = newline then n + 1 < BUFFER_SIZE \<and> lines_ok 0 input else lines_ok (n + 1) input)"

text \<open>The buffer has the bytes of an unfinished packet.\<close>

definition buffer_ok :: "char option list \<Rightarrow> nat \<Rightarrow> bool" where
  "buffer_ok buffer len \<longleftrightarrow> BUFFER_SIZE \<le> length buffer
     \<and> (\<exists>z. take len buffer = map Some z \<and> length z = len \<and> newline \<notin> set z)"

fun place_ok :: "client_point \<Rightarrow> bool" where
  "place_ok (Starting input) = lines_ok 0 input"
| "place_ok (Receiving input buffer len) = (lines_ok len input \<and> buffer_ok buffer len)"
| "place_ok (Replying input buffer) = (lines_ok 0 input \<and> BUFFER_SIZE \<le> length buffer)"
| "place_ok Ended = True"

lemma buffer_ok_Nil: "buffer_ok buffer 0 \<longleftrightarrow> BUFFER_SIZE \<le> length buffer"
  by (simp add: buffer_ok_def)

text \<open>One more byte is stored, in a buffer that may grow; or memory runs out.\<close>

lemma receive_byte:
  assumes "buffer_ok buffer len"
  defines "b0 \<equiv> (if len \<ge> length buffer then buffer @ replicate (length buffer) None else buffer)"
  obtains b1 z where "buf_store len ch b0 = Some b1" "take (len + 1) b1 = map Some (z @ [ch])"
    "length z = len" "newline \<notin> set z" "BUFFER_SIZE \<le> length b1"
proof -
  obtain z where z: "take len buffer = map Some z" "length z = len" "newline \<notin> set z"
    and size: "BUFFER_SIZE \<le> length buffer"
    using assms(1) by (auto simp: buffer_ok_def)
  have pos: "0 < length buffer" using size by (auto simp: BUFFER_SIZE_def)
  obtain b1 where b1: "buf_store len ch b0 = Some b1" "take (len + 1) b1 = map Some (z @ [ch])"
    "length b1 = grown (length buffer) (len + 1)"
    using buffer_push [OF z(1,2) pos, of ch] unfolding b0_def by blast
  have "BUFFER_SIZE \<le> length b1" using b1(3) size grown_ge [OF pos, of "len + 1"] by simp
  then show ?thesis using that [OF b1(1,2) z(2,3)] by blast
qed

text \<open>A complete packet: what is in the buffer is a command, as a string and as bytes.\<close>

lemma complete_packet:
  assumes "take (len + 1) b1 = map Some (z @ [newline])" "length z = len" "newline \<notin> set z"
    "len + 1 < BUFFER_SIZE" "BUFFER_SIZE \<le> length b1"
  obtains b2 where "buf_store (len + 1) nul b1 = Some b2" "BUFFER_SIZE \<le> length b2"
    "c_string b2 = Some (packet_string (z @ [newline]))" "those (take (len + 1) b2) = Some (z @ [newline])"
    "is_command (z @ [newline])" "length (z @ [newline]) < BUFFER_SIZE"
proof -
  define b2 where "b2 = b1[len + 1 := Some nul]"
  have "b2 = map Some (z @ [newline]) @ Some nul # drop (len + 2) b1"
    using assms(1,4,5) by (simp add: b2_def upd_conv_take_nth_drop)
  then have "c_string b2 = Some (packet_string (z @ [newline]))" by (simp only: c_string_packet)
  moreover have "take (len + 1) b2 = map Some (z @ [newline])" using assms(1) by (simp add: b2_def)
  then have "those (take (len + 1) b2) = Some (z @ [newline])" by (simp only: those_map_Some)
  moreover have "buf_store (len + 1) nul b1 = Some b2" using assms(4,5) by (simp add: buf_store_def b2_def)
  moreover have "BUFFER_SIZE \<le> length b2" using assms(5) by (simp add: b2_def)
  ultimately show ?thesis using that assms(2-4) by (auto simp: is_command_def)
qed

section \<open>The process as a system of client threads\<close>

text \<open>What a client has been sent according to the records of the system.\<close>

definition replies_to :: "('s, 'f) server_system \<Rightarrow> nat \<Rightarrow> char list" where
  "replies_to S t = concat (map r_text (filter (\<lambda>r. r_thread r = t) (replies S)))"

text \<open>
  A thread of the process and of the system: the system has it as a client from the allocation of its
  buffer to its end, and it owes a reply exactly when it is about to send the log back.
\<close>

definition thread_matches ::
  "'f \<Rightarrow> ('s, 'f) server_system \<Rightarrow> nat \<Rightarrow> (thread_args \<times> client_point \<times> ('s \<times> 'f) thread_state) option \<Rightarrow> bool"
where
  "thread_matches fresh S t w \<longleftrightarrow> (case w of
     None \<Rightarrow> clients S t = None \<and> owes S t = None \<and> replies_to S t = []
   | Some (args, pt, c) \<Rightarrow> place_ok pt \<and> sent c = replies_to S t \<and>
       (case pt of
          Starting input \<Rightarrow> clients S t = None \<and> owes S t = None \<and> \<not> log_locked c \<and> snd (log_file c) = fresh
        | Receiving input buffer len \<Rightarrow> owes S t = None \<and> (\<exists>c0. clients S t = Some c0 \<and> view S c0 = view S c)
        | Replying input buffer \<Rightarrow> owes S t \<noteq> None \<and> (\<exists>c0. clients S t = Some c0 \<and> view S c0 = view S c)
        | Ended \<Rightarrow> clients S t = None \<and> owes S t = None))"

definition matches :: "'f \<Rightarrow> ('s, 'f) server_process \<Rightarrow> ('s, 'f) server_system \<Rightarrow> bool" where
  "matches fresh P S \<longleftrightarrow> shared S = log_now P \<and> (\<forall>t. thread_matches fresh S t (workers P t))"

lemma see_log_view: "see_log (shared S) c = view S c"
  by (simp add: see_log_def view_def)

lemma view_view [simp]: "view T (view S c) = view T c"
  by (simp add: view_def)

lemma view_put: "view (put_client t c' S) c' = c'"
  by (simp add: view_def put_client_def)

lemma reply_of_thread [simp]: "r_thread (reply_of position t n complete S c c') = t"
  by (simp add: reply_of_def)

text \<open>Another thread is not touched.\<close>

definition same_thread :: "nat \<Rightarrow> ('s, 'f) server_system \<Rightarrow> ('s, 'f) server_system \<Rightarrow> bool" where
  "same_thread u S T \<longleftrightarrow> clients T u = clients S u \<and> owes T u = owes S u \<and> replies_to T u = replies_to S u"

lemma same_thread_matches:
  assumes "same_thread u S T" and "thread_matches fresh S u w"
  shows "thread_matches fresh T u w"
proof -
  have eq: "(view T c0 = view T c) = (view S c0 = view S c)" for c0 c by (metis view_view)
  show ?thesis
  proof (cases w)
    case (Some x)
    then obtain args pt c where "w = Some (args, pt, c)" by (cases x) auto
    then show ?thesis using assms eq by (cases pt) (simp_all add: same_thread_def thread_matches_def)
  qed (use assms in \<open>simp add: same_thread_def thread_matches_def\<close>)
qed

lemma replies_to_more [simp]:
  "replies_to (S\<lparr>clients := x\<rparr>) t = replies_to S t" "replies_to (S\<lparr>owes := y\<rparr>) t = replies_to S t"
  "replies_to (S\<lparr>shared := sh\<rparr>) t = replies_to S t" "replies_to (S\<lparr>history := h\<rparr>) t = replies_to S t" "replies_to (put_client u c S) t = replies_to S t"
  "replies_to (S\<lparr>replies := rs @ [r]\<rparr>) t = replies_to (S\<lparr>replies := rs\<rparr>) t @ (if r_thread r = t then r_text r else [])"
  "replies_to (S\<lparr>replies := replies S\<rparr>) t = replies_to S t"
  by (simp_all add: replies_to_def put_client_def)

section \<open>One piece of a client thread\<close>

context shared_log
begin

abbreviation threads_step :: "('s, 'f) server_system \<Rightarrow> ('s, 'f) server_system \<Rightarrow> bool" where
  "threads_step \<equiv> (server_step ops fresh position)\<^sup>=\<^sup>="

text \<open>What it means that a piece of the thread \<open>t\<close> is a step of the system.\<close>

definition piece_matches ::
  "('s, 'f) server_system \<Rightarrow> nat \<Rightarrow> thread_args \<Rightarrow> client_point \<Rightarrow> ('s \<times> 'f) thread_state \<Rightarrow> bool" where
  "piece_matches S t args pt' c' \<longleftrightarrow> (\<exists>T. threads_step S T \<and> shared T = fst (log_file c')
     \<and> thread_matches fresh T t (Some (args, pt', c')) \<and> (\<forall>u. u \<noteq> t \<longrightarrow> same_thread u S T))"

lemma piece_matchesI:
  assumes "threads_step S T" and "shared T = fst (log_file c')"
    and "thread_matches fresh T t (Some (args, pt', c'))" and "\<And>u. u \<noteq> t \<Longrightarrow> same_thread u S T"
  shows "piece_matches S t args pt' c'"
  using assms by (auto simp: piece_matches_def)

lemma piece_start:
  assumes m: "thread_matches fresh S t (Some (args, Starting input, c))"
    and run: "client_resume ops env args (Starting input) (view S c) = Some (pt', c')"
  shows "piece_matches S t args pt' c'"
proof (cases "malloc_grants env")
  case False
  then have "pt' = Ended" "c' = close_both args (view S c)" using run by simp_all
  then show ?thesis using m
    by (auto simp: piece_matches_def thread_matches_def close_both_def same_thread_def intro!: exI [of _ S])
next
  case True
  then have pt': "pt' = Receiving input (replicate BUFFER_SIZE None) 0" and c': "c' = (view S c)\<lparr>blocks := blocks c + 1\<rparr>"
    using run by (auto simp: view_def)
  let ?T = "S\<lparr>clients := (clients S)(t \<mapsto> c')\<rparr>"
  have "server_step ops fresh position S ?T"
    by (rule connect) (use m c' in \<open>auto simp: thread_matches_def view_def\<close>)
  then show ?thesis using m pt' c'
    by (auto simp: piece_matches_def thread_matches_def same_thread_def buffer_ok_Nil view_def intro!: exI [of _ ?T])
qed

lemma piece_end:
  assumes m: "thread_matches fresh S t (Some (args, Receiving input buffer len, c))"
    and c': "sent c' = sent c" "fst (log_file c') = shared S"
  shows "piece_matches S t args Ended c'"
proof -
  let ?T = "S\<lparr>clients := (clients S)(t := None)\<rparr>"
  obtain c0 where "clients S t = Some c0" "owes S t = None" using m by (auto simp: thread_matches_def)
  then have "server_step ops fresh position S ?T" by (rule disconnect)
  then show ?thesis using m c'
    by (auto simp: piece_matches_def thread_matches_def same_thread_def intro!: exI [of _ ?T])
qed

lemma piece_reply:
  assumes m: "thread_matches fresh S t (Some (args, Replying input buffer, c))"
    and run: "client_resume ops env args (Replying input buffer) (view S c) = Some (pt', c')"
  shows "piece_matches S t args pt' c'"
proof -
  have sb: "send_back ops (client_plan env) (view S c) = Some c'" and pt': "pt' = Receiving input buffer 0"
    using run by (auto simp: bind_eq_Some_conv)
  obtain c0 n where c0: "clients S t = Some c0" "view S c0 = view S c" "owes S t = Some n"
    using m by (auto simp: thread_matches_def)
  let ?r = "reply_of position t n (productive (client_plan env)) S c0 c'"
  let ?T = "(put_client t c' S)\<lparr>owes := (owes S)(t := None), replies := replies S @ [?r]\<rparr>"
  have "server_step ops fresh position S ?T"
    by (rule reply [OF c0(1,3), of _ "client_plan env"]) (use sb c0(2) in simp_all)
  moreover have "sent c' = sent c @ r_text ?r"
  proof -
    have "sent c0 = sent c" using arg_cong [OF c0(2), of sent] by simp
    moreover obtain bs where "sent c' = sent c @ bs" using frame_send_back [OF sb] by (auto simp: frame_def)
    ultimately show ?thesis by (simp add: reply_of_def)
  qed
  moreover have "thread_matches fresh ?T t (Some (args, pt', c'))"
    using m pt' calculation(2) view_put [of t c' S] unfolding thread_matches_def
    by (simp add: buffer_ok_Nil put_client_def view_def)
  ultimately show ?thesis
    by (intro piece_matchesI [of S ?T]) (auto simp: same_thread_def put_client_def)
qed

lemma first_section:
  assumes inv: "inv S" and c: "clients S t = Some c" "owes S t = None"
    and x: "is_command x" "length x < BUFFER_SIZE"
    and b: "c_string b2 = Some (packet_string x)" "those (take len b2) = Some x"
    and run: "take_packet ops b2 len (view S c) = Some c'"
  shows "\<exists>T. server_step ops fresh position S T \<and> shared T = fst (log_file c') \<and> sent c' = sent c
    \<and> owes T t \<noteq> None \<and> (\<exists>c1. clients T t = Some c1 \<and> view T c1 = view T c')
    \<and> replies_to T t = replies_to S t \<and> (\<forall>u. u \<noteq> t \<longrightarrow> same_thread u S T)"
proof -
  have ok: "thread_ok rep (shared S) (held (history S)) c" using inv c by (simp add: server_inv_def)
  note v = thread_view [OF ok]
  consider (stored) "is_text x" | (seek) args where "\<not> is_text x" "sscanf_seekto (packet_string x) = Some args"
    | (none) "\<not> is_text x" "sscanf_seekto (packet_string x) = None" by fastforce
  then show ?thesis
  proof cases
    case stored
    then have st: "store_packet ops x (view S c) = Some c'"
      using run b by (simp add: take_packet_def is_text_def)
    have "sent c' = sent c" using store_packet_ok [OF v(2,1) x(1)] st x(2) limit_ok by auto
    then show ?thesis
      by - (intro exI conjI, rule store [OF c x stored st], auto simp: put_client_def same_thread_def)
  next
    case (seek args)
    then have sk: "seek_log ops args (view S c) = Some c'"
      using run b by (simp add: take_packet_def is_text_def)
    have "sent c' = sent c" using seek_log_ok [OF v(2,1), of args] sk by auto
    then show ?thesis
      by - (intro exI conjI, rule server_step.seek [OF c x(1) seek sk], auto simp: put_client_def same_thread_def)
  next
    case none
    then have "c' = view S c" using run b by (simp add: take_packet_def is_text_def)
    with c(1) show ?thesis
      by - (intro exI conjI, rule no_seek [OF c x(1) none], auto simp: same_thread_def)
  qed
qed

lemma piece_receive:
  assumes inv: "inv S" and m: "thread_matches fresh S t (Some (args, Receiving input buffer len, c))"
    and run: "client_resume ops env args (Receiving input buffer len) (view S c) = Some (pt', c')"
  shows "piece_matches S t args pt' c'"
proof (cases input)
  case Nil
  then have "pt' = Ended" "sent c' = sent c" "fst (log_file c') = shared S"
    using run by (auto simp: close_both_def free_buffer_def split: if_splits)
  then show ?thesis using piece_end [OF m] by simp
next
  case (Cons ch rest)
  show ?thesis
  proof (cases "len \<ge> length buffer \<and> \<not> realloc_grants env (length buffer * 2)")
    case True
    then have "pt' = Ended" "sent c' = sent c" "fst (log_file c') = shared S"
      using run Cons by (auto simp: close_both_def free_buffer_def)
    then show ?thesis using piece_end [OF m] by simp
  next
    case room: False
    have buf: "buffer_ok buffer len" and lines: "lines_ok len (ch # rest)"
      using m Cons by (auto simp: thread_matches_def split: if_splits)
    obtain b1 z where b1: "buf_store len ch (if len \<ge> length buffer
        then buffer @ replicate (length buffer) None else buffer) = Some b1"
      "take (len + 1) b1 = map Some (z @ [ch])" "length z = len" "newline \<notin> set z" "BUFFER_SIZE \<le> length b1"
      using receive_byte [OF buf] by blast
    show ?thesis
    proof (cases "ch = newline")
      case False
      then have "pt' = Receiving rest b1 (len + 1)" "c' = view S c"
        using run room b1(1) Cons by (auto simp: Let_def)
      moreover have "buffer_ok b1 (len + 1)" "lines_ok (len + 1) rest"
        using b1 False lines by (auto simp: buffer_ok_def intro!: exI [of _ "z @ [ch]"])
      ultimately show ?thesis using m
        by (intro piece_matchesI [of S S]) (simp_all add: thread_matches_def same_thread_def)
    next
      case True
      have short: "len + 1 < BUFFER_SIZE" "lines_ok 0 rest" using lines True by simp_all
      obtain b2 where b2: "buf_store (len + 1) nul b1 = Some b2" "BUFFER_SIZE \<le> length b2"
        "c_string b2 = Some (packet_string (z @ [newline]))" "those (take (len + 1) b2) = Some (z @ [newline])"
        "is_command (z @ [newline])" "length (z @ [newline]) < BUFFER_SIZE"
        by (rule complete_packet [OF b1(2) [unfolded True] b1(3,4) short(1) b1(5)])
      obtain c0 where c0: "clients S t = Some c0" "view S c0 = view S c" "owes S t = None"
        using m by (auto simp: thread_matches_def)
      have pt': "pt' = Replying rest b2" and tp: "take_packet ops b2 (len + 1) (view S c0) = Some c'"
        using run room b1(1) b2(1) Cons True c0(2) by (auto simp: Let_def bind_eq_Some_conv)
      have "sent c0 = sent c" using arg_cong [OF c0(2), of sent] by simp
      with first_section [OF inv c0(1,3) b2(5,6,3,4) tp] m show ?thesis
        unfolding piece_matches_def pt' by (auto simp: thread_matches_def short b2(2))
    qed
  qed
qed

lemma piece_any:
  assumes "inv S" and "thread_matches fresh S t (Some (args, pt, c))"
    and "client_resume ops env args pt (view S c) = Some (pt', c')"
  shows "piece_matches S t args pt' c'"
proof (cases pt)
  case (Starting input)
  show ?thesis using assms(2,3) unfolding Starting by (rule piece_start)
next
  case (Receiving input buffer len)
  show ?thesis using assms unfolding Receiving by (rule piece_receive)
next
  case (Replying input buffer)
  show ?thesis using assms(2,3) unfolding Replying by (rule piece_reply)
next
  case Ended
  then show ?thesis using assms(3) by simp
qed

section \<open>Every step of the process\<close>

lemma process_step_matches:
  assumes inv: "inv S" and m: "matches fresh P S" and step: "process_step ops fresh env cenv P Q"
    and fresh_thread: "\<And>n rounds. main_at P = Accepting n rounds \<Longrightarrow> workers P n = None"
    and lines: "\<And>t. lines_ok 0 (client_input (cenv t))"
  shows "\<exists>T. threads_step S T \<and> matches fresh Q T"
  using step
proof (cases rule: process_step_cases)
  case (run_accept n rounds rest args p)
  have th: "thread_matches fresh S u (workers P u)" for u using m by (simp add: matches_def)
  have "thread_matches fresh S n None" using th [of n] fresh_thread [OF run_accept(2)] by simp
  then have "thread_matches fresh S n (Some (args, Starting (client_input (cenv n)), new_thread (log_now P, fresh)))"
    using lines [of n] by (simp add: thread_matches_def)
  then have "matches fresh Q S" using m th by (simp add: matches_def run_accept(1))
  then show ?thesis by auto
next
  case (run_leave n rounds rest p)
  then show ?thesis using m by (auto simp: matches_def intro!: exI [of _ S])
next
  case (run_join args c)
  then show ?thesis using m by (auto simp: matches_def intro!: exI [of _ S])
next
  case run_exit
  then show ?thesis using m by (auto simp: matches_def intro!: exI [of _ S])
next
  case (run_client t args pt c pt' c')
  have th: "thread_matches fresh S u (workers P u)" for u using m by (simp add: matches_def)
  have "client_resume ops (cenv t) args pt (view S c) = Some (pt', c')"
    using run_client(3) m by (simp add: matches_def flip: see_log_view)
  from piece_any [OF inv _ this] th [of t] run_client(2)
  obtain T where T: "threads_step S T" "shared T = fst (log_file c')"
    "thread_matches fresh T t (Some (args, pt', c'))" "\<And>u. u \<noteq> t \<Longrightarrow> same_thread u S T"
    unfolding piece_matches_def by metis
  have "matches fresh Q T" unfolding matches_def run_client(1)
    using T(2,3) same_thread_matches [OF T(4) th] by simp
  with T(1) show ?thesis by blast
qed

end

end
