(* ===== verification/ProcessEnd.thy ===== *)
theory ProcessEnd
  imports ServerProcess
begin

text \<open>
  How the server process ends: the main thread and the queue agree about the threads, the books of the
  process are right in every reachable state, no run goes on for ever, and a run can only stop when the
  process has exited or waits for a client that keeps its connection open and sends nothing more.
\<close>

section \<open>The threads and the queue\<close>

text \<open>One turn of the main loop.\<close>

lemma accept_turn_started:
  assumes "accept_turn env n rounds p = Some (Inr (rest, args, p'))" and "0 \<le> log_ans (env n)"
  shows "started p' = started p @ [args]" "queue p' = queue p @ [args]" "joined p' = joined p"
    "items p' = items p + 1" "socket_fd p' = socket_fd p"
    "open_fds p' = file_fd args # client_fd args # open_fds p" "0 \<le> client_fd args" "0 \<le> file_fd args"
    "length rest < length rounds"
proof -
  obtain p1 where w: "waitForConnection rounds p = Some (client_fd args, rest, p1)" "client_fd args \<noteq> - 1"
    and p': "p' = enqueue args (new_item (file_fd args) p1)" "file_fd args = log_ans (env n)"
    using assms by (auto simp: accept_turn_def Let_def bind_eq_Some_conv split: if_splits)
  show "length rest < length rounds" using waitForConnection_shorter [OF w] .
  show "started p' = started p @ [args]" "queue p' = queue p @ [args]" "joined p' = joined p"
    "items p' = items p + 1" "socket_fd p' = socket_fd p"
    "open_fds p' = file_fd args # client_fd args # open_fds p" "0 \<le> client_fd args" "0 \<le> file_fd args"
    using waitForConnection_accounts [OF w(1)] w(2) assms(2) p'
    by (auto simp: enqueue_def new_item_def open_fd_def Let_def)
qed

lemma accept_turn_signals:
  assumes "accept_turn env n rounds p = Some (Inr (rest, args, p'))"
    and "handles_signals p" "hosts_known rounds" "signalled rounds \<or> caught_exit_signal p"
  shows "handles_signals p' \<and> hosts_known rest \<and> (signalled rest \<or> caught_exit_signal p')"
proof -
  obtain p1 where w: "waitForConnection rounds p = Some (client_fd args, rest, p1)" "client_fd args \<noteq> - 1"
    and p': "p' = enqueue args (new_item (file_fd args) p1)"
    using assms(1) by (auto simp: accept_turn_def Let_def bind_eq_Some_conv split: if_splits)
  show ?thesis using waitForConnection_returns [OF assms(2-4)] w p' by (auto simp: handles_signals_def)
qed

lemma accept_turn_left:
  assumes "accept_turn env n rounds p = Some (Inl (rest, p'))"
  shows "started p' = started p" "queue p' = queue p" "joined p' = joined p" "socket_fd p' = socket_fd p"
    "0 \<le> log_ans (env n) \<Longrightarrow> \<exists>k lost. (k, size lost) \<in> {(0, 0), (0, 1), (1, 2)}
       \<and> (item_ok (env n) \<and> create_ok (env n) \<longrightarrow> k = 0 \<and> lost = {#})
       \<and> items p' = items p + k \<and> mset (open_fds p') = mset (open_fds p) + lost"
proof -
  consider (stop) "p' = p" | (none) p1 where "waitForConnection rounds p = Some (- 1, rest, p1)" "p' = p1"
    | (no_item) fd p1 where "waitForConnection rounds p = Some (fd, rest, p1)" "fd \<noteq> - 1" "\<not> item_ok (env n)" "p' = p1"
    | (no_thread) fd p1 where "waitForConnection rounds p = Some (fd, rest, p1)" "fd \<noteq> - 1" "\<not> create_ok (env n)"
      "p' = new_item (log_ans (env n)) p1"
    using assms by (auto simp: accept_turn_def Let_def bind_eq_Some_conv split: if_splits)
  then have "started p' = started p \<and> queue p' = queue p \<and> joined p' = joined p \<and> socket_fd p' = socket_fd p
      \<and> (0 \<le> log_ans (env n) \<longrightarrow> (\<exists>k lost. (k, size lost) \<in> {(0, 0), (0, 1), (1, 2)}
       \<and> (item_ok (env n) \<and> create_ok (env n) \<longrightarrow> k = 0 \<and> lost = {#})
       \<and> items p' = items p + k \<and> mset (open_fds p') = mset (open_fds p) + lost))"
  proof cases
    case stop
    then show ?thesis by (auto intro!: exI [of _ "0 :: nat"] exI [of _ "{#} :: int multiset"])
  next
    case none
    from waitForConnection_accounts [OF none(1)] none(2) show ?thesis
      by (auto intro!: exI [of _ "0 :: nat"] exI [of _ "{#} :: int multiset"])
  next
    case (no_item fd p1)
    from waitForConnection_accounts [OF no_item(1)] no_item(2-) show ?thesis
      by (auto intro!: exI [of _ "0 :: nat"] exI [of _ "{#fd#}"])
  next
    case (no_thread fd p1)
    from waitForConnection_accounts [OF no_thread(1)] no_thread(2-) show ?thesis
      by (auto simp: new_item_def open_fd_def Let_def intro!: exI [of _ "1 :: nat"] exI [of _ "{#fd, log_ans (env n)#}"])
  qed
  then show "started p' = started p" "queue p' = queue p" "joined p' = joined p" "socket_fd p' = socket_fd p"
    "0 \<le> log_ans (env n) \<Longrightarrow> \<exists>k lost. (k, size lost) \<in> {(0, 0), (0, 1), (1, 2)}
       \<and> (item_ok (env n) \<and> create_ok (env n) \<longrightarrow> k = 0 \<and> lost = {#})
       \<and> items p' = items p + k \<and> mset (open_fds p') = mset (open_fds p) + lost" by simp_all
qed

lemma accept_turn_returns:
  assumes "handles_signals p" "hosts_known rounds" "signalled rounds \<or> caught_exit_signal p"
  shows "accept_turn env n rounds p \<noteq> None"
  using waitForConnection_returns [OF assms] by (auto simp: accept_turn_def Let_def)

text \<open>
  The queue has the threads that have been started and not yet been joined; a joined thread has ended;
  while the main thread accepts, a signal has been caught or is still to come.
\<close>

definition main_ok :: "main_point \<Rightarrow> proc \<Rightarrow> bool" where
  "main_ok m p \<longleftrightarrow> (case m of
     Accepting n rounds \<Rightarrow> n = length (started p) \<and> handles_signals p \<and> hosts_known rounds
       \<and> (signalled rounds \<or> caught_exit_signal p)
   | Joining \<Rightarrow> True
   | Exited c \<Rightarrow> c = EXIT_SUCCESS \<and> queue p = [])"

definition worker_known :: "proc \<Rightarrow> nat \<Rightarrow> (thread_args \<times> client_point \<times> 'c) option \<Rightarrow> bool" where
  "worker_known p t w \<longleftrightarrow> (case w of
     None \<Rightarrow> length (started p) \<le> t
   | Some (args, pt, c) \<Rightarrow> t < length (started p) \<and> args = started p ! t \<and> (t < length (joined p) \<longrightarrow> pt = Ended))"

lemma worker_known_simps [simp]:
  "worker_known p t None \<longleftrightarrow> length (started p) \<le> t"
  "worker_known p t (Some (args, pt, c)) \<longleftrightarrow>
     t < length (started p) \<and> args = started p ! t \<and> (t < length (joined p) \<longrightarrow> pt = Ended)"
  by (simp_all add: worker_known_def)

lemma worker_known_cong:
  "started p' = started p \<Longrightarrow> joined p' = joined p \<Longrightarrow> worker_known p' t w = worker_known p t w"
  by (cases w) auto

lemma worker_known_append:
  assumes "started p' = started p @ [args]" "joined p' = joined p" "worker_known p t w" "t \<noteq> length (started p)"
  shows "worker_known p' t w"
  using assms by (cases w) (auto simp: nth_append)

definition threads_known :: "('s, 'f) server_process \<Rightarrow> bool" where
  "threads_known P \<longleftrightarrow> started (process_of P) = joined (process_of P) @ queue (process_of P)
     \<and> (\<forall>t. worker_known (process_of P) t (workers P t))
     \<and> main_ok (main_at P) (process_of P)"

lemma close_thread_simps [simp]:
  "started (close_thread t p) = started p" "joined (close_thread t p) = joined p"
  "queue (close_thread t p) = queue p" "items (close_thread t p) = items p"
  "socket_fd (close_thread t p) = socket_fd p" "handlers (close_thread t p) = handlers p"
  "caught_exit_signal (close_thread t p) = caught_exit_signal p"
  by (simp_all add: close_thread_def close_fd_def)

lemma main_ok_close_thread [simp]: "main_ok m (close_thread t p) = main_ok m p"
  by (simp add: main_ok_def handles_signals_def split: main_point.split)

lemma process_start_known:
  assumes "process_start rep held fresh position d env rounds P" and "signalled rounds" "hosts_known rounds"
  shows "threads_known P" "queue (process_of P) = []" "items (process_of P) = 0"
    "open_fds (process_of P) = [socket_fd (process_of P)]" "socket_fd (process_of P) \<noteq> - 1"
proof -
  have "set_up True env d initial_proc = (Inr (), process_of P)" using assms(1) by (simp add: process_start_def)
  then have "process_of P = initial_proc\<lparr>handlers := [SIGTERM, SIGINT], socket_fd := socket_ans (bind_answers env),
      open_fds := [socket_ans (bind_answers env)], daemonized := d\<rparr>" "socket_ans (bind_answers env) \<noteq> - 1"
    by (auto simp: set_up_def registerSignalHandler_def bindPortToSocket_def Daemonize_def initial_proc_def
        open_fd_def close_fd_def Let_def split: if_splits)
  then show "threads_known P" "queue (process_of P) = []" "items (process_of P) = 0"
    "open_fds (process_of P) = [socket_fd (process_of P)]" "socket_fd (process_of P) \<noteq> - 1"
    using assms by (simp_all add: process_start_def threads_known_def main_ok_def initial_proc_def handles_signals_def)
qed

lemma threads_known_step:
  assumes known: "threads_known P" and step: "process_step ops fresh env cenv P Q"
    and logs: "\<And>i. 0 \<le> log_ans (turns env i)"
  shows "threads_known Q"
  using step
proof (cases rule: process_step_cases)
  case (run_accept n rounds rest args p)
  note a = accept_turn_started [OF run_accept(3) logs]
  have m: "main_ok (Accepting n rounds) (process_of P)" using known run_accept(2) by (simp add: threads_known_def)
  then have "main_ok (Accepting (Suc n) rest) p"
    using accept_turn_signals [OF run_accept(3)] a(1) by (simp add: main_ok_def)
  moreover have "n = length (started (process_of P))" using m by (simp add: main_ok_def)
  moreover have "length (joined (process_of P)) \<le> length (started (process_of P))"
    using known by (simp add: threads_known_def)
  moreover have "worker_known p u (workers P u)" if "u \<noteq> length (started (process_of P))" for u
  proof -
    have "worker_known (process_of P) u (workers P u)" using known by (simp add: threads_known_def)
    then show ?thesis using that by (rule worker_known_append [OF a(1,3)])
  qed
  ultimately show ?thesis using known a by (simp add: threads_known_def run_accept(1))
next
  case (run_leave n rounds rest p)
  note a = accept_turn_left [OF run_leave(3)]
  have "started (leave_loop p) = started (process_of P)" "joined (leave_loop p) = joined (process_of P)"
    "queue (leave_loop p) = queue (process_of P)" using a by (simp_all add: leave_loop_def syslog_def)
  then show ?thesis using known by (simp add: threads_known_def run_leave(1) main_ok_def
      worker_known_cong [of "leave_loop p" "process_of P"])
next
  case (run_join args c)
  have "worker_known (join_first (process_of P)) t w"
    if "worker_known (process_of P) t w" "t = length (joined (process_of P)) \<Longrightarrow> w = Some (args, Ended, c)" for t w
    using that by (cases w) (auto simp: join_first_def less_Suc_eq)
  moreover have "started (join_first (process_of P)) = joined (join_first (process_of P)) @ queue (join_first (process_of P))"
    using known run_join(3) by (simp add: threads_known_def join_first_def)
  ultimately show ?thesis using known run_join(2,4)
    by (simp add: threads_known_def run_join(1) main_ok_def)
next
  case run_exit
  have "started (close_server p) = started p" "joined (close_server p) = joined p" "queue (close_server p) = queue p"
    for p by (simp_all add: close_server_def close_fd_def)
  then show ?thesis using known run_exit(3) by (simp add: threads_known_def run_exit(1) main_ok_def
      worker_known_cong [of "close_server (process_of P)" "process_of P"])
next
  case (run_client t args pt c pt' c')
  have "pt \<noteq> Ended" using run_client(3) by auto
  moreover have "worker_known (process_of P) t (workers P t)" using known by (simp add: threads_known_def)
  ultimately have "worker_known (process_of P) t (Some (args, pt', c'))" using run_client(2) by auto
  then show ?thesis using known by (simp add: threads_known_def run_client(1)
      worker_known_cong [of "close_thread a (process_of P)" "process_of P" for a])
qed

section \<open>The books of the process\<close>

text \<open>
  Queue items are in step with the queue; a thread that has not ended has its two descriptors, and one
  block while it has its buffer; one that has ended has closed its descriptors, once each.
\<close>

definition live_fds :: "(thread_args \<times> client_point \<times> 'c) option \<Rightarrow> int multiset" where
  "live_fds w = (case w of None \<Rightarrow> {#}
     | Some (args, pt, c) \<Rightarrow> if pt = Ended then {#} else {#client_fd args, file_fd args#})"

fun buffers_of :: "client_point \<Rightarrow> nat" where
  "buffers_of (Receiving input buffer len) = 1"
| "buffers_of (Replying input buffer) = 1"
| "buffers_of pt = 0"

definition thread_books :: "(thread_args \<times> client_point \<times> 'd thread_state) option \<Rightarrow> bool" where
  "thread_books w \<longleftrightarrow> (case w of None \<Rightarrow> True
     | Some (args, pt, c) \<Rightarrow> blocks c = buffers_of pt
         \<and> closed c = (if pt = Ended then [client_fd args, file_fd args] else []))"

definition books_with :: "('s, 'f) server_process \<Rightarrow> nat \<Rightarrow> int multiset \<Rightarrow> bool" where
  "books_with P k lost \<longleftrightarrow> items (process_of P) = length (queue (process_of P)) + k
     \<and> (\<forall>t. thread_books (workers P t))
     \<and> mset (open_fds (process_of P)) = (case main_at P of Exited c \<Rightarrow> {#} | _ \<Rightarrow> {#socket_fd (process_of P)#})
         + (\<Sum>t < length (started (process_of P)). live_fds (workers P t)) + lost"

text \<open>
  A connection for which no queue item or no thread could be had ends the main loop, and what had been
  taken for it is lost: its descriptor; or the item, its descriptor and that of the log.
\<close>

definition lost_ok :: "main_env \<Rightarrow> main_point \<Rightarrow> nat \<Rightarrow> int multiset \<Rightarrow> bool" where
  "lost_ok env m k lost \<longleftrightarrow> (k, size lost) \<in> {(0, 0), (0, 1), (1, 2)}
     \<and> ((\<exists>n rounds. m = Accepting n rounds) \<or> (\<forall>i. item_ok (turns env i) \<and> create_ok (turns env i))
        \<longrightarrow> k = 0 \<and> lost = {#})"

definition books :: "main_env \<Rightarrow> ('s, 'f) server_process \<Rightarrow> bool" where
  "books env P \<longleftrightarrow> (\<exists>k lost. lost_ok env (main_at P) k lost \<and> books_with P k lost)"

lemma thread_books_see [simp]:
  "thread_books (Some (args, pt, see_log sh c)) = thread_books (Some (args, pt, c))"
  by (simp add: thread_books_def see_log_def)

lemma frame_take_packet: "take_packet ops b l s = Some t \<Longrightarrow> frame s t"
  by (auto simp: take_packet_def bind_eq_Some_conv frame_seek_log frame_store_packet
      split: if_splits option.splits)

lemma piece_books:
  assumes run: "client_resume ops env args pt c = Some (pt', c')" and old: "thread_books (Some (args, pt, c))"
  shows "thread_books (Some (args, pt', c'))"
proof (cases "(ops, env, args, pt, c)" rule: client_resume.cases)
  case (4 ops0 env0 args0 input buffer s)
  then show ?thesis using run old
    by (auto simp: thread_books_def bind_eq_Some_conv frame_def dest!: frame_send_back)
next
  case (3 ops0 env0 args0 ch input buffer len s)
  show ?thesis using 3 run old
    by (auto simp: thread_books_def close_both_def free_buffer_def Let_def bind_eq_Some_conv frame_def
        split: if_splits dest!: frame_take_packet)
qed (use run old in \<open>auto simp: thread_books_def close_both_def free_buffer_def split: if_splits\<close>)

lemma sum_update:
  fixes f :: "nat \<Rightarrow> int multiset"
  assumes "t < n"
  shows "(\<Sum>u < n. (f(t := y)) u) + f t = (\<Sum>u < n. f u) + y"
proof -
  have "(\<Sum>u < n. f u) = f t + (\<Sum>u \<in> {..<n} - {t}. f u)" for f :: "nat \<Rightarrow> int multiset"
    using assms by (simp add: sum.remove)
  from this [of f] this [of "f(t := y)"] show ?thesis by (simp add: add.commute add.left_commute)
qed

lemma close_thread_fds:
  assumes "mset (open_fds p) = M + {#client_fd t, file_fd t#}"
  shows "mset (open_fds (close_thread t p)) = M"
  using assms by (simp add: close_thread_def close_fd_def)

lemma books_client:
  assumes books: "books_with P k lost" and known: "threads_known P"
    and run_client: "Q = P\<lparr>log_now := fst (log_file c'), workers := (workers P)(t \<mapsto> (args, pt', c')),
      process_of := (if pt' = Ended then close_thread args (process_of P) else process_of P)\<rparr>"
    "workers P t = Some (args, pt, c)"
    "client_resume ops (cenv t) args pt (see_log (log_now P) c) = Some (pt', c')"
    and last: "\<And>t args c pt. main_at P = Exited EXIT_SUCCESS \<Longrightarrow> workers P t = Some (args, pt, c) \<Longrightarrow> pt = Ended"
  shows "books_with Q k lost"
proof -
  have pt: "pt \<noteq> Ended" using run_client(3) by auto
  have t: "t < length (started (process_of P))"
    using known run_client(2) unfolding threads_known_def by (metis worker_known_simps(2))
  have "thread_books (Some (args, pt, see_log (log_now P) c))"
    using books run_client(2) by (simp add: books_with_def) (metis)
  note new = piece_books [OF run_client(3) this]
  define f where "f = (\<lambda>u. live_fds (workers P u))"
  let ?n = "length (started (process_of P))"
  define W where "W = (workers P)(t \<mapsto> (args, pt', c'))"
  have W: "(f(t := live_fds (Some (args, pt', c')))) u = live_fds (W u)" for u
    by (simp add: f_def W_def)
  have tb: "thread_books (W u)" for u using books new by (simp add: books_with_def W_def)
  have ft: "f t = {#client_fd args, file_fd args#}" using run_client(2) pt by (simp add: f_def live_fds_def)
  have main: "main_at P \<noteq> Exited e" for e
    using known last [OF _ run_client(2)] pt by (auto simp: threads_known_def main_ok_def)
  then have fds: "mset (open_fds (process_of P)) = {#socket_fd (process_of P)#} + (\<Sum>u < ?n. f u) + lost"
    using books by (simp add: books_with_def f_def split: main_point.splits)
  note sum = sum_update [OF t, of f "live_fds (Some (args, pt', c'))", unfolded ft]
  have "mset (open_fds (if pt' = Ended then close_thread args (process_of P) else process_of P))
      = {#socket_fd (process_of P)#} + (\<Sum>u < ?n. (f(t := live_fds (Some (args, pt', c')))) u) + lost"
  proof (cases "pt' = Ended")
    case True
    then have "(\<Sum>u < ?n. f u) = (\<Sum>u < ?n. (f(t := live_fds (Some (args, pt', c')))) u) + {#client_fd args, file_fd args#}"
      using sum by (simp add: live_fds_def)
    then show ?thesis using True fds by (simp add: close_thread_fds)
  next
    case False
    then show ?thesis using sum fds by (simp add: live_fds_def)
  qed
  then have "mset (open_fds (if pt' = Ended then close_thread args (process_of P) else process_of P))
      = {#socket_fd (process_of P)#} + (\<Sum>u < ?n. live_fds (W u)) + lost"
    by (simp only: W)
  moreover have "main_at P = Joining \<or> (\<exists>n rounds. main_at P = Accepting n rounds)"
    using main by (cases "main_at P") auto
  ultimately show ?thesis using books tb unfolding run_client(1) books_with_def
    by (auto simp flip: W_def)
qed


lemma books_step:
  assumes books: "books env P" and known: "threads_known P" and step: "process_step ops fresh env cenv P Q"
    and logs: "\<And>i. 0 \<le> log_ans (turns env i)"
    and last: "\<And>t args c pt. main_at P = Exited EXIT_SUCCESS \<Longrightarrow> workers P t = Some (args, pt, c) \<Longrightarrow> pt = Ended"
  shows "books env Q"
proof -
  obtain k lost where b: "lost_ok env (main_at P) k lost" "books_with P k lost"
    using books by (auto simp: books_def)
  from step show ?thesis
  proof (cases rule: process_step_cases)
    case (run_accept n rounds rest args p)
    note a = accept_turn_started [OF run_accept(3) logs]
    have n: "n = length (started (process_of P))" using known run_accept(2) by (simp add: threads_known_def main_ok_def)
    have new: "live_fds (Some (args, Starting (client_input (cenv n)), new_thread (log_now P, fresh)))
        = {#client_fd args, file_fd args#}" by (simp add: live_fds_def)
    have old: "(\<Sum>t < n. live_fds (if t = n then x else workers P t)) = (\<Sum>t < n. live_fds (workers P t))" for x
      by (rule sum.cong) auto
    have "k = 0" "lost = {#}" using b(1) run_accept(2) by (simp_all add: lost_ok_def)
    then have "books_with Q 0 {#}" using b(2) a run_accept(2) unfolding run_accept(1) books_with_def
      by (auto simp: n [symmetric] new old thread_books_def)
    then show ?thesis by (auto simp: books_def lost_ok_def run_accept(1))
  next
    case (run_leave n rounds rest p)
    note a = accept_turn_left [OF run_leave(3)]
    obtain k1 lost1 where l: "(k1, size lost1) \<in> {(0, 0), (0, 1), (1, 2)}"
      "item_ok (turns env n) \<and> create_ok (turns env n) \<longrightarrow> k1 = 0 \<and> lost1 = {#}"
      "items p = items (process_of P) + k1" "mset (open_fds p) = mset (open_fds (process_of P)) + lost1"
      using a(5) [OF logs] by blast
    have "k = 0" "lost = {#}" using b(1) run_leave(2) by (simp_all add: lost_ok_def)
    then have "books_with Q k1 lost1" using b(2) a(1-4) l(3,4) run_leave(2) unfolding run_leave(1) books_with_def
      by (simp add: leave_loop_def syslog_def)
    moreover have "lost_ok env (main_at Q) k1 lost1" using l(1,2) by (auto simp: lost_ok_def run_leave(1))
    ultimately show ?thesis by (auto simp: books_def)
  next
    case (run_join args c)
    then have "books_with Q k lost" using b(2) unfolding run_join(1) books_with_def
      by (cases "queue (process_of P)") (simp_all add: join_first_def)
    then show ?thesis using b(1) by (auto simp: books_def run_join(1))
  next
    case run_exit
    then have "books_with Q k lost" using b(2) unfolding run_exit(1) books_with_def
      by (simp add: close_server_def close_fd_def)
    then show ?thesis using b(1) run_exit(2) by (auto simp: books_def lost_ok_def run_exit(1))
  next
    case (run_client t args pt c pt' c')
    have "books_with Q k lost"
      by (rule books_client [where cenv = cenv, OF b(2) known run_client]) (rule last)
    moreover have "main_at Q = main_at P" by (simp add: run_client(1))
    ultimately show ?thesis using b(1) unfolding books_def by auto
  qed
qed

section \<open>Every run ends\<close>

text \<open>
  The main thread goes down by the phase it is in and then by the rounds to come or the threads to
  join; a client thread by the pieces it has left.
\<close>

definition main_rank :: "('s, 'f) server_process \<Rightarrow> nat \<times> nat" where
  "main_rank P = (case main_at P of
     Accepting n rounds \<Rightarrow> (2, length rounds) | Joining \<Rightarrow> (1, length (queue (process_of P))) | Exited c \<Rightarrow> (0, 0))"

definition pieces_of :: "(thread_args \<times> client_point \<times> 'c) option \<Rightarrow> nat" where
  "pieces_of w = (case w of None \<Rightarrow> 0 | Some (args, pt, c) \<Rightarrow> pieces_left pt)"

definition client_rank :: "('s, 'f) server_process \<Rightarrow> nat" where
  "client_rank P = (\<Sum>t < length (started (process_of P)). pieces_of (workers P t))"

definition process_order :: "(('s, 'f) server_process \<times> ('s, 'f) server_process) set" where
  "process_order = inv_image ((less_than <*lex*> less_than) <*lex*> less_than) (\<lambda>P. (main_rank P, client_rank P))"

lemma wf_process_order: "wf process_order"
  by (simp add: process_order_def wf_inv_image wf_lex_prod)

lemma process_step_decreases:
  assumes known: "threads_known P" and step: "process_step ops fresh env cenv P Q"
    and logs: "\<And>i. 0 \<le> log_ans (turns env i)"
  shows "(Q, P) \<in> process_order"
  using step
proof (cases rule: process_step_cases)
  case (run_accept n rounds rest args p)
  then show ?thesis using accept_turn_started(9) [OF run_accept(3) logs]
    by (simp add: process_order_def main_rank_def)
next
  case (run_client t args pt c pt' c')
  have t: "t < length (started (process_of P))"
    using known run_client(2) unfolding threads_known_def by (metis worker_known_simps(2))
  have rank: "client_rank Q = (\<Sum>u < length (started (process_of P)). pieces_of (workers Q u))"
    by (simp add: client_rank_def run_client(1))
  have "client_rank Q < client_rank P" unfolding rank client_rank_def [of P]
  proof (rule sum_strict_mono_ex1)
    show "\<forall>u \<in> {..<length (started (process_of P))}. pieces_of (workers Q u) \<le> pieces_of (workers P u)"
      using pieces_decrease [OF run_client(3)] run_client(2)
      by (simp add: run_client(1) pieces_of_def)
    show "\<exists>u \<in> {..<length (started (process_of P))}. pieces_of (workers Q u) < pieces_of (workers P u)"
      using pieces_decrease [OF run_client(3)] run_client(2) t
      by (intro bexI [of _ t]) (simp_all add: run_client(1) pieces_of_def)
  qed simp
  moreover have "main_rank Q = main_rank P" by (simp add: main_rank_def run_client(1) split: main_point.split)
  ultimately show ?thesis by (simp add: process_order_def)
qed (simp_all add: process_order_def main_rank_def join_first_def)

text \<open>A thread ends because its client hangs up, or because memory runs out.\<close>

definition can_end :: "client_env \<Rightarrow> bool" where
  "can_end env \<longleftrightarrow> client_hangs_up env \<or> \<not> malloc_grants env \<or> (\<exists>n. \<not> realloc_grants env n)"

lemma resume_can_end: "client_resume ops env args pt s = Some (Ended, s') \<Longrightarrow> can_end env"
  by (cases "(ops, env, args, pt, s)" rule: client_resume.cases)
     (auto simp: can_end_def Let_def bind_eq_Some_conv split: if_splits)

lemma ended_can_end:
  assumes "reachable start (process_step ops fresh env cenv) P" and "\<And>P. start P \<Longrightarrow> workers P = (\<lambda>t. None)"
    and "workers P t = Some (args, Ended, c)"
  shows "can_end (cenv t)"
  using assms(1,3)
proof (induction arbitrary: t args c rule: reachable.induct)
  case (reach_start P)
  then show ?case using assms(2) by simp
next
  case (reach_step P Q)
  from reach_step(2) show ?case
  proof (cases rule: process_step_cases)
    case (run_client t' args' pt c0 pt' c')
    then show ?thesis using reach_step.IH reach_step.prems resume_can_end [of ops "cenv t'"] by (auto split: if_splits)
  qed (use reach_step.IH reach_step.prems in \<open>auto split: if_splits\<close>)
qed

text \<open>The main thread is about to join a thread that waits for its client.\<close>

definition joins_idle :: "(nat \<Rightarrow> client_env) \<Rightarrow> ('s, 'f) server_process \<Rightarrow> bool" where
  "joins_idle cenv P \<longleftrightarrow> main_at P = Joining \<and> queue (process_of P) \<noteq> []
     \<and> (\<exists>args pt c. workers P (length (joined (process_of P))) = Some (args, pt, c)
          \<and> waits_for_client (cenv (length (joined (process_of P)))) pt)"

context shared_log
begin

lemma piece_returns:
  assumes inv: "inv S" and m: "thread_matches fresh S t (Some (args, pt, c))"
    and plan: "productive (client_plan env)" and pt: "pt \<noteq> Ended" "\<not> waits_for_client env pt"
  shows "client_resume ops env args pt (view S c) \<noteq> None"
proof (cases pt)
  case (Receiving input buffer len)
  obtain c0 where c0: "clients S t = Some c0" "view S c0 = view S c"
    using m Receiving by (auto simp: thread_matches_def)
  have "thread_ok rep (shared S) (held (history S)) c0" using inv c0(1) by (simp add: server_inv_def)
  note v = thread_view [OF this]
  show ?thesis
  proof (cases input)
    case (Cons ch rest)
    have buf: "buffer_ok buffer len" and lines: "lines_ok len (ch # rest)"
      using m Receiving Cons by (auto simp: thread_matches_def split: if_splits)
    obtain b1 z where b1: "buf_store len ch (if len \<ge> length buffer
        then buffer @ replicate (length buffer) None else buffer) = Some b1"
      "take (len + 1) b1 = map Some (z @ [ch])" "length z = len" "newline \<notin> set z" "BUFFER_SIZE \<le> length b1"
      using receive_byte [OF buf] by blast
    show ?thesis
    proof (cases "ch = newline")
      case False
      then show ?thesis using b1(1) Receiving Cons by (simp add: Let_def)
    next
      case True
      have short: "len + 1 < BUFFER_SIZE" using lines True by simp
      obtain b2 where b2: "buf_store (len + 1) nul b1 = Some b2"
        "c_string b2 = Some (packet_string (z @ [newline]))" "those (take (len + 1) b2) = Some (z @ [newline])"
        "is_command (z @ [newline])" "length (z @ [newline]) < BUFFER_SIZE"
        by (rule complete_packet [OF b1(2) [unfolded True] b1(3,4) short b1(5)])
      have "length (z @ [newline]) \<le> limit" using b2(5) limit_ok by simp
      then have "take_packet ops b2 (len + 1) (view S c) \<noteq> None"
        using store_packet_ok [OF v(2,1) b2(4)] seek_log_ok [OF v(2,1)] b2(2,3) unfolding c0(2)
        by (auto simp: take_packet_def split: option.split)
      then show ?thesis using b1(1) b2(1) True Receiving Cons by (auto simp: Let_def)
    qed
  qed (use pt(2) in \<open>simp add: Receiving\<close>)
next
  case (Replying input buffer)
  obtain c0 where c0: "clients S t = Some c0" "view S c0 = view S c"
    using m Replying by (auto simp: thread_matches_def)
  have "thread_ok rep (shared S) (held (history S)) c0" using inv c0(1) by (simp add: server_inv_def)
  note v = thread_view [OF this]
  show ?thesis using send_back_all [OF plan v(2,1)] Replying unfolding c0(2) by auto
qed (use pt in simp_all)

text \<open>
  As long as the process has not exited, one of its threads can go on, unless the main thread waits for a
  thread whose client keeps the connection open and sends nothing more.
\<close>

lemma process_can_go_on:
  assumes inv: "inv S" and m: "matches fresh P S" and known: "threads_known P"
    and plans: "\<And>t. productive (client_plan (cenv t))" and more: "\<And>e. main_at P \<noteq> Exited e" "\<not> joins_idle cenv P"
  shows "\<exists>Q. process_step ops fresh env cenv P Q"
proof (cases "main_at P")
  case (Accepting n rounds)
  then have "accept_turn (turns env) n rounds (process_of P) \<noteq> None"
    using known by (intro accept_turn_returns) (simp_all add: threads_known_def main_ok_def)
  then obtain r where r: "accept_turn (turns env) n rounds (process_of P) = Some r" by blast
  show ?thesis
  proof (cases r)
    case (Inl x)
    then show ?thesis using run_main [OF run_leave, OF Accepting, of env] r by (cases x) blast
  next
    case (Inr x)
    then show ?thesis using run_main [OF run_accept, OF Accepting, of env] r by (cases x) blast
  qed
next
  case Joining
  show ?thesis
  proof (cases "queue (process_of P) = []")
    case True
    from run_main [OF run_exit, OF Joining this] show ?thesis by blast
  next
    case False
    let ?t = "length (joined (process_of P))"
    have "?t < length (started (process_of P))" "worker_known (process_of P) ?t (workers P ?t)"
      using known False by (auto simp: threads_known_def)
    then obtain args pt c where w: "workers P ?t = Some (args, pt, c)" by (cases "workers P ?t") auto
    show ?thesis
    proof (cases "pt = Ended")
      case True
      with w run_main [OF run_join, OF Joining False] show ?thesis by blast
    next
      case go: False
      have th: "thread_matches fresh S ?t (Some (args, pt, c))" using m w unfolding matches_def by metis
      have "\<not> waits_for_client (cenv ?t) pt" using more(2) Joining False w by (auto simp: joins_idle_def)
      with piece_returns [OF inv th plans [of ?t] go] m
      have "client_resume ops (cenv ?t) args pt (see_log (log_now P) c) \<noteq> None"
        by (simp add: matches_def flip: see_log_view)
      then obtain pt' c' where "client_resume ops (cenv ?t) args pt (see_log (log_now P) c) = Some (pt', c')"
        by fastforce
      from run_client [where cenv = cenv, OF w this] show ?thesis by blast
    qed
  qed
qed (use more(1) in simp)

section \<open>Reachable processes\<close>

text \<open>What holds of every state of a process: a system of threads that it matches, and its own books.\<close>

definition process_inv ::
  "main_env \<Rightarrow> ('s, 'f) server_process \<Rightarrow> bool"
where
  "process_inv env P \<longleftrightarrow>
     (\<exists>S. reachable (server_start rep held fresh position) (server_step ops fresh position) S \<and> matches fresh P S)
     \<and> threads_known P \<and> (\<forall>i. 0 \<le> log_ans (turns env i))
     \<and> books env P"

lemma process_inv_start:
  assumes st: "process_start rep held fresh position d env rounds P" and r: "signalled rounds" "hosts_known rounds"
  shows "process_inv env P"
proof -
  let ?S = "\<lparr>shared = log_now P, clients = (\<lambda>t. None), history = [], owes = (\<lambda>t. None), replies = []\<rparr>"
  have S: "server_start rep held fresh position ?S" "matches fresh P ?S"
    using st by (auto simp: process_start_def server_start_def matches_def thread_matches_def replies_to_def)
  note k = process_start_known [OF st r]
  have "started (process_of P) = joined (process_of P)" using k(1,2) by (simp add: threads_known_def)
  moreover have "started (process_of P) = []"
    using k(1) st by (auto simp: threads_known_def process_start_def main_ok_def)
  ultimately have "books_with P 0 {#}" "lost_ok env (main_at P) 0 {#}"
    using k st by (simp_all add: books_with_def lost_ok_def process_start_def thread_books_def)
  then have "books env P" unfolding books_def by blast
  moreover have "\<forall>i. 0 \<le> log_ans (turns env i)" using st by (simp add: process_start_def)
  moreover have "reachable (server_start rep held fresh position) (server_step ops fresh position) ?S"
    using S(1) by (rule reach_start)
  ultimately show ?thesis unfolding process_inv_def using k(1) S(2) by auto
qed

lemma process_inv_step:
  assumes inv: "process_inv env P" and step: "process_step ops fresh env cenv P Q"
    and lines: "\<And>t. lines_ok 0 (client_input (cenv t))"
  shows "process_inv env Q"
proof -
  obtain S where S: "reachable (server_start rep held fresh position) (server_step ops fresh position) S"
    "matches fresh P S" using inv by (auto simp: process_inv_def)
  have known: "threads_known P" and logs: "\<And>i. 0 \<le> log_ans (turns env i)" using inv by (auto simp: process_inv_def)
  have free: "workers P n = None" if "main_at P = Accepting n rounds" for n rounds
  proof -
    have "worker_known (process_of P) n (workers P n)" "n = length (started (process_of P))"
      using known that by (simp_all add: threads_known_def main_ok_def)
    then show ?thesis by (cases "workers P n") auto
  qed
  obtain T where T: "threads_step S T" "matches fresh Q T"
    using process_step_matches [OF system.reachable_inv [OF S(1)] S(2) step _ lines] free by blast
  have "reachable (server_start rep held fresh position) (server_step ops fresh position) T"
    using T(1) S(1) reach_step [OF S(1)] by auto
  with T(2) have "\<exists>S. reachable (server_start rep held fresh position) (server_step ops fresh position) S \<and> matches fresh Q S"
    by (intro exI conjI)
  moreover have "books env Q"
  proof (rule books_step [OF _ known step])
    show "books env P" using inv by (simp add: process_inv_def)
    show "pt = Ended" if "main_at P = Exited EXIT_SUCCESS" "workers P t = Some (args, pt, c)" for t args c pt
    proof -
      have "worker_known (process_of P) t (Some (args, pt, c))" using known that(2) unfolding threads_known_def by metis
      then show ?thesis using known that(1) by (auto simp: threads_known_def main_ok_def)
    qed
  qed (rule logs)
  ultimately show ?thesis using threads_known_step [OF known step logs] logs by (simp add: process_inv_def)
qed

end

text \<open>The states of a process whose clients send lines that fit, and that is told to end some time.\<close>

definition clients_ok :: "(nat \<Rightarrow> client_env) \<Rightarrow> bool" where
  "clients_ok cenv \<longleftrightarrow> (\<forall>t. lines_ok 0 (client_input (cenv t)))"

sublocale shared_log < process: invariant_of
  "\<lambda>P. \<exists>d. process_start rep held fresh position d env rounds P \<and> signalled rounds \<and> hosts_known rounds \<and> clients_ok cenv"
  "process_step ops fresh env cenv" "\<lambda>P. process_inv env P \<and> clients_ok cenv"
  for env rounds cenv
proof (unfold_locales, goal_cases)
  case (1 P)
  then show ?case using process_inv_start by blast
next
  case (2 P Q)
  then show ?case using process_inv_step by (auto simp: clients_ok_def)
qed

context shared_log
begin

abbreviation process_reachable ::
  "main_env \<Rightarrow> round list \<Rightarrow> (nat \<Rightarrow> client_env) \<Rightarrow> ('s, 'f) server_process \<Rightarrow> bool" where
  "process_reachable env rounds cenv \<equiv> reachable
     (\<lambda>P. \<exists>d. process_start rep held fresh position d env rounds P \<and> signalled rounds \<and> hosts_known rounds \<and> clients_ok cenv)
     (process_step ops fresh env cenv)"

lemma process_runs_end:
  "wf {(Q, P). process_reachable env rounds cenv P \<and> process_step ops fresh env cenv P Q}"
proof (rule wf_subset [OF wf_process_order], clarify)
  fix P Q
  assume P: "process_reachable env rounds cenv P" and step: "process_step ops fresh env cenv P Q"
  have "process_inv env P" using process.reachable_inv [OF P] by simp
  then show "(Q, P) \<in> process_order"
    using process_step_decreases [OF _ step] by (simp add: process_inv_def)
qed

lemma process_stuck_exited:
  assumes P: "process_reachable env rounds cenv P" and stuck: "\<And>Q. \<not> process_step ops fresh env cenv P Q"
    and plans: "\<And>t. productive (client_plan (cenv t))"
  shows "main_at P = Exited EXIT_SUCCESS \<or> joins_idle cenv P"
proof -
  have inv: "process_inv env P" using process.reachable_inv [OF P] by simp
  then obtain S where S: "reachable (server_start rep held fresh position) (server_step ops fresh position) S"
    "matches fresh P S" by (auto simp: process_inv_def)
  have known: "threads_known P" using inv by (simp add: process_inv_def)
  then have "(\<exists>e. main_at P = Exited e) \<or> joins_idle cenv P"
    using process_can_go_on [where env = env and cenv = cenv, OF system.reachable_inv [OF S(1)] S(2) known plans] stuck by blast
  then show ?thesis using known by (auto simp: threads_known_def main_ok_def)
qed

lemma joins_idle_client: "joins_idle cenv P \<Longrightarrow> \<exists>t. \<not> client_hangs_up (cenv t)"
  by (auto simp: joins_idle_def elim!: waits_for_client.elims)

lemma process_exits:
  assumes "process_reachable env rounds cenv P" and "\<And>t. productive (client_plan (cenv t))"
    and "\<And>t. client_hangs_up (cenv t)"
  shows "\<exists>Q. (process_step ops fresh env cenv)\<^sup>*\<^sup>* P Q \<and> process_reachable env rounds cenv Q \<and> main_at Q = Exited EXIT_SUCCESS"
  using run_to_end [OF process_runs_end assms(1)] process_stuck_exited joins_idle_client assms(2,3) by metis

text \<open>What is left when the process has exited.\<close>

lemma process_exit_books:
  assumes P: "process_reachable env rounds cenv P" and e: "main_at P = Exited e"
  shows "e = EXIT_SUCCESS" "queue (process_of P) = []" "joined (process_of P) = started (process_of P)"
    "(items (process_of P), length (open_fds (process_of P))) \<in> {(0, 0), (0, 1), (1, 2)}"
    "\<forall>i. item_ok (turns env i) \<and> create_ok (turns env i) \<Longrightarrow>
       items (process_of P) = 0 \<and> open_fds (process_of P) = []"
    "t < length (started (process_of P)) \<Longrightarrow> \<exists>c. workers P t = Some (started (process_of P) ! t, Ended, c)
       \<and> blocks c = 0 \<and> closed c = [client_fd (started (process_of P) ! t), file_fd (started (process_of P) ! t)]"
proof -
  have inv: "process_inv env P" using process.reachable_inv [OF P] by simp
  then have known: "threads_known P" and "books env P" by (auto simp: process_inv_def)
  then obtain k lost where books: "lost_ok env (main_at P) k lost" "books_with P k lost" by (auto simp: books_def)
  have q: "e = EXIT_SUCCESS" "queue (process_of P) = []" "joined (process_of P) = started (process_of P)"
    using known e by (auto simp: threads_known_def main_ok_def)
  have w: "\<exists>c. workers P t = Some (started (process_of P) ! t, Ended, c)"
    if "t < length (started (process_of P))" for t
  proof -
    have "worker_known (process_of P) t (workers P t)" using known by (simp add: threads_known_def)
    then show ?thesis using that q(3) by (cases "workers P t") auto
  qed
  show "e = EXIT_SUCCESS" "queue (process_of P) = []" "joined (process_of P) = started (process_of P)" using q .
  have "(\<Sum>t < length (started (process_of P)). live_fds (workers P t)) = {#}"
    using w by (intro sum.neutral) (fastforce simp: live_fds_def)
  then have left: "items (process_of P) = k" "mset (open_fds (process_of P)) = lost"
    using books(2) e q(2) by (simp_all add: books_with_def)
  have "length (open_fds (process_of P)) = size lost" by (metis left(2) size_mset)
  then show "(items (process_of P), length (open_fds (process_of P))) \<in> {(0, 0), (0, 1), (1, 2)}"
    using books(1) left(1) unfolding lost_ok_def by auto
  show "items (process_of P) = 0 \<and> open_fds (process_of P) = []"
    if "\<forall>i. item_ok (turns env i) \<and> create_ok (turns env i)"
    using books(1) left that unfolding lost_ok_def by auto
  show "\<exists>c. workers P t = Some (started (process_of P) ! t, Ended, c)
       \<and> blocks c = 0 \<and> closed c = [client_fd (started (process_of P) ! t), file_fd (started (process_of P) ! t)]"
    if t: "t < length (started (process_of P))"
  proof -
    obtain c where c: "workers P t = Some (started (process_of P) ! t, Ended, c)" using w [OF t] by blast
    moreover have "thread_books (workers P t)" using books(2) by (simp add: books_with_def)
    ultimately show ?thesis by (simp add: thread_books_def)
  qed
qed

end

end
