(* ===== verification/ProcessProperties.thy ===== *)
theory ProcessProperties
  imports ServerProperties ProcessEnd
begin

text \<open>
  The whole server process on the driver, with an instance: two clients that
  each send a packet, and a termination signal after them.
\<close>

abbreviation dev_process_start ::
  "llseek_fn \<Rightarrow> write_env \<Rightarrow> main_env \<Rightarrow> round list \<Rightarrow> (nat \<Rightarrow> client_env) \<Rightarrow> (kstate, file) server_process \<Rightarrow> bool"
where
  "dev_process_start fsl wenv env rounds cenv P \<equiv>
     \<exists>d. process_start (dev_rep fsl wenv) (lastn AESDCHAR_MAX_WRITE_OPERATIONS_SUPPORTED) fresh_file
         (\<lambda>f. unat (f_pos f)) d env rounds P
       \<and> signalled rounds \<and> hosts_known rounds \<and> clients_ok cenv"

abbreviation dev_process_step ::
  "llseek_fn \<Rightarrow> write_env \<Rightarrow> main_env \<Rightarrow> (nat \<Rightarrow> client_env)
   \<Rightarrow> (kstate, file) server_process \<Rightarrow> (kstate, file) server_process \<Rightarrow> bool"
where
  "dev_process_step fsl wenv env cenv \<equiv> process_step (dev_ops fsl wenv) fresh_file env cenv"

abbreviation dev_process_reachable ::
  "llseek_fn \<Rightarrow> write_env \<Rightarrow> main_env \<Rightarrow> round list \<Rightarrow> (nat \<Rightarrow> client_env) \<Rightarrow> (kstate, file) server_process \<Rightarrow> bool"
where
  "dev_process_reachable fsl wenv env rounds cenv \<equiv>
     reachable (dev_process_start fsl wenv env rounds cenv) (dev_process_step fsl wenv env cenv)"

section \<open>An instance\<close>

definition sample_clients :: "nat \<Rightarrow> client_env" where
  "sample_clients t = \<lparr>client_input = ''hi'' @ [newline], client_hangs_up = True, client_plan = slow_socket, malloc_grants = True,
     realloc_grants = (\<lambda>n. True)\<rparr>"

definition sample_process :: "(kstate, file) server_process" where
  "sample_process = \<lparr>main_at = Accepting 0 sample_rounds, process_of = snd (set_up True sample_main False initial_proc),
     log_now = loaded_state, workers = (\<lambda>t. None)\<rparr>"

lemma sample_process_start:
  "dev_process_start doc_fsl good_env sample_main sample_rounds sample_clients sample_process"
  using sample_inst
  by (auto simp: process_start_def sample_process_def sample_rounds_ok clients_ok_def sample_clients_def
      BUFFER_SIZE_def fresh_file_def lastn_def sample_main_def set_up_def registerSignalHandler_def
      bindPortToSocket_def Daemonize_def initial_proc_def open_fd_def Let_def intro!: exI [of _ False])

lemma sample_process_exits:
  "\<exists>P. dev_process_reachable doc_fsl good_env sample_main sample_rounds sample_clients P
     \<and> main_at P = Exited EXIT_SUCCESS"
proof -
  have "productive (client_plan (sample_clients t))" for t
    by (simp add: sample_clients_def slow_socket_productive)
  moreover have "dev_process_reachable doc_fsl good_env sample_main sample_rounds sample_clients sample_process"
    using sample_process_start by (rule reach_start)
  moreover have "client_hangs_up (sample_clients t)" for t by (simp add: sample_clients_def)
  ultimately show ?thesis using dev_shared.process_exits by blast
qed

section \<open>The process as a whole\<close>

text \<open>
  The process, with its main thread accepting and joining and its client threads running side by side in
  any order, is a system of client threads on the device: the device holds the last ten packets stored,
  and what each client has been sent is the concatenation of the replies that the system records for it.
\<close>

lemma process_refines_threads:
  assumes "dev_process_reachable fsl wenv env rounds cenv P"
  shows "\<exists>S. dev_reachable fsl wenv S
    \<and> (\<exists>L. driver_rel 1 (log_now P) (lastn AESDCHAR_MAX_WRITE_OPERATIONS_SUPPORTED (history S)) [] L)
    \<and> (\<forall>t args pt c. workers P t = Some (args, pt, c) \<longrightarrow>
         sent c = concat (map r_text (filter (\<lambda>r. r_thread r = t) (replies S))))"
proof -
  obtain S where S: "dev_reachable fsl wenv S" "matches fresh_file P S"
    using dev_shared.process.reachable_inv [OF assms] unfolding dev_shared.process_inv_def by blast
  have "sent c = replies_to S t" if "workers P t = Some (args, pt, c)" for t args pt c
  proof -
    have "thread_matches fresh_file S t (Some (args, pt, c))" using S(2) that unfolding matches_def by metis
    then show ?thesis by (simp add: thread_matches_def)
  qed
  moreover have "\<exists>L. driver_rel 1 (shared S) (lastn MAXW (history S)) [] L"
    using dev_system_inv [OF S(1)] by (simp add: server_inv_def dev_rep_def)
  ultimately show ?thesis using S by (intro exI [of _ S]) (simp add: matches_def replies_to_def)
qed

text \<open>
  No run of the process goes on for ever, and it can only stop by exiting or by joining a thread whose
  client is idle; what is left then. The same
  with the log lock in the open is in \<open>LockingProperties\<close>.
\<close>

lemma server_process_ends:
  assumes "\<forall>t. productive (client_plan (cenv t))"
  shows "wf {(Q, P). dev_process_reachable fsl wenv env rounds cenv P \<and> dev_process_step fsl wenv env cenv P Q}
    \<and> (\<forall>P. dev_process_reachable fsl wenv env rounds cenv P \<longrightarrow>
         (\<exists>Q. dev_process_step fsl wenv env cenv P Q) \<or> main_at P = Exited EXIT_SUCCESS \<or> joins_idle cenv P)"
proof (intro conjI allI impI)
  show "wf {(Q, P). dev_process_reachable fsl wenv env rounds cenv P \<and> dev_process_step fsl wenv env cenv P Q}"
    by (rule dev_shared.process_runs_end)
  show "(\<exists>Q. dev_process_step fsl wenv env cenv P Q) \<or> main_at P = Exited EXIT_SUCCESS \<or> joins_idle cenv P"
    if "dev_process_reachable fsl wenv env rounds cenv P" for P
    using dev_shared.process_stuck_exited [OF that] assms by blast
qed

lemma server_exit_clean:
  assumes "dev_process_reachable fsl wenv env rounds cenv P" and "main_at P = Exited e"
  shows "e = EXIT_SUCCESS \<and> joined (process_of P) = started (process_of P) \<and> queue (process_of P) = []
    \<and> (items (process_of P), length (open_fds (process_of P))) \<in> {(0, 0), (0, 1), (1, 2)}
    \<and> ((\<forall>i. item_ok (turns env i) \<and> create_ok (turns env i)) \<longrightarrow>
         items (process_of P) = 0 \<and> open_fds (process_of P) = [])
    \<and> (\<forall>t < length (started (process_of P)). \<exists>c. workers P t = Some (started (process_of P) ! t, Ended, c)
         \<and> blocks c = 0 \<and> closed c = [client_fd (started (process_of P) ! t), file_fd (started (process_of P) ! t)])"
  using dev_shared.process_exit_books [OF assms] by simp

end
