(* ===== verification/ServerLocking.thy ===== *)
theory ServerLocking
  imports ProcessEnd ServerSections
begin

text \<open>
  The server process with the log lock in the open. A thread takes the lock and keeps it for the whole of
  a section, while the others go on with whatever needs no lock; each system call of the section is a step
  of its own. Such a process does what \<open>ServerProcess\<close> says, where a section is one step, and it ends.
\<close>

section \<open>Taking the lock\<close>

text \<open>
  What a thread is about to do under the lock, and where it will stand afterwards: it has received the
  last byte of a text packet or of a seek command, or it sends the log back.
\<close>

fun takes_lock :: "client_env \<Rightarrow> client_point \<Rightarrow> (section_point \<times> client_point) option" where
  "takes_lock env (Receiving (ch # input) buffer len) =
     (let grows = (len \<ge> length buffer)
      in if grows \<and> \<not> realloc_grants env (length buffer * 2) then None
         else do {
           let b0 = (if grows then buffer @ replicate (length buffer) None else buffer);
           b1 \<leftarrow> buf_store len ch b0;
           if ch = newline then do {
             b2 \<leftarrow> buf_store (len + 1) nul b1;
             str \<leftarrow> c_string b2;
             packet \<leftarrow> those (take (len + 1) b2);
             (if take 19 str = seek_prefix
              then map_option (\<lambda>args. (Seeking args, Replying input b2)) (sscanf_seekto str)
              else Some (Storing packet 0, Replying input b2))
           }
           else None
         })"
| "takes_lock env (Replying input buffer) = Some (Telling, Receiving input buffer 0)"
| "takes_lock env pt = None"

lemma takes_lock_resume:
  assumes "takes_lock env pt = Some (q, nxt)"
  shows "client_resume ops env args pt s = map_option (\<lambda>s1. (nxt, s1))
    (Option.bind (pthread_mutex_lock s) (section_rest ops (client_plan env) q))"
  using assms
proof (cases "(env, pt)" rule: takes_lock.cases)
  case (1 env ch input buffer len)
  show ?thesis using assms 1
    by (auto simp: Let_def take_packet_def bind_eq_Some_conv section_start(1,2) [of ops _ s "client_plan env"] map_conv_bind_option comp_def
        simp del: section_rest.simps split: if_splits)
next
  case (2 env input buffer)
  then show ?thesis using assms
    by (simp add: section_start(3) map_conv_bind_option comp_def del: section_rest.simps)
qed simp_all

lemma takes_lock_goes: "takes_lock env pt = Some q \<Longrightarrow> pt \<noteq> Ended \<and> \<not> waits_for_client env pt"
  by (cases "(env, pt)" rule: takes_lock.cases) auto

text \<open>The other pieces do not touch the log.\<close>

lemma see_log_simps [simp]:
  "log_file (see_log sh c) = (sh, snd (log_file c))" "blocks (see_log sh c) = blocks c"
  "closed (see_log sh c) = closed c" "sent (see_log sh c) = sent c"
  "log_locked (see_log sh c) = log_locked c" "see_log sh (see_log sh' c) = see_log sh c"
  "see_log sh (c\<lparr>blocks := n\<rparr>) = (see_log sh c)\<lparr>blocks := n\<rparr>"
  "see_log sh (c\<lparr>closed := x\<rparr>) = (see_log sh c)\<lparr>closed := x\<rparr>"
  by (simp_all add: see_log_def)

lemma see_log_self: "fst (log_file c) = sh \<Longrightarrow> see_log sh c = c"
  by (cases c) (auto simp: see_log_def)

lemma free_resume:
  assumes "takes_lock env pt = None"
  shows "client_resume ops env args pt (see_log sh c) =
      map_option (\<lambda>(pt', d). (pt', see_log sh d)) (client_resume ops env args pt c)"
    and "client_resume ops env args pt c = Some (pt', d) \<Longrightarrow> log_file d = log_file c"
proof -
  show "client_resume ops env args pt (see_log sh c) =
      map_option (\<lambda>(pt', d). (pt', see_log sh d)) (client_resume ops env args pt c)"
    using assms
    by (cases "(env, pt)" rule: takes_lock.cases)
       (auto simp: Let_def take_packet_def close_both_def free_buffer_def
        split: if_splits option.split Option.bind_split)
  show "log_file d = log_file c" if "client_resume ops env args pt c = Some (pt', d)"
    using assms that
    by (cases "(env, pt)" rule: takes_lock.cases)
       (auto simp: Let_def take_packet_def close_both_def free_buffer_def bind_eq_Some_conv
        split: if_splits option.splits Option.bind_splits)
qed

section \<open>The process\<close>

text \<open>\<open>log_lock\<close> says who holds the lock, where in its section it is, and where it will stand after it.\<close>

record ('s, 'f) locked_process =
  inside :: "('s, 'f) server_process"
  log_lock :: "(nat \<times> section_point \<times> client_point) option"

definition put_worker ::
  "nat \<Rightarrow> thread_args \<Rightarrow> client_point \<Rightarrow> ('s \<times> 'f) thread_state \<Rightarrow> ('s, 'f) server_process \<Rightarrow> ('s, 'f) server_process"
where
  "put_worker t args pt c P = P\<lparr>log_now := fst (log_file c), workers := (workers P)(t \<mapsto> (args, pt, c))\<rparr>"

definition holds_lock :: "('s, 'f) locked_process \<Rightarrow> nat \<Rightarrow> bool" where
  "holds_lock L t \<longleftrightarrow> (\<exists>q nxt. log_lock L = Some (t, q, nxt))"

inductive locking_step ::
  "('s \<times> 'f) file_ops \<Rightarrow> 'f \<Rightarrow> main_env \<Rightarrow> (nat \<Rightarrow> client_env)
   \<Rightarrow> ('s, 'f) locked_process \<Rightarrow> ('s, 'f) locked_process \<Rightarrow> bool"
  for ops fresh env cenv where
  go_main: "main_step fresh env cenv (inside L) Q \<Longrightarrow> locking_step ops fresh env cenv L (L\<lparr>inside := Q\<rparr>)"
| go_free: "workers (inside L) t = Some (args, pt, c) \<Longrightarrow> \<not> holds_lock L t \<Longrightarrow> takes_lock (cenv t) pt = None \<Longrightarrow>
    client_resume ops (cenv t) args pt (see_log (log_now (inside L)) c) = Some (pt', c') \<Longrightarrow>
    locking_step ops fresh env cenv L (L\<lparr>inside := client_moved t args pt' c' (inside L)\<rparr>)"
| go_lock: "workers (inside L) t = Some (args, pt, c) \<Longrightarrow> log_lock L = None \<Longrightarrow>
    takes_lock (cenv t) pt = Some (q, nxt) \<Longrightarrow>
    pthread_mutex_lock (see_log (log_now (inside L)) c) = Some c' \<Longrightarrow>
    locking_step ops fresh env cenv L
      (L\<lparr>inside := put_worker t args pt c' (inside L), log_lock := Some (t, q, nxt)\<rparr>)"
| go_section: "log_lock L = Some (t, q, nxt) \<Longrightarrow> workers (inside L) t = Some (args, pt, c) \<Longrightarrow>
    section_step ops (client_plan (cenv t)) q (see_log (log_now (inside L)) c) = Some (q', c') \<Longrightarrow>
    locking_step ops fresh env cenv L
      (L\<lparr>inside := put_worker t args pt c' (inside L), log_lock := Some (t, q', nxt)\<rparr>)"
| go_unlock: "log_lock L = Some (t, Unlocking, nxt) \<Longrightarrow> workers (inside L) t = Some (args, pt, c) \<Longrightarrow>
    locking_step ops fresh env cenv L
      (L\<lparr>inside := client_moved t args nxt (pthread_mutex_unlock (see_log (log_now (inside L)) c)) (inside L),
         log_lock := None\<rparr>)"

section \<open>A section is one step\<close>

text \<open>
  Two processes whose threads differ at most in what they have last seen of the log; while a section is
  going on, its thread stands in the other process where the section has begun, and what is left of the
  section is what that thread is about to do there.
\<close>

definition forget :: "'s \<Rightarrow> (thread_args \<times> client_point \<times> ('s \<times> 'f) thread_state) option
    \<Rightarrow> (thread_args \<times> client_point \<times> ('s \<times> 'f) thread_state) option" where
  "forget sh = map_option (\<lambda>(args, pt, c). (args, pt, see_log sh c))"

definition in_section ::
  "('s \<times> 'f) file_ops \<Rightarrow> client_env \<Rightarrow> nat \<Rightarrow> section_point \<Rightarrow> client_point
   \<Rightarrow> ('s, 'f) server_process \<Rightarrow> ('s, 'f) server_process \<Rightarrow> bool"
where
  "in_section ops env t q nxt P P0 \<longleftrightarrow> (\<exists>args pt c c0.
     workers P t = Some (args, pt, c) \<and> workers P0 t = Some (args, pt, c0) \<and> takes_lock env pt \<noteq> None
     \<and> (\<exists>more. sent c = sent c0 @ more)
     \<and> client_resume ops env args pt (see_log (log_now P0) c0) =
         map_option (\<lambda>s. (nxt, s)) (section_rest ops (client_plan env) q (see_log (log_now P) c)))"

definition atomic_view ::
  "('s \<times> 'f) file_ops \<Rightarrow> (nat \<Rightarrow> client_env) \<Rightarrow> ('s, 'f) locked_process \<Rightarrow> ('s, 'f) server_process \<Rightarrow> bool"
where
  "atomic_view ops cenv L P0 \<longleftrightarrow> main_at P0 = main_at (inside L) \<and> process_of P0 = process_of (inside L)
     \<and> (\<forall>t. holds_lock L t \<or> forget (log_now P0) (workers (inside L) t) = forget (log_now P0) (workers P0 t))
     \<and> (case log_lock L of
          None \<Rightarrow> log_now P0 = log_now (inside L)
        | Some (t, q, nxt) \<Rightarrow> in_section ops (cenv t) t q nxt (inside L) P0)"

lemma forget_simps [simp]:
  "forget sh None = None" "forget sh (Some (args, pt, c)) = Some (args, pt, see_log sh c)"
  "forget sh (forget sh' w) = forget sh w"
  by (cases w; auto simp: forget_def)+

lemma forget_eq: "forget sh w = forget sh w0 \<Longrightarrow> forget sh' w = forget sh' w0"
  by (metis forget_simps(3))

lemma forget_Some:
  assumes "forget sh w = forget sh (Some (args, pt, c))"
  obtains c' where "w = Some (args, pt, c')" "see_log sh c' = see_log sh c"
  using assms by (cases w) auto

text \<open>A thread in the two processes.\<close>

lemma atomic_view_thread:
  assumes "atomic_view ops cenv L P0" and "workers (inside L) t = Some (args, pt, c)"
  shows "\<exists>c0 more. workers P0 t = Some (args, pt, c0) \<and> sent c = sent c0 @ more \<and> (holds_lock L t \<or> more = [])"
proof (cases "holds_lock L t")
  case True
  then show ?thesis using assms by (auto simp: atomic_view_def in_section_def holds_lock_def)
next
  case False
  then have "forget (log_now P0) (workers P0 t) = forget (log_now P0) (Some (args, pt, c))"
    using assms unfolding atomic_view_def by metis
  then obtain c0 where c0: "workers P0 t = Some (args, pt, c0)" "see_log (log_now P0) c0 = see_log (log_now P0) c"
    by (rule forget_Some)
  have "sent c = sent c0" using arg_cong [OF c0(2), of sent] by simp
  then show ?thesis using c0(1) by auto
qed

lemma locking_main:
  assumes view: "atomic_view ops cenv L P0" and step: "main_step fresh env cenv (inside L) Q"
    and new: "\<And>n rounds. main_at P0 = Accepting n rounds \<Longrightarrow> workers P0 n = None"
  shows "\<exists>Q0. main_step fresh env cenv P0 Q0 \<and> atomic_view ops cenv (L\<lparr>inside := Q\<rparr>) Q0"
  using step
proof (cases rule: main_step.cases)
  case (run_accept n rounds rest args p)
  let ?Q0 = "P0\<lparr>main_at := Accepting (Suc n) rest, process_of := p,
      workers := (workers P0)(n \<mapsto> (args, Starting (client_input (cenv n)), new_thread (log_now P0, fresh)))\<rparr>"
  have "workers P0 n = None" using new run_accept(2) view by (simp add: atomic_view_def)
  then have owner: "log_lock L = Some (t, q, nxt) \<Longrightarrow> t \<noteq> n" for t q nxt
    using view by (auto simp: atomic_view_def in_section_def)
  have "main_step fresh env cenv P0 ?Q0"
    using view run_accept(2,3) by (intro main_step.run_accept) (simp_all add: atomic_view_def)
  moreover have "atomic_view ops cenv (L\<lparr>inside := Q\<rparr>) ?Q0"
    using view owner unfolding run_accept(1) atomic_view_def
    by (auto simp: in_section_def holds_lock_def see_log_def new_thread_def split: option.split)
  ultimately show ?thesis by blast
next
  case (run_leave n rounds rest p)
  have "main_step fresh env cenv P0 (P0\<lparr>main_at := Joining, process_of := leave_loop p\<rparr>)"
    using view run_leave(2,3) by (intro main_step.run_leave) (simp_all add: atomic_view_def)
  moreover have "atomic_view ops cenv (L\<lparr>inside := Q\<rparr>) (P0\<lparr>main_at := Joining, process_of := leave_loop p\<rparr>)"
    using view unfolding run_leave(1) atomic_view_def by (auto simp: in_section_def holds_lock_def split: option.split)
  ultimately show ?thesis by blast
next
  case (run_join args c)
  let ?t = "length (joined (process_of (inside L)))"
  have "\<not> holds_lock L ?t" using view run_join(4) by (auto simp: atomic_view_def in_section_def holds_lock_def)
  then have "forget (log_now P0) (workers P0 ?t) = forget (log_now P0) (Some (args, Ended, c))"
    using view run_join(4) by (simp add: atomic_view_def) (metis forget_simps(2))
  then obtain c0 where "workers P0 ?t = Some (args, Ended, c0)" by (rule forget_Some)
  then have "main_step fresh env cenv P0 (P0\<lparr>process_of := join_first (process_of P0)\<rparr>)"
    using view run_join(2,3) by (intro main_step.run_join) (simp_all add: atomic_view_def)
  moreover have "atomic_view ops cenv (L\<lparr>inside := Q\<rparr>) (P0\<lparr>process_of := join_first (process_of P0)\<rparr>)"
    using view unfolding run_join(1) atomic_view_def by (auto simp: in_section_def holds_lock_def split: option.split)
  ultimately show ?thesis by blast
next
  case run_exit
  let ?Q0 = "P0\<lparr>main_at := Exited EXIT_SUCCESS, process_of := close_server (process_of P0)\<rparr>"
  have "main_step fresh env cenv P0 ?Q0"
    using view run_exit(2,3) by (intro main_step.run_exit) (simp_all add: atomic_view_def)
  moreover have "atomic_view ops cenv (L\<lparr>inside := Q\<rparr>) ?Q0"
    using view unfolding run_exit(1) atomic_view_def by (auto simp: in_section_def holds_lock_def split: option.split)
  ultimately show ?thesis by blast
qed

lemma client_moved_simps [simp]:
  "main_at (client_moved t args pt c P) = main_at P"
  "log_now (client_moved t args pt c P) = fst (log_file c)"
  "workers (client_moved t args pt c P) = (workers P)(t \<mapsto> (args, pt, c))"
  "process_of (client_moved t args pt c P) = (if pt = Ended then close_thread args (process_of P) else process_of P)"
  by (simp_all add: client_moved_def)

lemma put_worker_simps [simp]:
  "main_at (put_worker t args pt c P) = main_at P" "process_of (put_worker t args pt c P) = process_of P"
  "log_now (put_worker t args pt c P) = fst (log_file c)"
  "workers (put_worker t args pt c P) = (workers P)(t \<mapsto> (args, pt, c))"
  by (simp_all add: put_worker_def)

lemma in_section_other:
  assumes "in_section ops env t q nxt P P0" and "workers Q t = workers P t" "log_now Q = log_now P"
    "workers Q0 t = workers P0 t" "log_now Q0 = log_now P0"
  shows "in_section ops env t q nxt Q Q0"
  using assms by (simp add: in_section_def)

lemma locking_free:
  assumes view: "atomic_view ops cenv L P0" and w: "workers (inside L) t = Some (args, pt, c)" "\<not> holds_lock L t"
    and free: "takes_lock (cenv t) pt = None"
    and run: "client_resume ops (cenv t) args pt (see_log (log_now (inside L)) c) = Some (pt', c')"
  shows "\<exists>Q0. process_step ops fresh env cenv P0 Q0
    \<and> atomic_view ops cenv (L\<lparr>inside := client_moved t args pt' c' (inside L)\<rparr>) Q0"
proof -
  have "forget (log_now P0) (workers P0 t) = forget (log_now P0) (Some (args, pt, c))"
    using view w by (simp add: atomic_view_def) (metis forget_simps(2))
  then obtain c0 where c0: "workers P0 t = Some (args, pt, c0)" "see_log (log_now P0) c0 = see_log (log_now P0) c"
    by (rule forget_Some)
  have run0: "client_resume ops (cenv t) args pt (see_log (log_now P0) c0) = Some (pt', see_log (log_now P0) c')"
    using free_resume(1) [OF free, of ops args "log_now P0" "see_log (log_now (inside L)) c"] run c0(2) by simp
  have here: "fst (log_file c') = log_now (inside L)" using free_resume(2) [OF free run] by simp
  have "in_section ops (cenv u) u q nxt (client_moved t args pt' c' (inside L))
      (client_moved t args pt' (see_log (log_now P0) c') P0)" if "log_lock L = Some (u, q, nxt)" for u q nxt
  proof -
    have "u \<noteq> t" "in_section ops (cenv u) u q nxt (inside L) P0"
      using that view w(2) by (auto simp: atomic_view_def holds_lock_def)
    then show ?thesis by (elim in_section_other) (simp_all add: here)
  qed
  then have "atomic_view ops cenv (L\<lparr>inside := client_moved t args pt' c' (inside L)\<rparr>)
      (client_moved t args pt' (see_log (log_now P0) c') P0)"
    using view here unfolding atomic_view_def by (auto simp: holds_lock_def split: option.split)
  then show ?thesis using run_client [where cenv = cenv, OF c0(1) run0] by blast
qed

lemma locking_begins:
  assumes view: "atomic_view ops cenv L P0" and w: "workers (inside L) t = Some (args, pt, c)" "log_lock L = None"
    and takes: "takes_lock (cenv t) pt = Some (q, nxt)"
    and lock: "pthread_mutex_lock (see_log (log_now (inside L)) c) = Some c'"
  shows "atomic_view ops cenv (L\<lparr>inside := put_worker t args pt c' (inside L), log_lock := Some (t, q, nxt)\<rparr>) P0"
proof -
  have sh: "log_now P0 = log_now (inside L)" using view w(2) by (simp add: atomic_view_def)
  have "forget (log_now P0) (workers P0 t) = forget (log_now P0) (Some (args, pt, c))"
    using view w by (simp add: atomic_view_def holds_lock_def) (metis forget_simps(2))
  then obtain c0 where c0: "workers P0 t = Some (args, pt, c0)" "see_log (log_now P0) c0 = see_log (log_now P0) c"
    by (rule forget_Some)
  have c': "sent c' = sent c" "see_log (fst (log_file c')) c' = c'"
    using lock by (auto simp: pthread_mutex_lock_def see_log_self split: if_splits)
  have "sent c = sent c0" using arg_cong [OF c0(2), of sent] by simp
  then have "in_section ops (cenv t) t q nxt (put_worker t args pt c' (inside L)) P0"
    using takes_lock_resume [OF takes, of ops args "see_log (log_now P0) c0"] c0 lock sh takes
    by (simp add: in_section_def c')
  then show ?thesis using view w(2) by (auto simp: atomic_view_def holds_lock_def)
qed

lemma file_call_sent: "file_call f s = Some (r, s') \<Longrightarrow> sent s' = sent s"
  by (cases r) (auto simp: file_call_def bind_eq_Some_conv)

lemma sock_write_sent: "\<exists>more. sent (snd (sock_write plan bytes s)) = sent s @ more"
  by (auto simp: sock_write_def Let_def split: write_answer.split)

lemma section_step_sent: "section_step ops plan q s = Some (q', s') \<Longrightarrow> \<exists>more. sent s' = sent s @ more"
proof (induction ops plan q s rule: section_step.induct)
  case (6 ops plan p n chunk w s)
  then show ?case using sock_write_sent [of plan "drop w chunk" s] by (auto split: if_splits prod.splits sum.splits)
next
  case (5 ops plan p n s)
  then obtain r s1 where r: "file_call (\<lambda>d. op_read ops d BUFFER_SIZE) s = Some (r, s1)"
    by (auto simp: bind_eq_Some_conv)
  have "s' = s1" using 5 r by (cases r) (auto split: if_splits)
  then show ?case using file_call_sent [OF r] by simp
qed (auto simp: Let_def bind_eq_Some_conv dest!: file_call_sent split: if_splits)

lemma locking_goes_on:
  assumes view: "atomic_view ops cenv L P0" and w: "log_lock L = Some (t, q, nxt)" "workers (inside L) t = Some (args, pt, c)"
    and run: "section_step ops (client_plan (cenv t)) q (see_log (log_now (inside L)) c) = Some (q', c')"
  shows "atomic_view ops cenv (L\<lparr>inside := put_worker t args pt c' (inside L), log_lock := Some (t, q', nxt)\<rparr>) P0"
proof -
  have s: "in_section ops (cenv t) t q nxt (inside L) P0" using view w(1) by (simp add: atomic_view_def)
  have "in_section ops (cenv t) t q' nxt (put_worker t args pt c' (inside L)) P0"
    using s w(2) section_step_rest [OF run] section_step_sent [OF run]
    by (auto simp: in_section_def see_log_self)
  then show ?thesis using view w(1) by (auto simp: atomic_view_def holds_lock_def)
qed

lemma locking_ends:
  assumes view: "atomic_view ops cenv L P0" and w: "log_lock L = Some (t, Unlocking, nxt)"
    "workers (inside L) t = Some (args, pt, c)"
  defines "c' \<equiv> pthread_mutex_unlock (see_log (log_now (inside L)) c)"
  shows "process_step ops fresh env cenv P0 (client_moved t args nxt c' P0)
    \<and> atomic_view ops cenv (L\<lparr>inside := client_moved t args nxt c' (inside L), log_lock := None\<rparr>)
        (client_moved t args nxt c' P0)"
proof -
  obtain c0 where c0: "workers P0 t = Some (args, pt, c0)"
    "client_resume ops (cenv t) args pt (see_log (log_now P0) c0) = Some (nxt, c')"
    using view w by (auto simp: atomic_view_def in_section_def c'_def)
  have "forget (fst (log_file c')) (workers (inside L) u) = forget (fst (log_file c')) (workers P0 u)" if "u \<noteq> t" for u
    by (rule forget_eq [of "log_now P0"]) (use view w(1) that in \<open>auto simp: atomic_view_def holds_lock_def\<close>)
  then have "atomic_view ops cenv (L\<lparr>inside := client_moved t args nxt c' (inside L), log_lock := None\<rparr>)
      (client_moved t args nxt c' P0)"
    using view by (simp add: atomic_view_def)
  then show ?thesis using run_client [where cenv = cenv, OF c0] by blast
qed

text \<open>A thread takes the lock, or it makes a system call of its section.\<close>

definition section_moves ::
  "('s \<times> 'f) file_ops \<Rightarrow> (nat \<Rightarrow> client_env) \<Rightarrow> ('s, 'f) locked_process \<Rightarrow> ('s, 'f) locked_process \<Rightarrow> bool"
where
  "section_moves ops cenv L L' \<longleftrightarrow> log_lock L = None \<and> log_lock L' \<noteq> None \<or> (\<exists>t q nxt args pt c q' c'.
     log_lock L = Some (t, q, nxt) \<and> workers (inside L) t = Some (args, pt, c)
     \<and> section_step ops (client_plan (cenv t)) q (see_log (log_now (inside L)) c) = Some (q', c')
     \<and> log_lock L' = Some (t, q', nxt) \<and> workers (inside L') t = Some (args, pt, c')
     \<and> log_now (inside L') = fst (log_file c'))"

lemma locking_step_view:
  assumes view: "atomic_view ops cenv L P0" and step: "locking_step ops fresh env cenv L L'"
    and new: "\<And>n rounds. main_at P0 = Accepting n rounds \<Longrightarrow> workers P0 n = None"
  shows "(\<exists>Q0. process_step ops fresh env cenv P0 Q0 \<and> atomic_view ops cenv L' Q0)
    \<or> (atomic_view ops cenv L' P0 \<and> section_moves ops cenv L L')"
  using step
proof (cases rule: locking_step.cases)
  case (go_main Q)
  obtain Q0 where "main_step fresh env cenv P0 Q0" "atomic_view ops cenv (L\<lparr>inside := Q\<rparr>) Q0"
    using locking_main [OF view go_main(2)] new by blast
  then show ?thesis using go_main(1) run_main [of fresh env cenv P0 Q0 ops] by blast
next
  case (go_free t args pt c pt' c')
  from locking_free [OF view go_free(2-5)] go_free(1) show ?thesis by blast
next
  case (go_lock t args pt c q nxt c')
  from locking_begins [OF view go_lock(2-5)] show ?thesis by (simp add: go_lock(1,3) section_moves_def)
next
  case (go_section t q nxt args pt c q' c')
  have "section_moves ops cenv L L'" unfolding section_moves_def
    by (rule disjI2, intro exI conjI, rule go_section(2), rule go_section(3), rule go_section(4))
       (simp_all add: go_section(1))
  then show ?thesis using locking_goes_on [OF view go_section(2-4)] go_section(1) by simp
next
  case (go_unlock t nxt args pt c)
  from locking_ends [OF view go_unlock(2,3)] go_unlock(1) show ?thesis by blast
qed

text \<open>A thread that has been started stays in the records.\<close>

lemma locking_keeps_worker:
  assumes "locking_step ops fresh env cenv L L'" and "workers (inside L) t \<noteq> None"
  shows "workers (inside L') t \<noteq> None"
  using assms
proof (cases rule: locking_step.cases)
  case (go_main Q)
  from go_main(2) assms(2) show ?thesis unfolding go_main(1) by (cases rule: main_step.cases) auto
qed (use assms(2) in auto)

end
