(* ===== verification/LockingEnd.thy ===== *)
theory LockingEnd
  imports ServerLocking
begin

text \<open>
  How the server process ends when the log lock is in the open: every reachable state is a state of the
  process whose sections are single steps, seen in the middle of a section at most; no run goes on for
  ever, a run only stops at the exit or where a silent client is waited for, never for the lock, and what
  is left at the end is what was left there.
\<close>

definition locking_start ::
  "('s, 'f) log_rep \<Rightarrow> log_held \<Rightarrow> 'f \<Rightarrow> ('f \<Rightarrow> nat) \<Rightarrow> bool \<Rightarrow> main_env \<Rightarrow> round list
   \<Rightarrow> ('s, 'f) locked_process \<Rightarrow> bool"
where
  "locking_start rep held fresh position d env rounds L \<longleftrightarrow>
     process_start rep held fresh position d env rounds (inside L) \<and> log_lock L = None"

text \<open>The two processes are equally far.\<close>

lemma atomic_view_ranks:
  assumes "atomic_view ops cenv L P0"
  shows "main_rank (inside L) = main_rank P0" "client_rank (inside L) = client_rank P0"
proof -
  show "main_rank (inside L) = main_rank P0" using assms
    by (simp add: main_rank_def atomic_view_def split: main_point.split)
  have "pieces_of (workers (inside L) t) = pieces_of (workers P0 t)" for t
  proof (cases "holds_lock L t")
    case True
    then show ?thesis using assms by (auto simp: atomic_view_def holds_lock_def in_section_def pieces_of_def)
  next
    case False
    then have "forget (log_now P0) (workers (inside L) t) = forget (log_now P0) (workers P0 t)"
      using assms unfolding atomic_view_def by blast
    then have "pieces_of (forget (log_now P0) (workers (inside L) t)) = pieces_of (forget (log_now P0) (workers P0 t))"
      by simp
    moreover have "pieces_of (forget sh w) = pieces_of w" for sh and w :: "(thread_args \<times> client_point \<times> ('a \<times> 'b) thread_state) option"
      by (auto simp: pieces_of_def split: option.split)
    ultimately show ?thesis by simp
  qed
  then show "client_rank (inside L) = client_rank P0" using assms by (simp add: client_rank_def atomic_view_def)
qed

text \<open>Taking the lock, and then each system call of the section, is a step towards its end.\<close>

definition lock_rank :: "('s \<times> 'f) file_ops \<Rightarrow> (nat \<Rightarrow> client_env) \<Rightarrow> ('s, 'f) locked_process \<Rightarrow> nat \<times> nat" where
  "lock_rank ops cenv L = (case log_lock L of
     None \<Rightarrow> (1, 0)
   | Some (t, q, nxt) \<Rightarrow> (0, (case workers (inside L) t of
       None \<Rightarrow> 0
     | Some (args, pt, c) \<Rightarrow> section_left ops (client_plan (cenv t)) q (see_log (log_now (inside L)) c))))"

definition locking_order ::
  "('s \<times> 'f) file_ops \<Rightarrow> (nat \<Rightarrow> client_env) \<Rightarrow> (('s, 'f) locked_process \<times> ('s, 'f) locked_process) set" where
  "locking_order ops cenv =
     inv_image (((less_than <*lex*> less_than) <*lex*> less_than) <*lex*> (less_than <*lex*> less_than))
       (\<lambda>L. ((main_rank (inside L), client_rank (inside L)), lock_rank ops cenv L))"

lemma wf_locking_order: "wf (locking_order ops cenv)"
  by (simp add: locking_order_def wf_inv_image wf_lex_prod)

lemma section_moves_order:
  assumes moves: "section_moves ops cenv L L'" and view: "atomic_view ops cenv L P0" "atomic_view ops cenv L' P0"
    and ends: "\<And>t q nxt args pt c. log_lock L = Some (t, q, nxt) \<Longrightarrow> workers (inside L) t = Some (args, pt, c) \<Longrightarrow>
      section_ends_some ops (client_plan (cenv t)) q (see_log (log_now (inside L)) c)"
  shows "(L', L) \<in> locking_order ops cenv"
proof -
  have "(lock_rank ops cenv L', lock_rank ops cenv L) \<in> less_than <*lex*> less_than"
  proof (cases "log_lock L")
    case None
    then obtain x where "log_lock L' = Some x" using moves by (auto simp: section_moves_def)
    then show ?thesis using None by (cases x) (simp add: lock_rank_def)
  next
    case (Some x)
    then obtain t q nxt args pt c q' c' where m: "log_lock L = Some (t, q, nxt)" "workers (inside L) t = Some (args, pt, c)"
      "section_step ops (client_plan (cenv t)) q (see_log (log_now (inside L)) c) = Some (q', c')"
      "log_lock L' = Some (t, q', nxt)" "workers (inside L') t = Some (args, pt, c')"
      "log_now (inside L') = fst (log_file c')"
      using moves unfolding section_moves_def by auto
    then show ?thesis using ends [OF m(1,2)] section_left_decreases [OF m(3)]
      by (auto simp: lock_rank_def see_log_self)
  qed
  then show ?thesis using atomic_view_ranks [OF view(1)] atomic_view_ranks [OF view(2)] by (simp add: locking_order_def)
qed

lemma atomic_step_order:
  assumes view: "atomic_view ops cenv L P0" "atomic_view ops cenv L' Q0" and down: "(Q0, P0) \<in> process_order"
  shows "(L', L) \<in> locking_order ops cenv"
  using down atomic_view_ranks [OF view(1)] atomic_view_ranks [OF view(2)]
  by (simp add: locking_order_def process_order_def)

section \<open>Reachable states\<close>

context shared_log
begin

lemma process_fresh_thread:
  assumes "process_reachable env rounds cenv P" and "main_at P = Accepting n rounds'"
  shows "workers P n = None"
proof -
  have "threads_known P" using process.reachable_inv [OF assms(1)] by (simp add: process_inv_def)
  then have "worker_known (process_of P) n (workers P n)" "n = length (started (process_of P))"
    using assms(2) by (simp_all add: threads_known_def main_ok_def)
  then show ?thesis by (cases "workers P n") auto
qed

text \<open>What a thread is about to do in a reachable state, it can do.\<close>

lemma process_piece_returns:
  assumes P: "process_reachable env rounds cenv P" and w: "workers P t = Some (args, pt, c)" "pt \<noteq> Ended" "\<not> waits_for_client (cenv t) pt"
    and plan: "productive (client_plan (cenv t))"
  shows "client_resume ops (cenv t) args pt (see_log (log_now P) c) \<noteq> None"
proof -
  obtain S where S: "reachable (server_start rep held fresh position) (server_step ops fresh position) S" "matches fresh P S"
    using process.reachable_inv [OF P] by (auto simp: process_inv_def)
  have "thread_matches fresh S t (Some (args, pt, c))" using S(2) w(1) unfolding matches_def by metis
  from piece_returns [OF system.reachable_inv [OF S(1)] this plan w(2,3)] S(2) show ?thesis
    by (simp add: matches_def flip: see_log_view)
qed

lemma section_comes_to_end:
  assumes P: "process_reachable env rounds cenv P0" and view: "atomic_view ops cenv L P0"
    and lock: "log_lock L = Some (t, q, nxt)" and plan: "productive (client_plan (cenv t))"
  obtains args pt c where "workers (inside L) t = Some (args, pt, c)"
    "section_ends_some ops (client_plan (cenv t)) q (see_log (log_now (inside L)) c)"
proof -
  obtain args pt c c0 where s: "workers (inside L) t = Some (args, pt, c)" "workers P0 t = Some (args, pt, c0)" "takes_lock (cenv t) pt \<noteq> None"
    "client_resume ops (cenv t) args pt (see_log (log_now P0) c0) =
       map_option (\<lambda>s. (nxt, s)) (section_rest ops (client_plan (cenv t)) q (see_log (log_now (inside L)) c))"
    using view lock by (auto simp: atomic_view_def in_section_def)
  have "pt \<noteq> Ended" "\<not> waits_for_client (cenv t) pt" using s(3) takes_lock_goes by auto
  from process_piece_returns [OF P s(2) this plan] s(4)
  obtain s' where "section_rest ops (client_plan (cenv t)) q (see_log (log_now (inside L)) c) = Some s'" by auto
  from section_rest_ends [OF this] s(1) show ?thesis by (rule that [rotated])
qed

end

text \<open>Every reachable state is one of the process with single steps, seen in the middle of a section.\<close>

sublocale shared_log < locking: invariant_of
  "\<lambda>L. \<exists>d. locking_start rep held fresh position d env rounds L \<and> signalled rounds \<and> hosts_known rounds \<and> clients_ok cenv"
  "locking_step ops fresh env cenv" "\<lambda>L. \<exists>P0. process_reachable env rounds cenv P0 \<and> atomic_view ops cenv L P0"
  for env rounds cenv
proof (unfold_locales, goal_cases)
  case (1 L)
  then have "process_reachable env rounds cenv (inside L)" by (auto simp: locking_start_def intro!: reach_start)
  moreover have "atomic_view ops cenv L (inside L)" using 1 by (auto simp: atomic_view_def locking_start_def)
  ultimately show ?case by blast
next
  case (2 L L')
  then obtain P0 where P0: "process_reachable env rounds cenv P0" "atomic_view ops cenv L P0" by blast
  from locking_step_view [OF P0(2) 2(2)] process_fresh_thread [OF P0(1)] P0(1) show ?case
    by (blast intro: reach_step)
qed

section \<open>The end\<close>

lemma main_step_locked:
  assumes view: "atomic_view ops cenv L P0" and free: "log_lock L = None" and step: "main_step fresh env cenv P0 Q0"
  shows "\<exists>Q. main_step fresh env cenv (inside L) Q"
  using step
proof (cases rule: main_step.cases)
  case (run_accept n rounds rest args p)
  then show ?thesis using view main_step.run_accept [of "inside L" n rounds env rest args p fresh cenv]
    by (auto simp: atomic_view_def)
next
  case (run_leave n rounds rest p)
  then show ?thesis using view main_step.run_leave [of "inside L" n rounds env rest p fresh cenv]
    by (auto simp: atomic_view_def)
next
  case (run_join args c)
  let ?t = "length (joined (process_of P0))"
  have "forget (log_now P0) (workers (inside L) ?t) = forget (log_now P0) (Some (args, Ended, c))"
    using view free run_join(4) unfolding atomic_view_def by (auto simp: holds_lock_def)
  then obtain c' where "workers (inside L) ?t = Some (args, Ended, c')" by (rule forget_Some)
  then show ?thesis using view run_join(2,3) main_step.run_join [of "inside L" args c' fresh env cenv]
    by (auto simp: atomic_view_def)
next
  case run_exit
  then show ?thesis using view main_step.run_exit [of "inside L" fresh env cenv] by (auto simp: atomic_view_def)
qed

lemma atomic_view_idle:
  assumes view: "atomic_view ops cenv L P0" and free: "log_lock L = None"
  shows "joins_idle cenv (inside L) \<longleftrightarrow> joins_idle cenv P0"
proof -
  have w: "forget (log_now P0) (workers (inside L) t) = forget (log_now P0) (workers P0 t)" for t
    using view free unfolding atomic_view_def by (auto simp: holds_lock_def)
  have "(\<exists>args pt c. workers (inside L) t = Some (args, pt, c) \<and> Q pt) \<longleftrightarrow>
      (\<exists>args pt c. workers P0 t = Some (args, pt, c) \<and> Q pt)" for t Q
    using w [of t] by (cases "workers (inside L) t"; cases "workers P0 t") auto
  then show ?thesis using view by (simp add: joins_idle_def atomic_view_def)
qed

lemma process_step_locked:
  assumes view: "atomic_view ops cenv L P0" and free: "log_lock L = None" and step: "process_step ops fresh env cenv P0 Q0"
  shows "\<exists>L'. locking_step ops fresh env cenv L L'"
  using step
proof (cases rule: process_step.cases)
  case run_main
  from main_step_locked [OF view free run_main(1)] obtain Q where "main_step fresh env cenv (inside L) Q" by blast
  from go_main [of fresh env cenv L Q ops, OF this] show ?thesis by blast
next
  case (run_client t args pt c pt' c')
  have "forget (log_now P0) (workers (inside L) t) = forget (log_now P0) (Some (args, pt, c))"
    using view free run_client(2) unfolding atomic_view_def by (auto simp: holds_lock_def)
  then obtain d where d: "workers (inside L) t = Some (args, pt, d)" "see_log (log_now P0) d = see_log (log_now P0) c"
    by (rule forget_Some)
  have run: "client_resume ops (cenv t) args pt (see_log (log_now (inside L)) d) = Some (pt', c')"
    using run_client(3) d(2) view free by (simp add: atomic_view_def)
  show ?thesis
  proof (cases "takes_lock (cenv t) pt")
    case None
    have "\<not> holds_lock L t" using free by (simp add: holds_lock_def)
    from go_free [where cenv = cenv, OF d(1) this None run] show ?thesis by blast
  next
    case (Some x)
    then obtain q nxt where x: "takes_lock (cenv t) pt = Some (q, nxt)" by (cases x) auto
    then obtain e where "pthread_mutex_lock (see_log (log_now (inside L)) d) = Some e"
      using takes_lock_resume [OF x, of ops args "see_log (log_now (inside L)) d"] run
      by (cases "pthread_mutex_lock (see_log (log_now (inside L)) d)") simp_all
    from go_lock [where cenv = cenv, OF d(1) free x this] show ?thesis by blast
  qed
qed

context shared_log
begin

abbreviation locking_reachable ::
  "main_env \<Rightarrow> round list \<Rightarrow> (nat \<Rightarrow> client_env) \<Rightarrow> ('s, 'f) locked_process \<Rightarrow> bool" where
  "locking_reachable env rounds cenv \<equiv> reachable
     (\<lambda>L. \<exists>d. locking_start rep held fresh position d env rounds L \<and> signalled rounds \<and> hosts_known rounds \<and> clients_ok cenv)
     (locking_step ops fresh env cenv)"

lemma locking_runs_end:
  assumes plans: "\<And>t. productive (client_plan (cenv t))"
  shows "wf {(L', L). locking_reachable env rounds cenv L \<and> locking_step ops fresh env cenv L L'}"
proof (rule wf_subset [OF wf_locking_order [of ops cenv]], clarify)
  fix L L'
  assume L: "locking_reachable env rounds cenv L" and step: "locking_step ops fresh env cenv L L'"
  obtain P0 where P0: "process_reachable env rounds cenv P0" "atomic_view ops cenv L P0"
    using locking.reachable_inv [OF L] by blast
  have inv: "process_inv env P0" using process.reachable_inv [OF P0(1)] by simp
  from locking_step_view [OF P0(2) step] process_fresh_thread [OF P0(1)]
  consider (atomic) Q0 where "process_step ops fresh env cenv P0 Q0" "atomic_view ops cenv L' Q0"
    | (moves) "atomic_view ops cenv L' P0" "section_moves ops cenv L L'" by blast
  then show "(L', L) \<in> locking_order ops cenv"
  proof cases
    case atomic
    have "(Q0, P0) \<in> process_order" using process_step_decreases [OF _ atomic(1)] inv by (simp add: process_inv_def)
    with P0(2) atomic(2) show ?thesis by (rule atomic_step_order)
  next
    case moves
    show ?thesis
    proof (rule section_moves_order [OF moves(2) P0(2) moves(1)])
      fix t q nxt args pt c
      assume "log_lock L = Some (t, q, nxt)" and w: "workers (inside L) t = Some (args, pt, c)"
      from section_comes_to_end [OF P0 this(1) plans]
      show "section_ends_some ops (client_plan (cenv t)) q (see_log (log_now (inside L)) c)"
        using w by (metis option.inject prod.inject)
    qed
  qed
qed

text \<open>
  As long as the process has not exited, one of its threads can go on (the one that holds the lock, or
  any), unless nobody holds the lock and the main thread waits for a thread whose client is idle.
\<close>

lemma locking_stuck_exited:
  assumes L: "locking_reachable env rounds cenv L" and stuck: "\<And>L'. \<not> locking_step ops fresh env cenv L L'"
    and plans: "\<And>t. productive (client_plan (cenv t))"
  shows "log_lock L = None \<and> (main_at (inside L) = Exited EXIT_SUCCESS \<or> joins_idle cenv (inside L))"
proof -
  obtain P0 where P0: "process_reachable env rounds cenv P0" "atomic_view ops cenv L P0"
    using locking.reachable_inv [OF L] by blast
  show ?thesis
  proof (cases "log_lock L")
    case None
    have "\<not> process_step ops fresh env cenv P0 Q0" for Q0 using process_step_locked [OF P0(2) None] stuck by blast
    from process_stuck_exited [OF P0(1) this plans] atomic_view_idle [OF P0(2) None] P0(2) None show ?thesis
      by (auto simp: atomic_view_def)
  next
    case (Some x)
    then obtain t q nxt where lock: "log_lock L = Some (t, q, nxt)" by (cases x) auto
    from section_comes_to_end [OF P0 this plans] obtain args pt c n where w: "workers (inside L) t = Some (args, pt, c)"
      "section_ends ops (client_plan (cenv t)) n q (see_log (log_now (inside L)) c)" by metis
    from w(2) show ?thesis
    proof (cases rule: section_ends.cases)
      case ends_now
      then show ?thesis using go_unlock [OF _ w(1)] lock stuck by blast
    next
      case (ends_later q' s' m)
      from go_section [where cenv = cenv, OF lock w(1) ends_later(2)] show ?thesis using stuck by blast
    qed
  qed
qed

lemma locking_exits:
  assumes "locking_reachable env rounds cenv L" and "\<And>t. productive (client_plan (cenv t))"
    and "\<And>t. client_hangs_up (cenv t)"
  shows "\<exists>L'. (locking_step ops fresh env cenv)\<^sup>*\<^sup>* L L' \<and> locking_reachable env rounds cenv L'
    \<and> main_at (inside L') = Exited EXIT_SUCCESS"
  using run_to_end [OF locking_runs_end assms(1)] locking_stuck_exited joins_idle_client assms(2,3) by metis

text \<open>What is left when the process has exited.\<close>

lemma locking_exit_books:
  assumes L: "locking_reachable env rounds cenv L" and e: "main_at (inside L) = Exited e"
  defines "p \<equiv> process_of (inside L)"
  shows "e = EXIT_SUCCESS" "log_lock L = None" "queue p = []" "joined p = started p"
    "(items p, length (open_fds p)) \<in> {(0, 0), (0, 1), (1, 2)}"
    "\<forall>i. item_ok (turns env i) \<and> create_ok (turns env i) \<Longrightarrow> items p = 0 \<and> open_fds p = []"
    "t < length (started p) \<Longrightarrow> \<exists>c. workers (inside L) t = Some (started p ! t, Ended, c)
       \<and> blocks c = 0 \<and> closed c = [client_fd (started p ! t), file_fd (started p ! t)]"
proof -
  obtain P0 where P0: "process_reachable env rounds cenv P0" "atomic_view ops cenv L P0"
    using locking.reachable_inv [OF L] by blast
  have same: "main_at P0 = Exited e" "process_of P0 = p" using P0(2) e by (simp_all add: atomic_view_def p_def)
  note books = process_exit_books [OF P0(1) same(1), unfolded same(2)]
  show "e = EXIT_SUCCESS" "queue p = []" "joined p = started p"
    "(items p, length (open_fds p)) \<in> {(0, 0), (0, 1), (1, 2)}"
    "\<forall>i. item_ok (turns env i) \<and> create_ok (turns env i) \<Longrightarrow> items p = 0 \<and> open_fds p = []"
    using books(1-5) .
  have known: "threads_known P0" using process.reachable_inv [OF P0(1)] by (simp add: process_inv_def)
  show lock: "log_lock L = None"
  proof (rule ccontr)
    assume "log_lock L \<noteq> None"
    then obtain t q nxt where "in_section ops (cenv t) t q nxt (inside L) P0"
      using P0(2) by (auto simp: atomic_view_def)
    then obtain args pt c where w: "workers P0 t = Some (args, pt, c)" "pt \<noteq> Ended"
      using takes_lock_goes by (fastforce simp: in_section_def)
    have "worker_known (process_of P0) t (Some (args, pt, c))" using known w(1) unfolding threads_known_def by metis
    then show False using books(6) [of t] w same(2) by auto
  qed
  show "\<exists>c. workers (inside L) t = Some (started p ! t, Ended, c)
       \<and> blocks c = 0 \<and> closed c = [client_fd (started p ! t), file_fd (started p ! t)]" if t: "t < length (started p)"
  proof -
    obtain c where c: "workers P0 t = Some (started p ! t, Ended, c)" "blocks c = 0"
      "closed c = [client_fd (started p ! t), file_fd (started p ! t)]" using books(6) [OF t] by blast
    have "forget (log_now P0) (workers (inside L) t) = forget (log_now P0) (Some (started p ! t, Ended, c))"
      using P0(2) lock c(1) unfolding atomic_view_def by (auto simp: holds_lock_def)
    then obtain d where d: "workers (inside L) t = Some (started p ! t, Ended, d)" "see_log (log_now P0) d = see_log (log_now P0) c"
      by (rule forget_Some)
    have "blocks d = blocks c" "closed d = closed c"
      using arg_cong [OF d(2), of blocks] arg_cong [OF d(2), of closed] by simp_all
    with c(2,3) d(1) show ?thesis by simp
  qed
qed

text \<open>As long as a client keeps its connection open, the process cannot exit.\<close>

lemma locking_idle_client:
  assumes L: "locking_reachable env rounds cenv L" and w: "workers (inside L) t = Some (args, pt, c)"
    and idle: "\<not> can_end (cenv t)"
  shows "main_at (inside L) \<noteq> Exited e"
proof
  assume e: "main_at (inside L) = Exited e"
  obtain P0 where P0: "process_reachable env rounds cenv P0" "atomic_view ops cenv L P0"
    using locking.reachable_inv [OF L] by blast
  obtain c0 where c0: "workers P0 t = Some (args, pt, c0)" using atomic_view_thread [OF P0(2) w] by blast
  have same: "main_at P0 = Exited e" using P0(2) e by (simp add: atomic_view_def)
  have "threads_known P0" using process.reachable_inv [OF P0(1)] by (simp add: process_inv_def)
  then have "t < length (started (process_of P0))"
    using c0 unfolding threads_known_def by (metis worker_known_simps(2))
  then have "pt = Ended" using process_exit_books(6) [OF P0(1) same] c0 by fastforce
  have none: "workers P = (\<lambda>t. None)"
    if "\<exists>d. process_start rep held fresh position d env rounds P \<and> signalled rounds \<and> hosts_known rounds \<and> clients_ok cenv" for P
    using that by (auto simp: process_start_def)
  have "can_end (cenv t)"
    by (rule ended_can_end [OF P0(1) none]) (use c0 \<open>pt = Ended\<close> in simp_all)
  then show False using idle by simp
qed

end

end
