(* ===== verification/LockingProperties.thy ===== *)
theory LockingProperties
  imports ProcessProperties LockingEnd
begin

text \<open>
  The properties of the server process on the driver with the log lock in the open, where every system
  call under the lock is a step. The instance is that of \<open>ProcessProperties\<close>.

  A run starts in the driver build after a successful setup, with an empty log on a device for which the
  kernel grants memory. The log can be opened for every connection, the addresses of the clients can be
  printed, the lines they send are shorter than 1024 bytes, and a signal comes some time. A write to a
  socket that fails returns an error: one that raises SIGPIPE would end the process at once.
\<close>

abbreviation dev_locking_start ::
  "llseek_fn \<Rightarrow> write_env \<Rightarrow> main_env \<Rightarrow> round list \<Rightarrow> (nat \<Rightarrow> client_env) \<Rightarrow> (kstate, file) locked_process \<Rightarrow> bool"
where
  "dev_locking_start fsl wenv env rounds cenv L \<equiv>
     \<exists>d. locking_start (dev_rep fsl wenv) (lastn AESDCHAR_MAX_WRITE_OPERATIONS_SUPPORTED) fresh_file
         (\<lambda>f. unat (f_pos f)) d env rounds L
       \<and> signalled rounds \<and> hosts_known rounds \<and> clients_ok cenv"

abbreviation dev_locking_step ::
  "llseek_fn \<Rightarrow> write_env \<Rightarrow> main_env \<Rightarrow> (nat \<Rightarrow> client_env)
   \<Rightarrow> (kstate, file) locked_process \<Rightarrow> (kstate, file) locked_process \<Rightarrow> bool"
where
  "dev_locking_step fsl wenv env cenv \<equiv> locking_step (dev_ops fsl wenv) fresh_file env cenv"

abbreviation dev_locking_reachable ::
  "llseek_fn \<Rightarrow> write_env \<Rightarrow> main_env \<Rightarrow> round list \<Rightarrow> (nat \<Rightarrow> client_env) \<Rightarrow> (kstate, file) locked_process \<Rightarrow> bool"
where
  "dev_locking_reachable fsl wenv env rounds cenv \<equiv>
     reachable (dev_locking_start fsl wenv env rounds cenv) (dev_locking_step fsl wenv env cenv)"

section \<open>An instance\<close>

definition sample_locked :: "(kstate, file) locked_process" where
  "sample_locked = \<lparr>inside = sample_process, log_lock = None\<rparr>"

lemma sample_plans: "productive (client_plan (sample_clients t))"
  by (simp add: sample_clients_def slow_socket_productive)

lemma sample_locked_reachable:
  "dev_locking_reachable doc_fsl good_env sample_main sample_rounds sample_clients sample_locked"
proof (rule reach_start)
  show "dev_locking_start doc_fsl good_env sample_main sample_rounds sample_clients sample_locked"
    using sample_process_start by (simp add: locking_start_def sample_locked_def)
qed

lemma sample_locked_exits:
  obtains L where "dev_locking_reachable doc_fsl good_env sample_main sample_rounds sample_clients L"
    "main_at (inside L) = Exited EXIT_SUCCESS"
proof -
  have "client_hangs_up (sample_clients t)" for t by (simp add: sample_clients_def)
  then show ?thesis using dev_shared.locking_exits [OF sample_locked_reachable sample_plans] that by blast
qed

text \<open>The same, except that the first client keeps its connection open.\<close>

definition idle_clients :: "nat \<Rightarrow> client_env" where
  "idle_clients t = (sample_clients t)\<lparr>client_hangs_up := t \<noteq> 0\<rparr>"

lemma idle_plans: "productive (client_plan (idle_clients t))"
  using sample_plans [of t] by (simp add: idle_clients_def)

lemma idle_start: "dev_locking_reachable doc_fsl good_env sample_main sample_rounds idle_clients sample_locked"
proof (rule reach_start)
  show "dev_locking_start doc_fsl good_env sample_main sample_rounds idle_clients sample_locked"
    using sample_process_start by (simp add: locking_start_def sample_locked_def clients_ok_def idle_clients_def)
qed

lemma idle_first_step:
  "\<exists>Q. dev_locking_step doc_fsl good_env sample_main idle_clients sample_locked Q \<and> workers (inside Q) 0 \<noteq> None"
proof -
  have "\<exists>rest args p. accept_turn (turns sample_main) 0 sample_rounds (process_of sample_process) = Some (Inr (rest, args, p))"
    by (simp add: accept_turn_def sample_process_def set_up_def registerSignalHandler_def bindPortToSocket_def
        Daemonize_def sample_main_def sample_rounds_def initial_proc_def deliver_def open_fd_def Let_def)
  then obtain rest args p where
    a: "accept_turn (turns sample_main) 0 sample_rounds (process_of (inside sample_locked)) = Some (Inr (rest, args, p))"
    by (auto simp: sample_locked_def)
  have m: "main_at (inside sample_locked) = Accepting 0 sample_rounds"
    by (simp add: sample_locked_def sample_process_def)
  show ?thesis
    by (intro exI conjI, rule go_main, rule run_accept [OF m a]) simp
qed

section \<open>The properties\<close>

text \<open>
  C4: The whole server, with its main thread accepting and joining and its client threads running side
  by side, their system calls interleaved in any order that the log lock allows, is a system of client
  threads on the device: while nobody holds the lock, the device holds the last ten packets stored; and
  what each client has been sent, byte for byte, is the concatenation of the replies that the system
  records for it, followed by a part of the next one if its thread holds the lock.
\<close>

theorem server_refines_threads:
  assumes "dev_locking_reachable fsl wenv env rounds cenv L"
  shows "\<exists>S. dev_reachable fsl wenv S
    \<and> (log_lock L = None \<longrightarrow>
         (\<exists>F. driver_rel 1 (log_now (inside L)) (lastn AESDCHAR_MAX_WRITE_OPERATIONS_SUPPORTED (history S)) [] F))
    \<and> (\<forall>t args pt c. workers (inside L) t = Some (args, pt, c) \<longrightarrow>
         (\<exists>more. sent c = concat (map r_text (filter (\<lambda>r. r_thread r = t) (replies S))) @ more
            \<and> (holds_lock L t \<or> more = [])))"
proof -
  obtain P where P: "dev_process_reachable fsl wenv env rounds cenv P" "atomic_view (dev_ops fsl wenv) cenv L P"
    using dev_shared.locking.reachable_inv [OF assms] by blast
  from process_refines_threads [OF P(1)] obtain S where S: "dev_reachable fsl wenv S"
    "\<exists>F. driver_rel 1 (log_now P) (lastn AESDCHAR_MAX_WRITE_OPERATIONS_SUPPORTED (history S)) [] F"
    "\<forall>t args pt c. workers P t = Some (args, pt, c) \<longrightarrow>
       sent c = concat (map r_text (filter (\<lambda>r. r_thread r = t) (replies S)))" by blast
  have "\<exists>more. sent c = concat (map r_text (filter (\<lambda>r. r_thread r = t) (replies S))) @ more
      \<and> (holds_lock L t \<or> more = [])" if "workers (inside L) t = Some (args, pt, c)" for t args pt c
    using atomic_view_thread [OF P(2) that] S(3) by metis
  moreover have "log_lock L = None \<longrightarrow> log_now P = log_now (inside L)" using P(2) by (auto simp: atomic_view_def)
  ultimately show ?thesis using S(1,2) by (intro exI [of _ S]) auto
qed

theorem server_refines_threads_witness:
  "\<exists>L S. dev_locking_reachable doc_fsl good_env sample_main sample_rounds sample_clients L
     \<and> main_at (inside L) = Exited EXIT_SUCCESS \<and> dev_reachable doc_fsl good_env S
     \<and> (\<forall>t args pt c. workers (inside L) t = Some (args, pt, c) \<longrightarrow>
          (\<exists>more. sent c = concat (map r_text (filter (\<lambda>r. r_thread r = t) (replies S))) @ more))"
proof -
  obtain L where L: "dev_locking_reachable doc_fsl good_env sample_main sample_rounds sample_clients L"
    "main_at (inside L) = Exited EXIT_SUCCESS" by (rule sample_locked_exits)
  from server_refines_threads [OF L(1)] obtain S where S: "dev_reachable doc_fsl good_env S"
    "\<forall>t args pt c. workers (inside L) t = Some (args, pt, c) \<longrightarrow>
       (\<exists>more. sent c = concat (map r_text (filter (\<lambda>r. r_thread r = t) (replies S))) @ more
          \<and> (holds_lock L t \<or> more = []))" by blast
  have "\<exists>more. sent c = concat (map r_text (filter (\<lambda>r. r_thread r = t) (replies S))) @ more"
    if "workers (inside L) t = Some (args, pt, c)" for t args pt c
    using S(2) that by blast
  with L S(1) show ?thesis by (intro exI [of _ L] exI [of _ S]) blast
qed

text \<open>
  C5: The log lock makes sections atomic. However the system calls of the threads are interleaved, the
  server is at every moment where a run of the process with one step per section has got to: its main
  thread and its descriptors are the same, and each client thread is at the same point and has been sent
  the same bytes, except that the thread that holds the lock may have been sent more. While nobody holds
  the lock, the device is the same too.
\<close>

theorem sections_are_atomic:
  assumes "dev_locking_reachable fsl wenv env rounds cenv L"
  shows "\<exists>P. dev_process_reachable fsl wenv env rounds cenv P
    \<and> main_at P = main_at (inside L) \<and> process_of P = process_of (inside L)
    \<and> (log_lock L = None \<longrightarrow> log_now P = log_now (inside L))
    \<and> (\<forall>t args pt c. workers (inside L) t = Some (args, pt, c) \<longrightarrow>
         (\<exists>c0 more. workers P t = Some (args, pt, c0) \<and> sent c = sent c0 @ more \<and> (holds_lock L t \<or> more = [])))"
proof -
  obtain P where P: "dev_process_reachable fsl wenv env rounds cenv P" "atomic_view (dev_ops fsl wenv) cenv L P"
    using dev_shared.locking.reachable_inv [OF assms] by blast
  note threads = atomic_view_thread [OF P(2)]
  have "main_at P = main_at (inside L)" "process_of P = process_of (inside L)"
    "log_lock L = None \<longrightarrow> log_now P = log_now (inside L)" using P(2) by (auto simp: atomic_view_def)
  with P(1) threads show ?thesis by (intro exI [of _ P]) blast
qed

theorem sections_are_atomic_witness:
  "\<exists>L P. dev_locking_reachable doc_fsl good_env sample_main sample_rounds sample_clients L
     \<and> main_at (inside L) = Exited EXIT_SUCCESS
     \<and> dev_process_reachable doc_fsl good_env sample_main sample_rounds sample_clients P
     \<and> main_at P = Exited EXIT_SUCCESS"
proof -
  obtain L where L: "dev_locking_reachable doc_fsl good_env sample_main sample_rounds sample_clients L"
    "main_at (inside L) = Exited EXIT_SUCCESS" by (rule sample_locked_exits)
  from sections_are_atomic [OF L(1)] obtain P where
    "dev_process_reachable doc_fsl good_env sample_main sample_rounds sample_clients P" "main_at P = main_at (inside L)"
    by blast
  with L show ?thesis by (intro exI [of _ L] exI [of _ P]) simp
qed

text \<open>
  C8: The server comes to its end, or waits for a client. Once the setup has succeeded and if a signal comes
  some time, no run of the process goes on for ever, whatever finite sequences of bytes the clients send
  (in lines shorter than the buffer) and then hang up or stay silent, however the threads are scheduled and
  their system calls interleaved, as long as the sockets go on taking bytes. A state in which nothing can go
  on is one in which nobody holds the log lock, and either the process has exited with status 0, or the
  main thread has to join a thread that is receiving from a client which keeps its connection open and
  sends nothing more. No thread waits for the log lock for ever.
\<close>

theorem locked_server_ends:
  assumes "\<forall>t. productive (client_plan (cenv t))"
  shows "wf {(L', L). dev_locking_reachable fsl wenv env rounds cenv L \<and> dev_locking_step fsl wenv env cenv L L'}
    \<and> (\<forall>L. dev_locking_reachable fsl wenv env rounds cenv L \<longrightarrow>
         (\<exists>L'. dev_locking_step fsl wenv env cenv L L')
         \<or> log_lock L = None \<and> (main_at (inside L) = Exited EXIT_SUCCESS
             \<or> main_at (inside L) = Joining \<and> (\<exists>t args buffer len c. t = length (joined (process_of (inside L)))
                 \<and> workers (inside L) t = Some (args, Receiving [] buffer len, c) \<and> \<not> client_hangs_up (cenv t))))"
proof (intro conjI allI impI)
  have plans: "productive (client_plan (cenv t))" for t using assms by blast
  show "wf {(L', L). dev_locking_reachable fsl wenv env rounds cenv L \<and> dev_locking_step fsl wenv env cenv L L'}"
    by (rule dev_shared.locking_runs_end [OF plans])
  show "(\<exists>L'. dev_locking_step fsl wenv env cenv L L')
         \<or> log_lock L = None \<and> (main_at (inside L) = Exited EXIT_SUCCESS
             \<or> main_at (inside L) = Joining \<and> (\<exists>t args buffer len c. t = length (joined (process_of (inside L)))
                 \<and> workers (inside L) t = Some (args, Receiving [] buffer len, c) \<and> \<not> client_hangs_up (cenv t)))"
    if L: "dev_locking_reachable fsl wenv env rounds cenv L" for L
  proof (cases "\<exists>L'. dev_locking_step fsl wenv env cenv L L'")
    case False
    then have "log_lock L = None \<and> (main_at (inside L) = Exited EXIT_SUCCESS \<or> joins_idle cenv (inside L))"
      using dev_shared.locking_stuck_exited [OF L _ plans] by blast
    then show ?thesis by (auto simp: joins_idle_def elim!: waits_for_client.elims)
  qed simp
qed

theorem locked_server_ends_witness:
  "\<exists>L L'. dev_locking_reachable doc_fsl good_env sample_main sample_rounds sample_clients L
     \<and> dev_locking_step doc_fsl good_env sample_main sample_clients L L'
     \<and> wf {(L', L). dev_locking_reachable doc_fsl good_env sample_main sample_rounds sample_clients L
         \<and> dev_locking_step doc_fsl good_env sample_main sample_clients L L'}"
proof -
  have "\<forall>t. productive (client_plan (sample_clients t))" using sample_plans by blast
  from locked_server_ends [OF this, of doc_fsl good_env sample_main sample_rounds] sample_locked_reachable
  have "wf {(L', L). dev_locking_reachable doc_fsl good_env sample_main sample_rounds sample_clients L
         \<and> dev_locking_step doc_fsl good_env sample_main sample_clients L L'}"
    "(\<exists>L'. dev_locking_step doc_fsl good_env sample_main sample_clients sample_locked L')
       \<or> main_at (inside sample_locked) \<in> {Exited EXIT_SUCCESS, Joining}" by blast+
  moreover have "main_at (inside sample_locked) \<notin> {Exited EXIT_SUCCESS, Joining}"
    by (simp add: sample_locked_def sample_process_def)
  ultimately show ?thesis using sample_locked_reachable by blast
qed



text \<open>
  C17: When the server has exited, after any schedule, it has status 0, nobody holds the log lock, every
  thread that was started has come to its end and been joined, each has given back its buffer and closed
  its connection and its log file, once each, and the queue is empty. If memory and threads could be had for
  every connection, no queue item is left and no descriptor of the process is open; otherwise at most
  what had been taken for the one connection that could not be served is left: its descriptor, or the
  item, its descriptor and that of its log file.
\<close>

theorem locked_exit_clean:
  assumes "dev_locking_reachable fsl wenv env rounds cenv L" and "main_at (inside L) = Exited e"
    and "p = process_of (inside L)"
  shows "e = EXIT_SUCCESS \<and> log_lock L = None \<and> joined p = started p \<and> queue p = []
    \<and> (items p, length (open_fds p)) \<in> {(0, 0), (0, 1), (1, 2)}
    \<and> ((\<forall>i. item_ok (turns env i) \<and> create_ok (turns env i)) \<longrightarrow> items p = 0 \<and> open_fds p = [])
    \<and> (\<forall>t < length (started p). \<exists>c. workers (inside L) t = Some (started p ! t, Ended, c)
         \<and> blocks c = 0 \<and> closed c = [client_fd (started p ! t), file_fd (started p ! t)])"
  using dev_shared.locking_exit_books [OF assms(1,2)] assms(3) by simp

theorem locked_exit_clean_witness:
  "\<exists>L. dev_locking_reachable doc_fsl good_env sample_main sample_rounds sample_clients L
     \<and> log_lock L = None \<and> open_fds (process_of (inside L)) = [] \<and> items (process_of (inside L)) = 0"
proof -
  obtain L where L: "dev_locking_reachable doc_fsl good_env sample_main sample_rounds sample_clients L"
    "main_at (inside L) = Exited EXIT_SUCCESS" by (rule sample_locked_exits)
  from locked_exit_clean [OF L refl] L(1) show ?thesis by (auto simp: sample_main_def)
qed

end
