(* ===== verification/DriverDebug.thy ===== *)
theory DriverDebug
  imports DriverOps
begin

text \<open>
  The debug output: \<open>aesd_print\<close> of \<open>main.c\<close>, which no call site enables, and \<open>aesd_buffer_print\<close> of
  \<open>aesd-circular-buffer.c\<close>, which is compiled when \<open>DEBUG\<close> is 1. What is printed is a value of the
  model. \<open>%p\<close> prints a value that the kernel derives from the address, so it is an argument.
\<close>

section \<open>Printing strings\<close>

text \<open>
  At most \<open>n\<close> characters of a string: up to its terminating zero. Bytes that were never written, or
  lie past the end of the block, are not to be read.
\<close>

fun c_text :: "nat \<Rightarrow> char option list \<Rightarrow> string option" where
  "c_text 0 bs = Some []"
| "c_text (Suc n) [] = None"
| "c_text (Suc n) (None # bs) = None"
| "c_text (Suc n) (Some c # bs) = (if c = nul then Some [] else map_option ((#) c) (c_text n bs))"

text \<open>\<open>%.*s\<close> of the kernel; a null pointer and one into the first page are printed as such.\<close>

fun text_at :: "ptr \<Rightarrow> nat \<Rightarrow> 'z kheap_scheme \<Rightarrow> string option" where
  "text_at (Obj a) n s = (case objs s a of Some (KBytes bs) \<Rightarrow> c_text n bs | _ \<Rightarrow> None)"
| "text_at NULL n s = Some (take n ''(null)'')"
| "text_at ZERO_SIZE_PTR n s = Some (take n ''(efault)'')"

text \<open>The size is cast to \<open>int\<close>; the kernel limits a precision to the range from 0 to 32767.\<close>

definition PRECISION_MAX :: nat where "PRECISION_MAX = 32767"

definition precision :: "size_t \<Rightarrow> nat" where
  "precision n = min PRECISION_MAX (nat (sint (ucast n :: 32 word)))"

section \<open>aesd_print\<close>

abbreviation tab :: char where
  "tab \<equiv> CHR 0x09"

definition PDEBUG :: "string \<Rightarrow> string" where
  "PDEBUG t = ''aesdchar: '' @ t"

text \<open>The messages for one entry of the buffer, with index \<open>i\<close>, and for all of them.\<close>

definition print_entry :: "kstate \<Rightarrow> nat \<Rightarrow> aesd_buffer_entry \<Rightarrow> string list option" where
  "print_entry s i e = do {
     str \<leftarrow> (if entry_size e > 0
             then map_option (\<lambda>t. tab # ''String: '' @ t) (text_at (buffptr e) (precision (entry_size e)) s)
             else Some (tab # tab # ''String: {EMPTY}''));
     Some [PDEBUG (tab # ''Entry '' @ decimal i @ '':''),
           PDEBUG (tab # tab # ''Size: '' @ decimal (unat (entry_size e))), PDEBUG str]
   }"

fun print_entries :: "kstate \<Rightarrow> nat \<Rightarrow> aesd_buffer_entry list \<Rightarrow> string list option" where
  "print_entries s i [] = Some []"
| "print_entries s i (e # es) = do {
     ms \<leftarrow> print_entry s i e;
     rest \<leftarrow> print_entries s (Suc i) es;
     Some (ms @ rest)
   }"

fun load_sem :: "ptr \<Rightarrow> 'z kheap_scheme \<Rightarrow> nat option" where
  "load_sem (Obj a) s = (case objs s a of Some (KSem c) \<Rightarrow> Some c | _ \<Rightarrow> None)"
| "load_sem _ s = None"

text \<open>The messages before those for the entries; \<open>str\<close> shows the partial command.\<close>

definition print_header ::
  "(ptr \<Rightarrow> string) \<Rightarrow> aesd_dev \<Rightarrow> nat \<Rightarrow> aesd_buffer_entry \<Rightarrow> string \<Rightarrow> aesd_circular_buffer \<Rightarrow> string list"
where
  "print_header ptr_text device count te str cb =
     [[newline], ''Semaphore : '' @ ptr_text (aesd_dev_lock device), tab # ''Count: '' @ decimal count,
      [newline], ''Temp Entry : '' @ ptr_text (tempEntry device),
      tab # ''Size: '' @ decimal (unat (entry_size te)), str,
      [newline], ''Circular Buffer : '' @ ptr_text (circularBuffer device),
      tab # '' Write Offset : '' @ decimal (unat (in_offs cb)),
      tab # '' Read Offset : '' @ decimal (unat (out_offs cb))]"

definition aesd_print :: "(ptr \<Rightarrow> string) \<Rightarrow> kstate \<Rightarrow> (string list \<times> kstate) option" where
  "aesd_print ptr_text s = do {
     let device = aesd_device s;
     s1 \<leftarrow> down (aesd_dev_lock device) s;
     count \<leftarrow> load_sem (aesd_dev_lock device) s1;
     te \<leftarrow> load_entry (tempEntry device) s1;
     str \<leftarrow> (if entry_size te > 0
             then map_option (\<lambda>t. tab # ''String: '' @ t) (text_at (buffptr te) (precision (entry_size te)) s1)
             else Some (tab # ''String: {EMPTY}''));
     cb \<leftarrow> load_ring (circularBuffer device) s1;
     entries \<leftarrow> (if length (entry cb) < MAXW then None else print_entries s1 0 (take MAXW (entry cb)));
     s2 \<leftarrow> up (aesd_dev_lock device) s1;
     Some (map PDEBUG (print_header ptr_text device count te str cb) @ entries, s2)
   }"

section \<open>aesd_buffer_print\<close>

text \<open>The text for one entry, and for all of them. \<open>%s\<close> has no limit.\<close>

fun string_at :: "ptr \<Rightarrow> 'z kheap_scheme \<Rightarrow> string option" where
  "string_at (Obj a) s = (case objs s a of Some (KBytes bs) \<Rightarrow> c_text (Suc (length bs)) bs | _ \<Rightarrow> None)"
| "string_at _ s = None"

fun buffer_print_entries :: "'z kheap_scheme \<Rightarrow> nat \<Rightarrow> aesd_buffer_entry list \<Rightarrow> string option" where
  "buffer_print_entries s i [] = Some []"
| "buffer_print_entries s i (e # es) = do {
     t \<leftarrow> (if buffptr e = NULL then Some ''Empty'' else string_at (buffptr e) s);
     rest \<leftarrow> buffer_print_entries s (Suc i) es;
     Some (tab # ''Entry '' @ decimal i @ '': '' @ t @ '' '' @ tab # ''Size: '' @ decimal (unat (entry_size e))
       @ newline # rest)
   }"

definition aesd_buffer_print :: "aesd_circular_buffer \<Rightarrow> 'z kheap_scheme \<Rightarrow> string option" where
  "aesd_buffer_print buffer s = do {
     entries \<leftarrow> (if length (entry buffer) < MAXW then None else buffer_print_entries s 0 (take MAXW (entry buffer)));
     Some (''Printing Buffer with in_offs='' @ decimal (unat (in_offs buffer)) @ '' and out_offs=''
       @ decimal (unat (out_offs buffer)) @ '' and full='' @ decimal (if full buffer then 1 else 0)
       @ newline # entries @ [newline])
   }"

section \<open>What aesd_print shows\<close>

text \<open>What of a command is shown: up to a zero byte, and at most 32767 bytes.\<close>

definition shown :: "char list \<Rightarrow> string" where
  "shown x = takeWhile (\<lambda>c. c \<noteq> nul) (take PRECISION_MAX x)"

lemma c_text_block: "n \<le> length x \<Longrightarrow> c_text n (map Some x) = Some (takeWhile (\<lambda>c. c \<noteq> nul) (take n x))"
proof (induction x arbitrary: n)
  case Nil
  then show ?case by simp
next
  case (Cons c x)
  then show ?case by (cases n) auto
qed

lemma precision_small:
  assumes "unat n < 2 ^ 31"
  shows "precision n = min PRECISION_MAX (unat n)"
proof -
  obtain m where n: "n = word_of_nat m" "m < 2 ^ 31"
  proof
    show "n = word_of_nat (unat n)" by simp
  qed (rule assms)
  have "(ucast n :: 32 word) = word_of_nat m" unfolding n(1) using n(2)
    by (simp add: unsigned_of_nat take_bit_nat_eq_self)
  moreover have "unat n = m" using n by (simp add: unsigned_of_nat take_bit_nat_eq_self)
  moreover have "sint (word_of_nat m :: 32 word) = int m"
    using n(2) by (simp add: signed_of_nat signed_take_bit_int_eq_self)
  ultimately show ?thesis by (simp add: precision_def)
qed

lemma text_at_holds:
  assumes "holds (objs s) e x" and "length x < 2 ^ 31"
  shows "text_at (buffptr e) (precision (entry_size e)) s = Some (shown x)" "entry_size e > 0"
proof -
  obtain a where a: "buffptr e = Obj a" "objs s a = Some (KBytes (map Some x))" and len: "unat (entry_size e) = length x"
    and x: "x \<noteq> []" using assms(1) by (auto simp: holds_def)
  have "take (length x) x = x" by simp
  then show "text_at (buffptr e) (precision (entry_size e)) s = Some (shown x)"
    using a len assms(2) precision_small [of "entry_size e"]
    by (simp add: c_text_block shown_def min_def)
  show "entry_size e > 0" using len x by (simp add: word_less_nat_alt)
qed

definition string_line :: "char list \<Rightarrow> string" where
  "string_line x = PDEBUG (tab # ''String: '' @ shown x)"

definition printable :: "kstate \<Rightarrow> aesd_buffer_entry \<Rightarrow> bool" where
  "printable s e \<longleftrightarrow> e = zero_entry \<or> (\<exists>x. holds (objs s) e x \<and> length x < 2 ^ 31)"

lemma print_entries_all:
  assumes "\<forall>e \<in> set es. printable s e"
  shows "\<exists>ms. print_entries s i es = Some ms \<and> length ms = 3 * length es
    \<and> (\<forall>e \<in> set es. \<forall>x. holds (objs s) e x \<and> length x < 2 ^ 31 \<longrightarrow> string_line x \<in> set ms)"
  using assms
proof (induction es arbitrary: i)
  case Nil
  then show ?case by simp
next
  case (Cons e es)
  obtain ms where ms: "print_entries s (Suc i) es = Some ms" "length ms = 3 * length es"
    "\<forall>e \<in> set es. \<forall>x. holds (objs s) e x \<and> length x < 2 ^ 31 \<longrightarrow> string_line x \<in> set ms"
    using Cons.IH [of "Suc i"] Cons.prems by auto
  obtain ns where ns: "print_entry s i e = Some ns" "length ns = 3"
    "\<And>x. holds (objs s) e x \<Longrightarrow> length x < 2 ^ 31 \<Longrightarrow> string_line x \<in> set ns"
  proof (cases "e = zero_entry")
    case True
    show ?thesis by (rule that) (auto simp: True print_entry_def zero_entry_def holds_def)
  next
    case False
    then obtain x where x: "holds (objs s) e x" "length x < 2 ^ 31" using Cons.prems by (auto simp: printable_def)
    note t = text_at_holds [OF x]
    show ?thesis
    proof (rule that)
      show "print_entry s i e = Some [PDEBUG (tab # ''Entry '' @ decimal i @ '':''),
          PDEBUG (tab # tab # ''Size: '' @ decimal (unat (entry_size e))), string_line x]"
        using t by (simp add: print_entry_def string_line_def)
      show "string_line y \<in> set [PDEBUG (tab # ''Entry '' @ decimal i @ '':''),
          PDEBUG (tab # tab # ''Size: '' @ decimal (unat (entry_size e))), string_line x]"
        if "holds (objs s) e y" "length y < 2 ^ 31" for y
        using text_at_holds [OF that] t by (simp add: string_line_def)
    qed simp
  qed
  show ?case using ms ns by auto
qed

text \<open>
  In every state of the driver \<open>aesd_print\<close> returns, shows every stored command and the partial
  command, and leaves the device as it was, with the semaphore released.
\<close>

lemma aesd_print_shows:
  assumes rel: "driver_rel 1 s cmds pend L"
  shows "\<exists>msgs. aesd_print ptr_text s = Some (msgs, s) \<and> length msgs = 41
    \<and> (\<forall>x \<in> set cmds. string_line x \<in> set msgs) \<and> (pend \<noteq> [] \<longrightarrow> string_line pend \<in> set msgs)"
proof -
  obtain rc te lk cb t where core: "driver_core s rc te lk cb t 1 cmds pend L" using rel by (rule driver_relE)
  define s1 where "s1 = obj_update lk (Some (KSem 0)) s"
  have core1: "driver_core s1 rc te lk cb t 0 cmds pend L" unfolding s1_def by (rule core_sem [OF core])
  have down: "down (aesd_dev_lock (aesd_device s)) s = Some s1"
    using core_down [of s rc te lk cb t 0] core by (simp add: s1_def)
  have up: "up (aesd_dev_lock (aesd_device s)) s1 = Some s"
    using core_up [OF core1] core_places [OF core] by (simp add: s1_def obj_update_restore)
  note p = core_places [OF core1]
  have dev: "aesd_device s1 = aesd_device s" by (simp add: s1_def)
  have len10: "length (entry cb) = 10" using p(7) by (simp add: cb_hist_def cb_wf_def)
  have pr: "printable s1 e" if "e \<in> set (entry cb)" for e
  proof -
    have "e = zero_entry \<or> e \<in> set (ring_entries cb)" using entries_stored [OF p(7) that] by blast
    moreover have "\<exists>x. holds (objs s1) e x \<and> length x < 2 ^ 31" if stored: "e \<in> set (ring_entries cb)"
    proof -
      have l2: "list_all2 (holds (objs s1)) (ring_entries cb) cmds" using core1 by (simp add: driver_core_def)
      obtain k where "k < length (ring_entries cb)" "e = ring_entries cb ! k"
        using iffD1 [OF in_set_conv_nth stored] by blast
      then show ?thesis using list_all2_nthD [OF l2, of k] list_all2_lengthD [OF l2] core_entry(2) [OF core1, of k] by auto
    qed
    ultimately show ?thesis by (auto simp: printable_def)
  qed
  obtain ms where ms: "print_entries s1 0 (entry cb) = Some ms" "length ms = 30"
    "\<forall>e \<in> set (entry cb). \<forall>x. holds (objs s1) e x \<and> length x < 2 ^ 31 \<longrightarrow> string_line x \<in> set ms"
    using print_entries_all [of "entry cb" s1 0] pr len10 by auto
  have all: "string_line x \<in> set ms" if "x \<in> set cmds" for x
  proof -
    obtain k where k: "k < length cmds" "x = cmds ! k" using \<open>x \<in> set cmds\<close> by (auto simp: in_set_conv_nth)
    have "ring_idx cb k < length (entry cb)" by (simp add: len10 ring_idx_def)
    then show ?thesis using core_entry [OF core1 k(1)] k(2) ms(3) nth_mem by metis
  qed
  obtain str where str: "(if entry_size t > 0
      then map_option (\<lambda>u. tab # ''String: '' @ u) (text_at (buffptr t) (precision (entry_size t)) s1)
      else Some (tab # ''String: {EMPTY}'')) = Some str" "pend \<noteq> [] \<longrightarrow> PDEBUG str = string_line pend"
  proof (cases "pend = []")
    case True
    then have "entry_size t = 0" using core1 by (simp add: driver_core_def holds_temp_def)
    then show ?thesis using that True by simp
  next
    case False
    then have "holds (objs s1) t pend" "length pend < 2 ^ 31" using core1 by (auto simp: driver_core_def holds_temp_def)
    from text_at_holds [OF this] show ?thesis using that by (simp add: string_line_def)
  qed
  have "aesd_print ptr_text s = Some (map PDEBUG (print_header ptr_text (aesd_device s) 0 t str cb) @ ms, s)"
    unfolding aesd_print_def Let_def down
    using p(1-6) str(1) ms(1) up len10 by (simp add: dev)
  then show ?thesis using ms(2) all str(2) by (auto simp: print_header_def)
qed

text \<open>
  \<open>aesd_buffer_print\<close> takes an entry for a zero-terminated string. The commands of the driver are not,
  so with \<open>DEBUG\<close> set to 1 it would read past the end of a command that has no zero byte.
\<close>

lemma c_text_overruns: "nul \<notin> set x \<Longrightarrow> c_text (Suc (length x)) (map Some x) = None"
  by (induction x) auto

lemma buffer_print_entries_overruns:
  "e \<in> set es \<Longrightarrow> holds (objs s) e x \<Longrightarrow> nul \<notin> set x \<Longrightarrow> buffer_print_entries s i es = None"
proof (induction es arbitrary: i)
  case (Cons f es)
  show ?case
  proof (cases "e = f")
    case True
    then show ?thesis using Cons.prems c_text_overruns [of x] by (auto simp: holds_def simp del: c_text.simps)
  next
    case False
    then show ?thesis using Cons by (auto split: Option.bind_split)
  qed
qed simp

lemma aesd_buffer_print_overruns:
  assumes rel: "driver_rel c s cmds pend L" and cb: "ring_of s = Some cb"
    and x: "x \<in> set cmds" "nul \<notin> set x"
  shows "aesd_buffer_print cb s = None"
proof -
  obtain rc te lk cb' t where core: "driver_core s rc te lk cb' t c cmds pend L" using rel by (rule driver_relE)
  have cb': "cb' = cb" using core_ring [OF core] cb by simp
  obtain k where k: "k < length cmds" "x = cmds ! k" using x(1) by (auto simp: in_set_conv_nth)
  have len: "length (entry cb) = 10" using core_places(7) [OF core] cb' by (simp add: cb_hist_def cb_wf_def)
  then have "entry cb ! ring_idx cb k \<in> set (entry cb)" by (intro nth_mem) (simp add: ring_idx_def)
  with buffer_print_entries_overruns [OF this, of s x 0] core_entry(1) [OF core k(1)] k(2) x(2) cb' len
  show ?thesis by (simp add: aesd_buffer_print_def)
qed

end
