(* ===== verification/SystemCalls.thy ===== *)
theory SystemCalls
  imports Prelude
begin

unbundle bit_operations_syntax

text \<open>
  \<open>examples/systemcalls/systemcalls.c\<close>: running a command with \<open>system\<close>, and with \<open>fork\<close>,
  \<open>execv\<close> and \<open>waitpid\<close>, with the standard output redirected or not. The operating system is an
  argument: what \<open>fork\<close>, \<open>waitpid\<close>, \<open>open\<close> and \<open>dup2\<close> answer and what becomes of a program that
  \<open>execv\<close> starts. Error messages are left out.
\<close>

section \<open>Processes\<close>

text \<open>
  How a process ends, and the status word \<open>waitpid\<close> gives for it on Linux with its macros.
\<close>

datatype ending = Exited u8 | Killed u8

type_synonym status = "32 word"

definition wait_status :: "ending \<Rightarrow> status" where
  "wait_status e = (case e of Exited c \<Rightarrow> push_bit 8 (ucast c) | Killed sig \<Rightarrow> ucast sig AND 0x7f)"

definition WIFEXITED :: "status \<Rightarrow> bool" where "WIFEXITED st \<longleftrightarrow> st AND 0x7f = 0"
definition WEXITSTATUS :: "status \<Rightarrow> status" where "WEXITSTATUS st = drop_bit 8 st AND 0xff"

text \<open>\<open>exit\<close> with an \<open>int\<close> status: the low eight bits remain.\<close>

definition exit_with :: "32 word \<Rightarrow> ending" where
  "exit_with c = Exited (ucast c)"

text \<open>
  The table of open descriptors of a process, with the path each refers to. \<open>programs\<close> says how a
  program ends that is started with these descriptors; \<open>None\<close> if \<open>execv\<close> cannot start it.
\<close>

type_synonym fd_table = "int \<Rightarrow> string option"

record os =
  fork_ok :: bool
  waitpid_ok :: bool
  open_ans :: int
  dup2_ok :: bool
  system_ans :: "string option \<Rightarrow> status"
  programs :: "fd_table \<Rightarrow> string option \<Rightarrow> string option list \<Rightarrow> ending option"

text \<open>A function returns, or ends the process.\<close>

datatype outcome = Returns bool | Process_exits "32 word"

section \<open>The functions\<close>

definition do_system :: "os \<Rightarrow> string option \<Rightarrow> bool" where
  "do_system os cmd = (system_ans os cmd \<noteq> - 1)"

text \<open>
  The loop over the variable arguments; reading more of them than were passed is undefined.
\<close>

fun collect_args :: "nat \<Rightarrow> string option list \<Rightarrow> string option list option" where
  "collect_args 0 args = Some [None]"
| "collect_args (Suc n) [] = None"
| "collect_args (Suc n) (a # args) = map_option ((#) a) (collect_args n args)"

text \<open>The child: replaced by the program, or exiting with -1.\<close>

definition child_exec :: "os \<Rightarrow> fd_table \<Rightarrow> string option list \<Rightarrow> ending" where
  "child_exec os fds command =
     (case programs os fds (hd command) command of Some e \<Rightarrow> e | None \<Rightarrow> exit_with (- 1))"

definition do_exec :: "os \<Rightarrow> fd_table \<Rightarrow> nat \<Rightarrow> string option list \<Rightarrow> bool option" where
  "do_exec os fds count args =
     map_option (\<lambda>command.
       if \<not> fork_ok os then False
       else (let status = wait_status (child_exec os fds command)
             in if \<not> waitpid_ok os then False
                else if \<not> WIFEXITED status then False
                else if WEXITSTATUS status \<noteq> 0 then False
                else True))
       (collect_args count args)"

text \<open>\<open>dup2\<close> makes descriptor 1 refer to what \<open>fd\<close> refers to; then \<open>fd\<close> is closed.\<close>

definition child_redirect :: "os \<Rightarrow> fd_table \<Rightarrow> string \<Rightarrow> string option list \<Rightarrow> ending" where
  "child_redirect os fds outputfile command =
     (let fd = open_ans os
      in if fd < 0 then exit_with (- 1)
         else let fds1 = fds(fd := Some outputfile);
                  fds2 = (if dup2_ok os then fds1(1 := fds1 fd) else fds1);
                  fds3 = fds2(fd := None)
              in if \<not> dup2_ok os then exit_with (- 1) else child_exec os fds3 command)"

text \<open>\<open>WEXITSTATUS\<close> is compared with the \<open>int\<close> -1.\<close>

definition do_exec_redirect ::
  "os \<Rightarrow> fd_table \<Rightarrow> string \<Rightarrow> nat \<Rightarrow> string option list \<Rightarrow> outcome option" where
  "do_exec_redirect os fds outputfile count args =
     map_option (\<lambda>command.
       if \<not> fork_ok os then Process_exits (- 1)
       else (let status = wait_status (child_redirect os fds outputfile command)
             in if \<not> waitpid_ok os then Returns False
                else if WEXITSTATUS status = - 1 then Returns False
                else Returns True))
       (collect_args count args)"

section \<open>Status words\<close>

lemma masks: "(0xff :: 32 word) = mask 8" "(0x7f :: 32 word) = mask 7"
  by (simp_all add: mask_eq_exp_minus_1)

lemma ucast_u8_eq_0: "ucast (c :: u8) = (0 :: 32 word) \<longleftrightarrow> c = 0"
proof -
  have "unat (ucast c :: 32 word) = unat c" by (rule unat_ucast_up) simp
  then show ?thesis by (metis unsigned_0 unsigned_eq_0_iff)
qed

lemma status_exited:
  "WEXITSTATUS (wait_status (Exited c)) = ucast c" "WIFEXITED (wait_status (Exited c))"
proof -
  show "WEXITSTATUS (wait_status (Exited c)) = ucast c"
    unfolding WEXITSTATUS_def wait_status_def ending.case masks
    by (rule bit_word_eqI) (auto simp: bit_simps dest: bit_imp_le_length)
  have "push_bit 8 (ucast c :: 32 word) AND mask 7 = 0"
    by (rule bit_word_eqI) (auto simp: bit_simps)
  then show "WIFEXITED (wait_status (Exited c))"
    by (simp add: WIFEXITED_def wait_status_def masks)
qed

lemma status_killed: "WIFEXITED (wait_status (Killed sig)) \<longleftrightarrow> sig AND 0x7f = 0"
proof -
  have "(ucast sig AND 0x7f :: 32 word) = ucast (sig AND 0x7f)"
    by (rule bit_word_eqI) (auto simp: bit_simps dest: bit_imp_le_length)
  moreover have "wait_status (Killed sig) AND 0x7f = ucast sig AND 0x7f"
    by (simp add: wait_status_def and.assoc)
  ultimately show ?thesis unfolding WIFEXITED_def by (metis ucast_u8_eq_0)
qed

text \<open>The exit status has eight bits, so it is never -1.\<close>

lemma WEXITSTATUS_nonneg: "WEXITSTATUS st \<noteq> - 1"
proof
  assume "WEXITSTATUS st = - 1"
  then have "bit (WEXITSTATUS st) 31 = bit (- 1 :: status) 31" by simp
  then show False by (simp add: WEXITSTATUS_def bit_simps)
qed

lemma exit_failure_status: "exit_with (- 1) \<noteq> Exited 0"
proof -
  have "(ucast (- 1 :: 32 word) :: u8) = - 1" 
    by (rule bit_word_eqI) (simp add: bit_simps)
  then show ?thesis by (simp add: exit_with_def)
qed

lemma collect_args_eq:
  "collect_args n args = (if n \<le> length args then Some (take n args @ [None]) else None)"
  by (induction n args rule: collect_args.induct) auto

section \<open>Properties\<close>

text \<open>
  C29: \<open>do_exec\<close> returns true exactly when the child could be created and waited for and the program
  named by the first argument, started with the arguments and a final null, exited with status 0.
\<close>

theorem do_exec_true_iff:
  assumes "count \<le> length args"
    and "\<And>fds path argv sig. programs os fds path argv = Some (Killed sig) \<Longrightarrow> sig AND 0x7f \<noteq> 0"
  shows "do_exec os fds count args = Some (fork_ok os \<and> waitpid_ok os
    \<and> programs os fds (hd (take count args @ [None])) (take count args @ [None]) = Some (Exited 0))"
proof -
  let ?c = "take count args @ [None]"
  have "WIFEXITED (wait_status (child_exec os fds ?c)) \<and> WEXITSTATUS (wait_status (child_exec os fds ?c)) = 0
    \<longleftrightarrow> programs os fds (hd ?c) ?c = Some (Exited 0)"
  proof (cases "programs os fds (hd ?c) ?c")
    case None
    then show ?thesis using exit_failure_status
      by (auto simp: child_exec_def exit_with_def status_exited ucast_u8_eq_0)
  next
    case (Some e)
    then show ?thesis using assms(2)
      by (cases e) (auto simp: child_exec_def status_exited status_killed ucast_u8_eq_0)
  qed
  then show ?thesis using assms(1) by (auto simp: do_exec_def collect_args_eq Let_def)
qed

definition sample_os :: os where
  "sample_os = \<lparr>fork_ok = True, waitpid_ok = True, open_ans = 3, dup2_ok = True,
     system_ans = (\<lambda>cmd. wait_status (Exited 1)),
     programs = (\<lambda>fds path argv. if path = Some ''/bin/true'' then Some (Exited 0)
       else if path = Some ''/bin/false'' then Some (Exited 1) else None)\<rparr>"

lemma sample_os_exits: "programs sample_os fds path argv \<noteq> Some (Killed sig)"
  by (simp add: sample_os_def)

theorem do_exec_true_iff_witness:
  "do_exec sample_os Map.empty 1 [Some ''/bin/true''] = Some True"
  using do_exec_true_iff [of 1 "[Some ''/bin/true'']" sample_os Map.empty] sample_os_exits
  by (simp add: sample_os_def)

text \<open>
  \<open>do_exec_redirect\<close> reports success whenever the child could be created and waited for, whatever
  became of it: the program may not exist, fail or be killed, or the file may not open. If no child
  can be created the caller's process exits.
\<close>

lemma do_exec_redirect_ignores_status:
  assumes "count \<le> length args"
  shows "do_exec_redirect os fds outputfile count args =
    Some (if fork_ok os then Returns (waitpid_ok os) else Process_exits (- 1))"
  using assms by (simp add: do_exec_redirect_def collect_args_eq WEXITSTATUS_nonneg Let_def)

lemma do_exec_redirect_ignores_status_witness:
  "do_exec_redirect sample_os Map.empty ''out'' 1 [Some ''/bin/false''] = Some (Returns True)"
  using do_exec_redirect_ignores_status [of 1 "[Some ''/bin/false'']" sample_os Map.empty "''out''"]
  by (simp add: sample_os_def)

text \<open>
  The child of \<open>do_exec_redirect\<close> runs the program with its standard output on the file and no
  other descriptor on it, if the file got a descriptor other than the standard output's.
\<close>

lemma redirect_runs_with_stdout:
  assumes "0 \<le> open_ans os" and "open_ans os \<noteq> 1" and "dup2_ok os"
  shows "child_redirect os fds outputfile command =
    child_exec os (fds(1 := Some outputfile, open_ans os := None)) command"
  using assms by (simp add: child_redirect_def Let_def)

end
