(* ===== verification/Threading.thy ===== *)
theory Threading
  imports StateMachine
begin

text \<open>
  \<open>examples/threading/threading.c\<close>: threads that wait, take a mutex, hold it for a while and give
  it back. The program is a transition system: every thread is at one of the calls of
  \<open>threadfunc\<close>, a clock counts microseconds, and the steps of the threads interleave freely. The
  mutex is used by these threads only.
\<close>

section \<open>State\<close>

record thread_data =
  wait_to_obtain_ms :: int
  wait_to_release_ms :: int
  thread_complete_success :: bool

text \<open>Where a thread is; the number is the time at which \<open>usleep\<close> returns.\<close>

datatype point = Starting | Sleeping nat | Locking | Holding nat | Released | Finished

record thread_system =
  clock :: nat
  owner :: "nat option"
  threads :: "nat \<Rightarrow> (point \<times> thread_data) option"
  thread_blocks :: nat

text \<open>\<open>usleep\<close> takes microseconds; the \<open>int\<close> is converted to \<open>useconds_t\<close>.\<close>

definition usleep_us :: "int \<Rightarrow> nat" where
  "usleep_us n = unat (word_of_int n :: u32)"

definition put_thread :: "nat \<Rightarrow> point \<Rightarrow> thread_data \<Rightarrow> thread_system \<Rightarrow> thread_system" where
  "put_thread t pc d S = S\<lparr>threads := (threads S)(t \<mapsto> (pc, d))\<rparr>"

section \<open>threadfunc\<close>

inductive threadfunc :: "nat \<Rightarrow> thread_system \<Rightarrow> thread_system \<Rightarrow> bool" where
  wait_before: "threads S t = Some (Starting, d) \<Longrightarrow>
    threadfunc t S (put_thread t (Sleeping (clock S + usleep_us (wait_to_obtain_ms d))) d S)"
| woken: "threads S t = Some (Sleeping u, d) \<Longrightarrow> u \<le> clock S \<Longrightarrow>
    threadfunc t S (put_thread t Locking d S)"
| lock_mutex: "threads S t = Some (Locking, d) \<Longrightarrow> owner S = None \<Longrightarrow>
    threadfunc t S (put_thread t (Holding (clock S + usleep_us (wait_to_release_ms d))) d
      (S\<lparr>owner := Some t\<rparr>))"
| unlock_mutex: "threads S t = Some (Holding u, d) \<Longrightarrow> u \<le> clock S \<Longrightarrow>
    threadfunc t S (put_thread t Released d (S\<lparr>owner := None\<rparr>))"
| complete: "threads S t = Some (Released, d) \<Longrightarrow>
    threadfunc t S (put_thread t Finished (d\<lparr>thread_complete_success := True\<rparr>) S)"

section \<open>Starting a thread\<close>

text \<open>
  The arguments say whether \<open>malloc\<close> and \<open>pthread_create\<close> succeed; \<open>t\<close> is the identifier of the
  new thread. The result is the returned value and the identifier stored for the caller, if any.
\<close>

definition start_thread_obtaining_mutex ::
  "bool \<Rightarrow> bool \<Rightarrow> nat \<Rightarrow> int \<Rightarrow> int \<Rightarrow> thread_system \<Rightarrow> bool \<times> nat option \<times> thread_system" where
  "start_thread_obtaining_mutex malloc_ok create_ok t obtain_ms release_ms S =
     (if \<not> malloc_ok then (False, None, S)
      else let S1 = S\<lparr>thread_blocks := thread_blocks S + 1\<rparr>;
               d = \<lparr>wait_to_obtain_ms = obtain_ms, wait_to_release_ms = release_ms,
                    thread_complete_success = False\<rparr>
           in if create_ok then (True, Some t, put_thread t Starting d S1)
              else (False, None, S1\<lparr>thread_blocks := thread_blocks S1 - 1\<rparr>))"

section \<open>The program\<close>

inductive th_step :: "thread_system \<Rightarrow> thread_system \<Rightarrow> bool" where
  th_tick: "th_step S (S\<lparr>clock := clock S + 1\<rparr>)"
| th_run: "threadfunc t S T \<Longrightarrow> th_step S T"
| th_start: "start_thread_obtaining_mutex m c t a b S = (r, ident, T) \<Longrightarrow> threads S t = None \<Longrightarrow> th_step S T"

inductive_cases threadfuncE: "threadfunc t S T"
inductive_cases th_stepE: "th_step S T"

definition th_init :: "thread_system \<Rightarrow> bool" where
  "th_init S \<longleftrightarrow> owner S = None \<and> threads S = (\<lambda>t. None) \<and> thread_blocks S = 0"

text \<open>
  The mutex is owned by the thread that is between locking and unlocking, if there is one, and a
  thread has reported success only when it is finished.
\<close>

definition th_inv :: "thread_system \<Rightarrow> bool" where
  "th_inv S \<longleftrightarrow> (\<forall>t. owner S = Some t \<longleftrightarrow> (\<exists>u d. threads S t = Some (Holding u, d)))
     \<and> (\<forall>t pc d. threads S t = Some (pc, d) \<longrightarrow> thread_complete_success d = (pc = Finished))"

lemma put_thread_simps [simp]:
  "threads (put_thread t pc d S) = (threads S)(t \<mapsto> (pc, d))" "owner (put_thread t pc d S) = owner S"
  "clock (put_thread t pc d S) = clock S" "thread_blocks (put_thread t pc d S) = thread_blocks S"
  by (simp_all add: put_thread_def)

lemma threadfunc_inv: "th_inv S \<Longrightarrow> threadfunc t S T \<Longrightarrow> th_inv T"
  by (erule threadfunc.cases) (auto simp: th_inv_def, metis option.inject)

lemma start_inv:
  assumes "th_inv S" and "threads S t = None"
    and "start_thread_obtaining_mutex m c t a b S = (r, ident, T)"
  shows "th_inv T"
  using assms by (auto simp: start_thread_obtaining_mutex_def th_inv_def Let_def split: if_splits)

lemma th_step_inv: "th_inv S \<Longrightarrow> th_step S T \<Longrightarrow> th_inv T"
  by (erule th_step.cases) (auto dest: threadfunc_inv start_inv, simp add: th_inv_def)

interpretation mutex_program: invariant_of th_init th_step th_inv
proof (unfold_locales, goal_cases)
  case (1 S)
  then show ?case by (simp add: th_init_def th_inv_def)
next
  case (2 S T)
  then show ?case by (rule th_step_inv)
qed

section \<open>Properties\<close>

text \<open>
  C27: However the threads interleave, at most one holds the mutex at any time, the mutex is owned
  exactly while one does, and a thread has reported success only after it gave the mutex back.
\<close>

theorem mutual_exclusion:
  assumes "reachable th_init th_step S"
  shows "(\<forall>t u d t' u' d'. threads S t = Some (Holding u, d) \<and> threads S t' = Some (Holding u', d') \<longrightarrow> t = t')
    \<and> (owner S = None \<longleftrightarrow> (\<forall>t u d. threads S t \<noteq> Some (Holding u, d)))
    \<and> (\<forall>t pc d. threads S t = Some (pc, d) \<and> thread_complete_success d \<longrightarrow> pc = Finished)"
proof -
  have inv: "th_inv S" using assms by (rule mutex_program.reachable_inv)
  then have own: "\<And>t. owner S = Some t \<longleftrightarrow> (\<exists>u d. threads S t = Some (Holding u, d))"
    by (simp add: th_inv_def)
  have "t = t'" if "threads S t = Some (Holding u, d)" "threads S t' = Some (Holding u', d')" for t t' u u' d d'
    using own [of t] own [of t'] that by auto
  moreover have "owner S = None \<longleftrightarrow> (\<forall>t u d. threads S t \<noteq> Some (Holding u, d))"
    using own by (metis option.collapse option.discI)
  moreover have "pc = Finished" if "threads S t = Some (pc, d)" "thread_complete_success d" for t pc d
    using inv that by (simp add: th_inv_def)
  ultimately show ?thesis by blast
qed

lemma at_once: "threadfunc t' S T \<Longrightarrow> \<exists>n t' T. threadfunc t' (S\<lparr>clock := clock S + n\<rparr>) T"
  by (rule exI [of _ 0]) auto

definition no_threads :: thread_system where
  "no_threads = \<lparr>clock = 0, owner = None, threads = (\<lambda>t. None), thread_blocks = 0\<rparr>"

definition sample_data :: thread_data where
  "sample_data = \<lparr>wait_to_obtain_ms = 2, wait_to_release_ms = 3, thread_complete_success = False\<rparr>"

definition one_thread :: thread_system where
  "one_thread = snd (snd (start_thread_obtaining_mutex True True 7 2 3 no_threads))"

lemma one_thread_simps [simp]:
  "threads one_thread = [7 \<mapsto> (Starting, sample_data)]" "owner one_thread = None" "clock one_thread = 0"
  by (simp_all add: one_thread_def no_threads_def start_thread_obtaining_mutex_def sample_data_def Let_def)

lemma one_thread_reachable: "reachable th_init th_step one_thread"
proof -
  have "th_init no_threads" by (simp add: th_init_def no_threads_def)
  moreover have "th_step no_threads one_thread"
    by (rule th_start [where m = True and c = True and t = 7 and a = 2 and b = 3 and r = True and ident = "Some 7"])
      (simp_all add: one_thread_def start_thread_obtaining_mutex_def no_threads_def Let_def)
  ultimately show ?thesis by (meson reach_start reach_step)
qed

theorem mutual_exclusion_witness:
  "\<exists>S. reachable th_init th_step S \<and> threads S 7 \<noteq> None
    \<and> (owner S = None \<longleftrightarrow> (\<forall>t u d. threads S t \<noteq> Some (Holding u, d)))"
  using mutual_exclusion [OF one_thread_reachable] one_thread_reachable
  by (intro exI [of _ one_thread]) simp

text \<open>
  C28: The program never gets stuck: whenever some thread has not finished, some thread can go on
  after a while.
\<close>

theorem threads_progress:
  assumes "reachable th_init th_step S" and "threads S t = Some (pc, d)" and "pc \<noteq> Finished"
  shows "\<exists>n t' T. threadfunc t' (S\<lparr>clock := clock S + n\<rparr>) T"
proof -
  have inv: "th_inv S" using assms(1) by (rule mutex_program.reachable_inv)
  show ?thesis
  proof (cases pc)
    case Starting
    then show ?thesis using assms(2) wait_before [of S t d] by (auto intro: at_once)
  next
    case (Sleeping u)
    then show ?thesis using assms(2) woken [of "S\<lparr>clock := clock S + u\<rparr>" t u d] by auto
  next
    case Locking
    show ?thesis
    proof (cases "owner S")
      case None
      then show ?thesis using assms(2) Locking lock_mutex [of S t d] by (auto intro: at_once)
    next
      case (Some t')
      then obtain u d' where "threads S t' = Some (Holding u, d')"
        using inv unfolding th_inv_def by blast
      then show ?thesis using unlock_mutex [of "S\<lparr>clock := clock S + u\<rparr>" t' u d'] by auto
    qed
  next
    case (Holding u)
    then show ?thesis using assms(2) unlock_mutex [of "S\<lparr>clock := clock S + u\<rparr>" t u d] by auto
  next
    case Released
    then show ?thesis using assms(2) complete [of S t d] by (auto intro: at_once)
  next
    case Finished
    with assms(3) show ?thesis by simp
  qed
qed

theorem threads_progress_witness:
  "\<exists>n t T. threadfunc t (one_thread\<lparr>clock := clock one_thread + n\<rparr>) T"
  using threads_progress [OF one_thread_reachable, of 7 Starting sample_data] by simp

text \<open>
  \<open>start_thread_obtaining_mutex\<close> returns true exactly when memory and a thread could be had;
  then the thread is at its start with the waiting times given and one block is in use for it, and
  its identifier is stored; otherwise nothing has changed, and no memory is kept.
\<close>

lemma start_thread_result:
  "start_thread_obtaining_mutex malloc_ok create_ok t obtain_ms release_ms S =
     (if malloc_ok \<and> create_ok
      then (True, Some t, (put_thread t Starting \<lparr>wait_to_obtain_ms = obtain_ms,
              wait_to_release_ms = release_ms, thread_complete_success = False\<rparr> S)
              \<lparr>thread_blocks := thread_blocks S + 1\<rparr>)
      else (False, None, S))"
  by (cases S) (simp add: start_thread_obtaining_mutex_def put_thread_def Let_def)

text \<open>
  The waiting times count microseconds, not milliseconds: a thread that runs alone can finish,
  successfully, after as many microseconds as the two numbers say.
\<close>

lemma waits_are_microseconds:
  assumes "threads S t = Some (Starting, d)" and "owner S = None"
    and "0 \<le> wait_to_obtain_ms d" "wait_to_obtain_ms d < 2 ^ 31"
      "0 \<le> wait_to_release_ms d" "wait_to_release_ms d < 2 ^ 31"
  shows "\<exists>T. th_step\<^sup>*\<^sup>* S T \<and> threads T t = Some (Finished, d\<lparr>thread_complete_success := True\<rparr>)
    \<and> clock T = clock S + nat (wait_to_obtain_ms d) + nat (wait_to_release_ms d)"
proof -
  have us: "usleep_us (wait_to_obtain_ms d) = nat (wait_to_obtain_ms d)"
    "usleep_us (wait_to_release_ms d) = nat (wait_to_release_ms d)"
    using assms(3-6) 
    by (simp_all add: usleep_us_def unat_eq_nat_uint uint_word_of_int_eq take_bit_int_eq_self)
  let ?a = "nat (wait_to_obtain_ms d)" and ?b = "nat (wait_to_release_ms d)"
  have ticks: "th_step\<^sup>*\<^sup>* X (X\<lparr>clock := clock X + n\<rparr>)" for X n
  proof (induction n)
    case (Suc n)
    have "th_step (X\<lparr>clock := clock X + n\<rparr>) (X\<lparr>clock := clock X + Suc n\<rparr>)"
      using th_tick [of "X\<lparr>clock := clock X + n\<rparr>"] by simp
    with Suc.IH show ?case by (rule rtranclp.rtrancl_into_rtrancl)
  qed simp
  define S1 where "S1 = put_thread t (Sleeping (clock S + ?a)) d S"
  define S2 where "S2 = put_thread t Locking d (S1\<lparr>clock := clock S1 + ?a\<rparr>)"
  define S3 where "S3 = put_thread t (Holding (clock S2 + ?b)) d (S2\<lparr>owner := Some t\<rparr>)"
  define S4 where "S4 = put_thread t Released d ((S3\<lparr>clock := clock S3 + ?b\<rparr>)\<lparr>owner := None\<rparr>)"
  define S5 where "S5 = put_thread t Finished (d\<lparr>thread_complete_success := True\<rparr>) S4"
  have s1: "th_step S S1" using th_run [OF wait_before [OF assms(1)]] us by (simp add: S1_def)
  have s2: "th_step (S1\<lparr>clock := clock S1 + ?a\<rparr>) S2"
    unfolding S2_def by (rule th_run, rule woken [where u = "clock S + ?a"]) (simp_all add: S1_def)
  have s3: "th_step S2 S3"
    unfolding S3_def us(2) [symmetric] by (rule th_run, rule lock_mutex) (simp_all add: S2_def S1_def assms(2))
  have s4: "th_step (S3\<lparr>clock := clock S3 + ?b\<rparr>) S4"
    unfolding S4_def by (rule th_run, rule unlock_mutex [where u = "clock S2 + ?b"]) (simp_all add: S3_def)
  have s5: "th_step S4 S5" unfolding S5_def by (rule th_run, rule complete) (simp add: S4_def)
  have "th_step\<^sup>*\<^sup>* S S5"
    using s1 ticks [of S1 ?a] s2 s3 ticks [of S3 ?b] s4 s5
    by (meson converse_rtranclp_into_rtranclp r_into_rtranclp rtranclp_trans)
  moreover have "clock S5 = clock S + ?a + ?b" by (simp add: S5_def S4_def S3_def S2_def S1_def)
  ultimately show ?thesis by (auto simp: S5_def)
qed

lemma waits_are_microseconds_witness:
  "\<exists>T. th_step\<^sup>*\<^sup>* one_thread T \<and> clock T = 5
    \<and> threads T 7 = Some (Finished, sample_data\<lparr>thread_complete_success := True\<rparr>)"
  using waits_are_microseconds [of one_thread 7 sample_data] by (auto simp: sample_data_def)

end
