(* ===== verification/Writer.thy ===== *)
theory Writer
  imports Server
begin

text \<open>
  \<open>finder-app/writer.c\<close>: a program that writes one string to a file. The file is the list of bytes
  written to it; \<open>plan\<close> gives the answer to each \<open>write\<close>. The loop may run for ever, so it is a
  partial function. Messages are left out.
\<close>

record writer_state =
  file_bytes :: "char list"
  writes :: nat
  file_open :: bool

text \<open>\<open>write\<close> of the first \<open>len\<close> bytes of the string; it takes at most those.\<close>

definition fd_write :: "(nat \<Rightarrow> write_answer) \<Rightarrow> char list \<Rightarrow> writer_state \<Rightarrow> nat sys \<times> writer_state" where
  "fd_write plan bytes s =
     (let s1 = s\<lparr>writes := Suc (writes s)\<rparr>
      in case plan (writes s) of
           Takes n \<Rightarrow> (Inr (min n (length bytes)), s1\<lparr>file_bytes := file_bytes s @ take n bytes\<rparr>)
         | Write_fails e \<Rightarrow> (Inl e, s1))"

text \<open>
  The loop. Each round writes from the start of the string (\<open>currentChar\<close> is advanced but not
  used), and \<open>write\<close> returning 0 ends it.
\<close>

partial_function (option) writer_loop ::
  "(nat \<Rightarrow> write_answer) \<Rightarrow> char list \<Rightarrow> nat \<Rightarrow> writer_state \<Rightarrow> writer_state option"
where
  "writer_loop plan stringToWrite len s =
     (if len = 0 then Some s
      else (case fd_write plan (take len stringToWrite) s of
              (Inl e, s1) \<Rightarrow> if e = EINTR then writer_loop plan stringToWrite len s1 else Some s1
            | (Inr n, s1) \<Rightarrow> if n = 0 then Some s1 else writer_loop plan stringToWrite (len - n) s1))"

text \<open>The arguments include the name of the program; a missing one is \<open>None\<close>.\<close>

definition writer_main ::
  "bool \<Rightarrow> (nat \<Rightarrow> write_answer) \<Rightarrow> string option list \<Rightarrow> (int \<times> writer_state option) option" where
  "writer_main creat_ok plan argv =
     (if length argv \<noteq> 3 then Some (1, None)
      else (case argv ! 1 of
         None \<Rightarrow> Some (1, None)
       | Some filePath \<Rightarrow>
           (case argv ! 2 of
              None \<Rightarrow> Some (1, None)
            | Some stringToWrite \<Rightarrow>
                if stringToWrite = [] then Some (1, None)
                else if \<not> creat_ok then Some (1, None)
                else map_option (\<lambda>s. (0, Some (s\<lparr>file_open := False\<rparr>)))
                       (writer_loop plan stringToWrite (length stringToWrite)
                         \<lparr>file_bytes = [], writes = 0, file_open = True\<rparr>))))"

lemma writer_loop_step:
  "writer_loop plan str len s =
     (if len = 0 then Some s
      else (case fd_write plan (take len str) s of
              (Inl e, s1) \<Rightarrow> if e = EINTR then writer_loop plan str len s1 else Some s1
            | (Inr n, s1) \<Rightarrow> if n = 0 then Some s1 else writer_loop plan str (len - n) s1))"
  by (subst writer_loop.simps) simp

text \<open>Interruptions do nothing.\<close>

lemma writer_loop_interrupted:
  assumes "\<forall>i < k. plan (writes s + i) = Write_fails EINTR"
  shows "writer_loop plan str len s = writer_loop plan str len (s\<lparr>writes := writes s + (if len = 0 then 0 else k)\<rparr>)"
  using assms
proof (induction k arbitrary: s)
  case (Suc k)
  have "plan (writes s) = Write_fails EINTR" using Suc.prems by (metis add_0_right zero_less_Suc)
  then have "len \<noteq> 0 \<Longrightarrow> writer_loop plan str len s = writer_loop plan str len (s\<lparr>writes := Suc (writes s)\<rparr>)"
    by (subst writer_loop_step) (simp add: fd_write_def)
  moreover have "\<forall>i < k. plan (writes (s\<lparr>writes := Suc (writes s)\<rparr>) + i) = Write_fails EINTR"
    using Suc.prems by auto
  note Suc.IH [OF this]
  ultimately show ?case by simp
qed simp

section \<open>Properties\<close>

text \<open>
  C40: With the right arguments, and if \<open>write\<close> takes the whole string, after any number of
  interruptions, the file holds exactly the string, it is closed, and the status is 0.
\<close>

theorem writer_writes_string:
  assumes "str \<noteq> []" and "\<forall>i < k. plan i = Write_fails EINTR" and "plan k = Takes n" and "length str \<le> n"
  shows "\<exists>s. writer_main True plan [Some prog, Some path, Some str] = Some (0, Some s)
    \<and> file_bytes s = str \<and> \<not> file_open s"
proof -
  let ?s = "\<lparr>file_bytes = [], writes = 0, file_open = True\<rparr>"
  have "writer_loop plan str (length str) ?s = writer_loop plan str (length str) (?s\<lparr>writes := k\<rparr>)"
    using writer_loop_interrupted [of k plan ?s str "length str"] assms(1,2) by simp
  also have "\<dots> = Some \<lparr>file_bytes = str, writes = Suc k, file_open = True\<rparr>"
    using assms by (subst writer_loop_step) (simp add: fd_write_def writer_loop_step)
  finally show ?thesis using assms(1) by (simp add: writer_main_def)
qed

theorem writer_writes_string_witness:
  "\<exists>s. writer_main True (\<lambda>i. if i = 0 then Write_fails EINTR else Takes 100)
      [Some ''writer'', Some ''/tmp/f'', Some ''hello''] = Some (0, Some s) \<and> file_bytes s = ''hello''"
  using writer_writes_string [of "''hello''" 1 "\<lambda>i. if i = 0 then Write_fails EINTR else Takes 100" 100
      "''writer''" "''/tmp/f''"] by auto

text \<open>
  If the first \<open>write\<close> takes only a part of the string, the next one starts again at the
  beginning of the string: the file ends up with the part twice over and without the end of the
  string, and the status is still 0.
\<close>

lemma writer_partial_write_repeats:
  assumes "0 < n" and "n < length str" and "plan 0 = Takes n" and "plan 1 = Takes m"
    and "length str - n \<le> m"
  shows "\<exists>s. writer_main True plan [Some prog, Some path, Some str] = Some (0, Some s)
    \<and> file_bytes s = take n str @ take (length str - n) str"
proof -
  have ne: "str \<noteq> []" using assms(2) by auto
  have "writer_loop plan str (length str) \<lparr>file_bytes = [], writes = 0, file_open = True\<rparr>
      = Some \<lparr>file_bytes = take n str @ take (length str - n) str, writes = 2, file_open = True\<rparr>"
    using assms ne
    by (subst writer_loop_step) (simp add: fd_write_def, subst writer_loop_step,
        simp add: fd_write_def writer_loop_step min_def)
  then show ?thesis using ne by (simp add: writer_main_def)
qed

end
