(* ===== verification/Autotest.thy ===== *)
theory Autotest
  imports Prelude
begin

text \<open>
  The functions of \<open>examples/autotest-validate\<close>, the program that prints their results, and the unit
  test of \<open>student-test/assignment1\<close>. What the test finds in the configuration file (code of the
  autotest submodule) is an argument; the result is whether its assertion holds.
\<close>

definition this_function_returns_true :: bool where
  "this_function_returns_true = True"

definition this_function_returns_false :: bool where
  "this_function_returns_false = False"

definition my_username :: string where
  "my_username = ''DonavonFaceyCU''"

definition git_username :: string where
  "git_username = ''akshita-bhasin''"

definition validate_main :: "string list" where
  "validate_main =
     [''this_function_returns_true returned '' @ (if this_function_returns_true then ''true'' else ''false'') @ [newline],
      ''this_function_returns_false returned '' @ (if this_function_returns_false then ''true'' else ''false'') @ [newline]]"

definition test_validate_my_username :: "string \<Rightarrow> bool" where
  "test_validate_my_username test_username \<longleftrightarrow> test_username = my_username"

text \<open>The test holds for the name in \<open>conf/username.txt\<close>, and not for the other name in the program.\<close>

lemma username_test:
  "test_validate_my_username ''DonavonFaceyCU''" "\<not> test_validate_my_username git_username"
  by (simp_all add: test_validate_my_username_def my_username_def git_username_def)

lemma validate_output:
  "validate_main = [''this_function_returns_true returned true'' @ [newline],
     ''this_function_returns_false returned false'' @ [newline]]"
  by (simp add: validate_main_def this_function_returns_true_def this_function_returns_false_def)

end
