(* ===== verification/Spec2Isabelle.thy ===== *)
theory Spec2Isabelle
  imports DriverProperties ServerProperties LockingProperties DriverDebug SystemCalls Threading Writer Autotest
begin

text \<open>
  A verification library for the C programs of this repository: a Linux character driver that keeps
  the last ten commands written to it, a socket server that stores the packets of its clients there
  and sends the log back, and three small programs.

  \<^bold>\<open>The programs and how they interact.\<close>
  The driver (\<open>aesd-char-driver/main.c\<close>) collects the bytes of \<open>write\<close> in a partial command until a
  newline completes it, and then hands the command to a circular buffer of ten entries
  (\<open>aesd-circular-buffer.c\<close>), which takes over its memory and gives back the memory of the command it
  replaces. \<open>read\<close>, \<open>llseek\<close> and the seek command of \<open>ioctl\<close> address the concatenation of the stored
  commands; a semaphore guards the device. The server (\<open>server/aesdsocket.c\<close>) starts a thread for
  every connection; the thread cuts what it receives into packets at newlines, writes each to the
  log (the driver, or a file in another build) or turns it into a seek, and sends the log back from
  the position of the file. A lock makes the writing, the seeking and the sending back one section
  each. The main thread accepts connections until a signal, then joins the threads; in the file
  build a timer adds time stamps to the log. \<open>examples/systemcalls\<close>, \<open>examples/threading\<close> and
  \<open>finder-app/writer.c\<close> are programs of their own.

  \<^bold>\<open>The theories.\<close>
  \<^item> \<open>Prelude\<close>: machine integers, pointers, error numbers, facts on lists, options and words.
  \<^item> \<open>RecentLog\<close>: the contract (a locale) of a log of the most recent elements.
    \<open>StateMachine\<close>: reachable states and the contract of an invariant. \<open>Simulation\<close>: refinement of
    an operation, and of every sequence of its calls.
  \<^item> \<open>CircularBuffer\<close>: \<open>aesd-circular-buffer.h\<close> and \<open>.c\<close>. The entries are a list of length ten, the
    offsets are bytes. It meets \<open>recent_log\<close> on the list \<open>ring_entries\<close> of entries in use.
  \<^item> \<open>KernelHeap\<close>: objects, \<open>kmalloc\<close>, \<open>krealloc\<close>, \<open>kfree\<close>, \<open>memcpy\<close>, user copies, semaphores.
  \<^item> \<open>Driver\<close>: the device structure and the file operations of \<open>main.c\<close>, on that heap.
    \<open>DriverMemory\<close> relates the heap to the list of commands and the partial command (\<open>driver_rel\<close>);
    \<open>DriverOps\<close> proves that each operation computes its specification \<open>spec_write\<close>, \<open>spec_read\<close>,
    \<open>spec_seek_bytes\<close>; \<open>DriverModule\<close> has loading and unloading; \<open>DriverSystem\<close> the driver with any
    number of open files as a state machine; \<open>DriverCalls\<close> sequences of calls against an abstract
    driver; \<open>DriverUse\<close> typical sequences on the abstract driver; \<open>DriverDebug\<close> the debug output.
  \<^item> \<open>LogDevice\<close>: the system calls on an open file, and the contract \<open>log_device\<close> of a file the server
    can log to. \<open>Server\<close>: the client thread (\<open>client_handler\<close>, \<open>receivePackets\<close>,
    \<open>sendFileToSocket\<close>). \<open>ServerLoops\<close> and \<open>ServerSession\<close> prove, inside the contract, that it
    computes the abstract session \<open>serve\<close>; \<open>ServerOnDriver\<close> and \<open>ServerOnFile\<close> show that the driver
    and a regular file meet the contract. \<open>ServerSafety\<close> holds without any contract, \<open>ServerReplies\<close>
    for sockets that fail. \<open>ServerOverrun\<close> follows a packet longer than the buffers, piece by piece and
    call by call, to the place where it overruns one.
    \<open>SeekCommand\<close> has the text form of seek commands. \<open>ServerThreads\<close> is the system of many
    client threads on one log, storing, seeking and sending back, on any log that meets the contract
    \<open>shared_log\<close>; again the driver and a regular file do.
  \<^item> \<open>ServerMain\<close>: \<open>main\<close>, \<open>socketLogger\<close> and what it calls, the signal handler, the timer.
    \<open>ServerLife\<close>: the main loop ends when told to, the process then ends if its threads do, and it gives
    everything back. \<open>FileTimer\<close>: the time stamps and packets of the file build in one file, and which
    bytes of packets survive.
  \<^item> \<open>ServerPieces\<close>: the client thread and the main thread cut into pieces, which run one after the
    other are the whole functions; a client may send its bytes and then stay silent without hanging up
    (\<open>client_hangs_up\<close>), and its thread waits in \<open>recv\<close> for ever. \<open>ServerProcess\<close>: the whole process on the driver, main thread and
    client threads side by side in any order, and why it is a system of client threads in the sense of
    \<open>ServerThreads\<close>. \<open>ProcessEnd\<close>: its books (descriptors, buffers, queue items, what is left of a
    connection that could not be served) in every reachable state, why every run ends, and that a silent
    client keeps the process from exiting.
  \<^item> \<open>ServerSections\<close>: the sections of a client thread under the log lock, one system call at a time.
    \<open>ServerLocking\<close>: the process with the log lock in the open, where one thread makes the calls of its
    section while the others go on with what needs no lock, and why it does no more than the process in
    which a section is one step. \<open>LockingEnd\<close>: it ends, without deadlock, and leaves the same.
  \<^item> \<open>SystemCalls\<close>, \<open>Threading\<close>, \<open>Writer\<close>: the three small programs with their properties.
    \<open>Autotest\<close>: the constants of \<open>examples/autotest-validate\<close>.
  \<^item> \<open>DriverProperties\<close>, \<open>ServerProperties\<close> and \<open>LockingProperties\<close>: the properties of the driver, of the
    server and of the process with its lock, each with an instance. \<open>ProcessProperties\<close>: the process with
    one step per section, on the driver.

  \<^bold>\<open>What the lemmas show.\<close>
  Buffer: after any additions it holds the last ten entries, every pointer is either stored or was
  handed back for release, and the search finds the byte at a position. Driver: every operation, on
  every path, computes what the abstract log says, with no bad access and the semaphore released;
  so every sequence of calls on any open files does, from loading to unloading, and unloading frees
  each block once. A command may be written in pieces. Server: whatever the splitting of the bytes
  received and of the writes, a session has the replies of \<open>serve\<close>; with interleaved clients each
  reply is the last ten packets at its time; descriptors, memory and locks are balanced; a signal
  ends the main loop, and failed setup exits. Process: whatever the schedule, what each client is
  sent is what the system of client threads says; the lock makes the sections atomic; once a signal comes
  there is no endless run and no deadlock, even with a step for every system call under the lock, only the
  waiting for a client that stays connected and silent; at the exit nothing is left open or allocated,
  except for a connection for which memory or a thread could not be had. Example programs: when \<open>do_exec\<close> is true,
  mutual exclusion and progress, what the writer writes.

  Some properties record behaviour that users of the code have to know, and that differs from what
  its comments say: \<open>read\<close> ignores the size of the caller's buffer, \<open>write\<close> never releases its
  temporary buffer, a seek to the last slot goes to the start, \<open>ioctl\<close> reads the read offset outside
  the semaphore, a packet of 1024 bytes or more overruns the receive buffer or the buffer on the stack
  that the log is sent back from, a failed reply moves the
  position of the log, the file build does not send a client's packet back and writes time stamps over the
  packets, a client that stays connected keeps the server from exiting, \<open>do_exec_redirect\<close> ignores the status of the
  command, the writer repeats the start of its string after a partial write, and the waiting times
  of the thread example are microseconds.

  \<^bold>\<open>Conventions.\<close>
  A result \<open>None\<close> is a call that does not return normally: an access outside an object, to freed or
  never written memory, signed overflow, or waiting that nothing ends; so a result \<open>Some\<close> in a
  theorem includes the absence of these. Loops that the environment may keep running for ever (a
  socket that is always interrupted) are partial functions without fuel; the theorems assume a
  socket that takes a byte again and again (\<open>productive\<close>) and prove that they return. All other
  functions are total. The answers of the operating system (allocations, sockets, \<open>accept\<close>,
  \<open>fork\<close>, signals) are arguments, and \<open>fixed_size_llseek\<close>, which belongs to the kernel, is a
  parameter with its documented behaviour as a hypothesis (\<open>seeks_inside\<close>, \<open>llseek_documented\<close>).
  The heap has a limit \<open>kmalloc_max\<close> on the size of a request, below \<open>2 ^ 31\<close>; so the \<open>int\<close> index of
  \<open>aesd_write\<close> does not overflow. Integers of the C code are words of their width.

  \<^bold>\<open>Not modelled.\<close>
  Text printed to the terminal, the kernel log and the system log (except the server's system log
  messages and usage text, the debug output of the driver and the output of the autotest program);
  shell scripts, build files and documents. What a driver operation does under the semaphore of the
  device is one step; the parts of \<open>ioctl\<close> that are outside it are steps of their own. \<open>aesd_llseek\<close> calls
  \<open>fixed_size_llseek\<close> after the \<open>up\<close>; that call touches only the open file, and both are one step. A thread
  that receives a byte and has to wait for the log lock then does both when it gets the lock.
  \<open>ServerProcess\<close> is the driver build, whose process has no timer; connections that cannot open the log
  are left out there (\<open>ServerSafety\<close> covers a thread on any file). What a client sends is a finite list of
  bytes, after which it hangs up or stays silent. The systems of many threads have packets shorter than
  1024 bytes. SIGPIPE, which the server does not handle and which ends it when it writes to a closed
  connection, is left out: a failing \<open>write\<close> returns an error.
\<close>

end
